(* ===== verification/Cmon_Prelude.thy ===== *)
theory Cmon_Prelude
  imports Main "HOL-Library.Word" "HOL-Library.Sublist"
begin

text \<open>
  What every component shares: C's types of bytes and sizes, the ways an operation can end
  other than by returning, sequencing of operations that may end so, and the list lemmas
  about overwriting a part of an array (\<open>blit\<close>) and about the first occurrence of a
  pattern (\<open>first_occ\<close>).

  A \<open>char\<close> of the code is HOL's \<open>char\<close> (8 bits; every comparison the code makes on a
  \<open>char\<close> is with ASCII characters, for which signedness does not matter); \<open>size_t\<close> is a 64-bit
  word, so that its arithmetic wraps as it does in C; an \<open>ssize_t\<close> and an \<open>int\<close> that only hold
  an index, a count or a return code are an \<open>int\<close>, and the conversion of a \<open>size_t\<close> to
  \<open>ssize_t\<close> is \<open>sint\<close>.
\<close>

named_theorems res_simps \<open>rewriting of results and of their sequencing\<close>
named_theorems blit_simps \<open>rewriting of array overwrites\<close>

section \<open>Types\<close>

type_synonym byte = char
type_synonym size_t = "64 word"

text \<open>
  The ways an operation stops without returning: undefined behaviour, with its cause; \<open>exit\<close>
  with its status; a loop that is never left.
\<close>

datatype ub = NullDeref | OutOfBounds | UseAfterFree | DoubleFree | Uninitialised

datatype stop = UB ub | Exit int | Diverge

type_synonym 'a res = "stop + 'a"

definition bindE :: "'a res \<Rightarrow> ('a \<Rightarrow> 'b res) \<Rightarrow> 'b res" where
  "bindE m f = (case m of Inl e \<Rightarrow> Inl e | Inr x \<Rightarrow> f x)"

definition NUL :: byte where
  "NUL = CHR 0x00"

definition CR :: byte where
  "CR = CHR 0x0D"

definition LF :: byte where
  "LF = CHR 0x0A"

text \<open>An overwrite of an array from index \<open>i\<close> on.\<close>

definition blit :: "'a list \<Rightarrow> nat \<Rightarrow> 'a list \<Rightarrow> 'a list" where
  "blit ds i xs = take i ds @ xs @ drop (i + length xs) ds"

text \<open>The index of the first occurrence of a pattern in a text.\<close>

fun first_occ :: "'a list \<Rightarrow> 'a list \<Rightarrow> nat option" where
  "first_occ p [] = (if p = [] then Some 0 else None)"
| "first_occ p (x # xs) =
     (if prefix p (x # xs) then Some 0 else map_option Suc (first_occ p xs))"

text \<open>
  What the allocator answers to the coming requests: \<open>False\<close> is a \<open>NULL\<close>, and a script that has run
  out grants everything. \<open>try_alloc\<close> is one request, with what follows its failure and its success.
\<close>

type_synonym memory = "bool list"

fun try_alloc :: "memory \<Rightarrow> (memory \<Rightarrow> 'a) \<Rightarrow> (memory \<Rightarrow> 'a) \<Rightarrow> 'a" where
  "try_alloc [] fails works = works []"
| "try_alloc (b # bs) fails works = (if b then works bs else fails bs)"

text \<open>Whether the next \<open>n\<close> requests are granted.\<close>

definition grants :: "nat \<Rightarrow> memory \<Rightarrow> bool" where
  "grants n m \<longleftrightarrow> list_all id (take n m)"

text \<open>A variable or a member that may not have been assigned yet.\<close>

datatype 'a field = Unwritten | Written 'a

fun read_field :: "'a field \<Rightarrow> 'a res" where
  "read_field Unwritten = Inl (UB Uninitialised)"
| "read_field (Written x) = Inr x"

text \<open>The bytes of a C string: up to the first NUL.\<close>

definition c_str :: "byte list \<Rightarrow> byte list" where
  "c_str bs = takeWhile (\<lambda>c. c \<noteq> NUL) bs"

section \<open>Sequencing\<close>

lemma bindE_Inr [simp, res_simps]: "bindE (Inr x) f = f x"
  by (simp add: bindE_def)

lemma bindE_Inl [simp, res_simps]: "bindE (Inl e) f = Inl e"
  by (simp add: bindE_def)

lemma bindE_eq_Inr: "bindE m f = Inr y \<longleftrightarrow> (\<exists>x. m = Inr x \<and> f x = Inr y)"
  by (cases m) simp_all

lemma bindE_assoc: "bindE (bindE m f) g = bindE m (\<lambda>x. bindE (f x) g)"
  by (cases m) simp_all

lemma bindE_cong [fundef_cong]:
  "m = m' \<Longrightarrow> (\<And>x. m' = Inr x \<Longrightarrow> f x = f' x) \<Longrightarrow> bindE m f = bindE m' f'"
  by (cases m') simp_all

lemma bindE_split:
  "P (bindE m f) \<longleftrightarrow> (\<forall>e. m = Inl e \<longrightarrow> P (Inl e)) \<and> (\<forall>x. m = Inr x \<longrightarrow> P (f x))"
  by (cases m) simp_all

section \<open>Allocation\<close>

lemma grants_simps [simp]:
  "grants n []" "grants 0 m" "grants (Suc n) (b # m) \<longleftrightarrow> b \<and> grants n m"
  by (simp_all add: grants_def)

lemma try_alloc_split:
  "P (try_alloc m f g) \<longleftrightarrow>
     (m = [] \<longrightarrow> P (g [])) \<and> (\<forall>bs. m = True # bs \<longrightarrow> P (g bs)) \<and> (\<forall>bs. m = False # bs \<longrightarrow> P (f bs))"
  by (cases "(m, f, g)" rule: try_alloc.cases) auto

lemma try_alloc_cong [fundef_cong]:
  "m = m' \<Longrightarrow> (\<And>x. f x = f' x) \<Longrightarrow> (\<And>x. g x = g' x) \<Longrightarrow> try_alloc m f g = try_alloc m' f' g'"
  by (cases m') simp_all

section \<open>Overwriting a part of an array\<close>

lemma length_blit [simp]: "i + length xs \<le> length ds \<Longrightarrow> length (blit ds i xs) = length ds"
  by (simp add: blit_def)

lemma blit_Nil [simp, blit_simps]: "blit ds i [] = ds"
  by (simp add: blit_def)

lemma blit_snoc:
  assumes "i + length xs < length ds"
  shows "(blit ds i xs)[i + length xs := x] = blit ds i (xs @ [x])"
  using assms
  by (simp add: blit_def list_update_append drop_Suc Cons_nth_drop_Suc [symmetric])

lemma blit_cons:
  assumes "Suc i + length xs \<le> length ds"
  shows "(blit ds (Suc i) xs)[i := x] = blit ds i (x # xs)"
  using assms
  by (simp add: blit_def take_Suc_conv_app_nth list_update_append)

lemma blit_upd:
  assumes "i < length ds"
  shows "blit (ds[i := x]) (Suc i) xs = blit ds i (x # xs)"
  using assms by (simp add: blit_def take_Suc_conv_app_nth drop_update_cancel)

lemma blit_blit:
  assumes "i + length xs + length ys \<le> length ds"
  shows "blit (blit ds i xs) (i + length xs) ys = blit ds i (xs @ ys)"
proof -
  from assms have "min (length ds) i = i" by simp
  with assms show ?thesis by (simp add: blit_def add_ac)
qed

lemma nth_blit_outside:
  "j < i \<or> i + length xs \<le> j \<Longrightarrow> i + length xs \<le> length ds \<Longrightarrow> j < length ds \<Longrightarrow>
   blit ds i xs ! j = ds ! j"
  by (auto simp: blit_def nth_append min_def)

lemma nth_blit_inside: "j < length xs \<Longrightarrow> i \<le> length ds \<Longrightarrow> blit ds i xs ! (i + j) = xs ! j"
  by (simp add: blit_def nth_append min_def)

lemma take_blit_all: "i \<le> length ds \<Longrightarrow> take (i + length xs) (blit ds i xs) = take i ds @ xs"
  by (simp add: blit_def min_def)

lemma take_Suc_drop:
  "so + i < length ss \<Longrightarrow> take (Suc i) (drop so ss) = take i (drop so ss) @ [ss ! (so + i)]"
  by (simp add: take_Suc_conv_app_nth)

section \<open>First occurrences\<close>

lemma first_occ_SomeD:
  "first_occ p t = Some i \<Longrightarrow> prefix p (drop i t) \<and> (\<forall>j<i. \<not> prefix p (drop j t))"
proof (induction t arbitrary: i)
  case Nil
  then show ?case by (simp split: if_splits)
next
  case (Cons x t)
  show ?case
  proof (cases "prefix p (x # t)")
    case True
    with Cons.prems show ?thesis by simp
  next
    case False
    with Cons.prems obtain k where k: "first_occ p t = Some k" "i = Suc k" by auto
    have "\<not> prefix p (drop j (x # t))" if "j < i" for j
      using that Cons.IH [OF k(1)] k(2) False by (cases j) auto
    then show ?thesis using Cons.IH [OF k(1)] k(2) by simp
  qed
qed

lemma first_occ_NoneD: "first_occ p t = None \<Longrightarrow> \<not> prefix p (drop i t)"
proof (induction t arbitrary: i)
  case Nil
  then show ?case by (simp split: if_splits)
next
  case (Cons x t)
  then show ?case by (cases i) (auto split: if_splits)
qed

lemma first_occI:
  assumes "prefix p (drop i t)" "\<And>j. j < i \<Longrightarrow> \<not> prefix p (drop j t)" "p \<noteq> []"
  shows "first_occ p t = Some i"
proof (cases "first_occ p t")
  case None
  then show ?thesis using first_occ_NoneD assms(1) by blast
next
  case (Some k)
  with first_occ_SomeD [OF Some] assms have "\<not> k < i" "\<not> i < k" by blast+
  with Some show ?thesis by simp
qed

lemma first_occ_bound: "first_occ p t = Some i \<Longrightarrow> i + length p \<le> length t"
proof (induction t arbitrary: i)
  case Nil
  then show ?case by (simp split: if_splits)
next
  case (Cons x t)
  show ?case
  proof (cases "prefix p (x # t)")
    case True
    then have "length p \<le> length (x # t)" by (rule prefix_length_le)
    with True Cons.prems show ?thesis by simp
  next
    case False
    with Cons show ?thesis by fastforce
  qed
qed

lemma first_occ_append_None:
  "first_occ p (a @ b) = None \<Longrightarrow> first_occ p b = None"
  by (induction a) (auto split: if_splits)

lemma first_occ_append_left_None:
  assumes "first_occ p (a @ b) = None"
  shows "first_occ p a = None"
proof (rule ccontr)
  assume "first_occ p a \<noteq> None"
  then obtain i where i: "first_occ p a = Some i" by blast
  then have "prefix p (drop i a)" "i + length p \<le> length a"
    using first_occ_SomeD first_occ_bound by blast+
  then have "prefix p (drop i (a @ b))" by (auto simp: prefix_def)
  with first_occ_NoneD [OF assms] show False by blast
qed

text \<open>Minimality is all that is left to check once an occurrence is known.\<close>

lemma first_occ_le:
  assumes "prefix p (drop i t)"
  obtains k where "first_occ p t = Some k" "k \<le> i"
proof (cases "first_occ p t")
  case None
  with assms show ?thesis using first_occ_NoneD by blast
next
  case (Some k)
  then have "k \<le> i" using first_occ_SomeD [OF Some] assms by (meson not_le)
  with Some show ?thesis by (rule that)
qed

section \<open>C strings\<close>

lemma c_str_append_NUL [simp]: "NUL \<notin> set s \<Longrightarrow> c_str (s @ NUL # r) = s"
proof -
  assume "NUL \<notin> set s"
  then have "\<forall>x\<in>set s. x \<noteq> NUL" by blast
  then show ?thesis by (simp add: c_str_def)
qed

lemma c_str_no_NUL: "NUL \<notin> set (c_str bs)"
  by (auto simp: c_str_def dest: set_takeWhileD)

lemma c_str_id: "NUL \<notin> set s \<Longrightarrow> c_str s = s"
  unfolding c_str_def by (rule takeWhile_eq_all_conv [THEN iffD2]) blast

lemma length_c_str_le: "length (c_str bs) \<le> length bs"
  by (simp add: c_str_def length_takeWhile_le)

section \<open>Sizes\<close>

lemma unat_size_t_bound: "unat (w :: size_t) < 2 ^ 64"
  using unsigned_less [of w] by simp

lemma unat_add_no_wrap:
  "unat (a :: size_t) + unat b < 2 ^ 64 \<Longrightarrow> unat (a + b) = unat a + unat b"
  by (simp add: unat_word_ariths)

lemma unat_sub_no_wrap: "(b :: size_t) \<le> a \<Longrightarrow> unat (a - b) = unat a - unat b"
  by (simp add: unat_sub)

lemma room_left:
  assumes "unat (x :: size_t) + unat y \<le> unat cap"
  shows "y \<le> cap - x"
  using assms by (simp add: word_le_nat_alt unat_sub)

lemma sint_small: "unat (w :: size_t) < 2 ^ 63 \<Longrightarrow> sint w = int (unat w)"
proof -
  assume "unat w < 2 ^ 63"
  then have "int (unat w) < int (2 ^ 63)" by (simp only: of_nat_less_iff)
  then have "uint w < 2 ^ 63" by simp
  moreover have "sint w = sint (word_of_int (int (unat w)) :: size_t)" by simp
  ultimately show ?thesis unfolding int_word_sint by simp
qed

lemma size_t_eq_0: "n < 2 ^ 63 \<Longrightarrow> (word_of_nat n :: size_t) = 0 \<longleftrightarrow> n = 0"
proof -
  assume "n < 2 ^ 63"
  then have "unat (word_of_nat n :: size_t) = n" by (simp add: unat_of_nat)
  then show ?thesis by (metis unat_eq_zero)
qed

text \<open>A \<open>size_t\<close> returned as an \<open>int\<close>.\<close>

lemma sint_ucast_small:
  assumes "unat (w :: size_t) < 2 ^ 31"
  shows "sint (ucast w :: 32 word) = int (unat w)"
proof -
  have "int (unat w) < int (2 ^ 31)" using assms by (simp only: of_nat_less_iff)
  then have "uint w < 2 ^ 31" by simp
  moreover have "- (2 ^ 31) \<le> uint w" by (rule order_trans [of _ 0]) simp_all
  moreover have "sint (ucast w :: 32 word) = signed_take_bit 31 (uint w)" by (simp add: signed_ucast_eq)
  ultimately show ?thesis by (simp add: signed_take_bit_int_eq_self)
qed

end
