(* ===== verification/C_Heap.thy ===== *)
theory C_Heap
  imports Cmon_Prelude
begin

text \<open>
  The memory the C code runs on: a store of byte blocks addressed by block number and
  offset, \<open>malloc\<close>, \<open>calloc\<close>, \<open>realloc\<close>, \<open>free\<close>, and byte reads and writes. What the
  standard leaves to the allocator is a script in the state (\<open>allocs\<close>: whether the next
  allocation fails, and whether a \<open>realloc\<close> keeps the block in place; an empty script
  means success at a fresh address) and a filling (\<open>junk\<close>) for the bytes of a new block; a
  theorem about every heap is a theorem about every allocator. A block never moves, a freed
  block number is never used again, and an access that C leaves undefined stops with its
  cause. The record is extensible: a component that keeps structures on the heap adds a
  field for each of its structure types.
\<close>

section \<open>Pointers and heaps\<close>

text \<open>
  \<open>Wild\<close> is an address computed from \<open>NULL\<close> by adding a non-zero offset: not \<open>NULL\<close>, and
  not the address of anything.
\<close>

datatype ptr = Null | Wild | Ptr (blk: nat) (off: nat)

datatype alloc_event = Fail | Fresh | InPlace

record heap =
  blocks :: "nat \<Rightarrow> byte list option"
  next_blk :: nat
  allocs :: "alloc_event list"
  junk :: "nat \<Rightarrow> nat \<Rightarrow> byte"

fun ptr_add :: "ptr \<Rightarrow> nat \<Rightarrow> ptr" where
  "ptr_add Null n = (if n = 0 then Null else Wild)"
| "ptr_add Wild n = Wild"
| "ptr_add (Ptr b i) n = Ptr b (i + n)"

definition next_event :: "'z heap_scheme \<Rightarrow> alloc_event \<times> 'z heap_scheme" where
  "next_event h = (case allocs h of
      [] \<Rightarrow> (Fresh, h)
    | e # es \<Rightarrow> (e, h\<lparr>allocs := es\<rparr>))"

definition upd_block :: "nat \<Rightarrow> byte list \<Rightarrow> 'z heap_scheme \<Rightarrow> 'z heap_scheme" where
  "upd_block b bs h = h\<lparr>blocks := (blocks h)(b \<mapsto> bs)\<rparr>"

definition new_block :: "byte list \<Rightarrow> 'z heap_scheme \<Rightarrow> ptr \<times> 'z heap_scheme" where
  "new_block bs h =
     (Ptr (next_blk h) 0,
      h\<lparr>blocks := (blocks h)(next_blk h \<mapsto> bs), next_blk := Suc (next_blk h)\<rparr>)"

definition malloc :: "nat \<Rightarrow> 'z heap_scheme \<Rightarrow> ptr \<times> 'z heap_scheme" where
  "malloc n h = (case next_event h of (e, h1) \<Rightarrow>
     if e = Fail then (Null, h1)
     else new_block (map (junk h1 (next_blk h1)) [0..<n]) h1)"

definition calloc :: "nat \<Rightarrow> 'z heap_scheme \<Rightarrow> ptr \<times> 'z heap_scheme" where
  "calloc n h = (case next_event h of (e, h1) \<Rightarrow>
     if e = Fail then (Null, h1) else new_block (replicate n NUL) h1)"

fun c_free :: "ptr \<Rightarrow> 'z heap_scheme \<Rightarrow> 'z heap_scheme res" where
  "c_free Null h = Inr h"
| "c_free Wild h = Inl (UB OutOfBounds)"
| "c_free (Ptr b i) h =
     (if blocks h b = None then Inl (UB DoubleFree)
      else if i \<noteq> 0 then Inl (UB OutOfBounds)
      else Inr (h\<lparr>blocks := (blocks h)(b := None)\<rparr>))"

fun load :: "ptr \<Rightarrow> 'z heap_scheme \<Rightarrow> byte res" where
  "load Null h = Inl (UB NullDeref)"
| "load Wild h = Inl (UB OutOfBounds)"
| "load (Ptr b i) h = (case blocks h b of
      None \<Rightarrow> Inl (UB UseAfterFree)
    | Some bs \<Rightarrow> if i < length bs then Inr (bs ! i) else Inl (UB OutOfBounds))"

fun store :: "ptr \<Rightarrow> byte \<Rightarrow> 'z heap_scheme \<Rightarrow> 'z heap_scheme res" where
  "store Null c h = Inl (UB NullDeref)"
| "store Wild c h = Inl (UB OutOfBounds)"
| "store (Ptr b i) c h = (case blocks h b of
      None \<Rightarrow> Inl (UB UseAfterFree)
    | Some bs \<Rightarrow> if i < length bs then Inr (upd_block b (bs[i := c]) h)
                 else Inl (UB OutOfBounds))"

text \<open>
  The bytes of the object a pointer points into, from the pointer on: what a function that
  only reads through a \<open>const char *\<close> can see. \<open>None\<close> is \<open>NULL\<close>.
\<close>

fun mem_from :: "ptr \<Rightarrow> 'z heap_scheme \<Rightarrow> byte list option res" where
  "mem_from Null h = Inr None"
| "mem_from Wild h = Inl (UB OutOfBounds)"
| "mem_from (Ptr b i) h = (case blocks h b of
      None \<Rightarrow> Inl (UB UseAfterFree)
    | Some bs \<Rightarrow> if i \<le> length bs then Inr (Some (drop i bs)) else Inl (UB OutOfBounds))"

text \<open>
  \<open>realloc\<close>: \<open>NULL\<close> and the old block kept on failure; else the block resized in place or
  moved, the old block freed by the move.
\<close>

definition resize :: "(nat \<Rightarrow> byte) \<Rightarrow> nat \<Rightarrow> byte list \<Rightarrow> byte list" where
  "resize j n bs = take n bs @ map j [length bs..<n]"

definition realloc :: "ptr \<Rightarrow> nat \<Rightarrow> 'z heap_scheme \<Rightarrow> (ptr \<times> 'z heap_scheme) res" where
  "realloc p n h = (case p of
      Null \<Rightarrow> Inr (malloc n h)
    | Wild \<Rightarrow> Inl (UB OutOfBounds)
    | Ptr b i \<Rightarrow> (case blocks h b of
          None \<Rightarrow> Inl (UB UseAfterFree)
        | Some bs \<Rightarrow>
            if i \<noteq> 0 then Inl (UB OutOfBounds)
            else (case next_event h of (e, h1) \<Rightarrow> (case e of
                Fail \<Rightarrow> Inr (Null, h1)
              | InPlace \<Rightarrow> Inr (p, upd_block b (resize (junk h1 b) n bs) h1)
              | Fresh \<Rightarrow> (case new_block (resize (junk h1 (next_blk h1)) n bs) h1 of
                    (q, h2) \<Rightarrow> Inr (q, h2\<lparr>blocks := (blocks h2)(b := None)\<rparr>))))))"

text \<open>Well-formed heaps: the blocks from \<open>next_blk\<close> on are still unused.\<close>

definition heap_ok :: "'z heap_scheme \<Rightarrow> bool" where
  "heap_ok h \<longleftrightarrow> (\<forall>b \<ge> next_blk h. blocks h b = None)"

section \<open>Accesses and updates\<close>

named_theorems heap_simps \<open>rewriting of accesses to a block that is known\<close>

lemma blocks_upd_block [simp, heap_simps]: "blocks (upd_block b bs h) = (blocks h)(b \<mapsto> bs)"
  by (simp add: upd_block_def)

lemma upd_block_fields [simp, heap_simps]:
  "next_blk (upd_block b bs h) = next_blk h"
  "allocs (upd_block b bs h) = allocs h"
  "junk (upd_block b bs h) = junk h"
  "heap.more (upd_block b bs h) = heap.more h"
  by (simp_all add: upd_block_def)

lemma upd_block_twice [simp, heap_simps]: "upd_block b ys (upd_block b xs h) = upd_block b ys h"
  by (simp add: upd_block_def)

lemma upd_block_same: "blocks h b = Some bs \<Longrightarrow> upd_block b bs h = h"
  by (simp add: upd_block_def fun_upd_idem)

lemma load_Ptr [heap_simps]:
  "blocks h b = Some bs \<Longrightarrow> i < length bs \<Longrightarrow> load (Ptr b i) h = Inr (bs ! i)"
  by simp

lemma store_Ptr [heap_simps]:
  "blocks h b = Some bs \<Longrightarrow> i < length bs \<Longrightarrow>
   store (Ptr b i) c h = Inr (upd_block b (bs[i := c]) h)"
  by simp

lemma load_OOB: "blocks h b = Some bs \<Longrightarrow> length bs \<le> i \<Longrightarrow> load (Ptr b i) h = Inl (UB OutOfBounds)"
  by simp

lemma ptr_add_0 [simp]: "ptr_add p 0 = p"
  by (cases p) simp_all

lemma ptr_add_add: "ptr_add (ptr_add p m) n = ptr_add p (m + n)"
  by (cases p) simp_all

lemma ptr_add_eq_Null [simp]: "ptr_add p n = Null \<longleftrightarrow> p = Null \<and> n = 0"
  by (cases p) simp_all

section \<open>Allocation\<close>

lemma next_event_fields:
  assumes "next_event h = (e, h1)"
  shows "blocks h1 = blocks h" "next_blk h1 = next_blk h" "junk h1 = junk h"
    "heap.more h1 = heap.more h"
  using assms by (auto simp: next_event_def split: list.splits)

lemma next_event_all_ok: "Fail \<notin> set (allocs h) \<Longrightarrow> next_event h = (e, h1) \<Longrightarrow> e \<noteq> Fail"
  by (auto simp: next_event_def split: list.splits)

lemma heap_ok_next_event: "heap_ok h \<Longrightarrow> next_event h = (e, h1) \<Longrightarrow> heap_ok h1"
  by (simp add: heap_ok_def next_event_fields)

lemma heap_ok_upd_block: "heap_ok h \<Longrightarrow> blocks h b \<noteq> None \<Longrightarrow> heap_ok (upd_block b bs h)"
  by (auto simp: heap_ok_def)

lemma heap_ok_fresh: "heap_ok h \<Longrightarrow> blocks h b = Some bs \<Longrightarrow> b < next_blk h"
  by (metis heap_ok_def not_le option.distinct(1))

lemma heap_ok_new_block: "heap_ok h \<Longrightarrow> heap_ok (snd (new_block bs h))"
  by (simp add: heap_ok_def new_block_def)

lemma malloc_cases:
  obtains (fail) h1 where "malloc n h = (Null, h1)" "blocks h1 = blocks h"
      "next_blk h1 = next_blk h" "junk h1 = junk h" "heap.more h1 = heap.more h"
      "Fail \<in> set (allocs h)"
  | (ok) h1 bs where "malloc n h = (Ptr (next_blk h) 0, h1)" "length bs = n"
      "blocks h1 = (blocks h)(next_blk h \<mapsto> bs)" "next_blk h1 = Suc (next_blk h)"
      "junk h1 = junk h" "heap.more h1 = heap.more h" "bs = map (junk h (next_blk h)) [0..<n]"
proof (cases "next_event h")
  case (Pair e h1)
  note f = next_event_fields [OF Pair]
  show thesis
  proof (cases "e = Fail")
    case True
    then have "Fail \<in> set (allocs h)" using next_event_all_ok [OF _ Pair] by blast
    with True Pair f show thesis by (intro fail [of h1]) (auto simp: malloc_def)
  next
    case False
    with Pair f show thesis
      by (intro ok [of "snd (malloc n h)" "map (junk h (next_blk h)) [0..<n]"])
        (auto simp: malloc_def new_block_def)
  qed
qed

lemma calloc_cases:
  obtains (fail) h1 where "calloc n h = (Null, h1)" "blocks h1 = blocks h"
      "next_blk h1 = next_blk h" "junk h1 = junk h" "heap.more h1 = heap.more h"
      "Fail \<in> set (allocs h)"
  | (ok) h1 where "calloc n h = (Ptr (next_blk h) 0, h1)"
      "blocks h1 = (blocks h)(next_blk h \<mapsto> replicate n NUL)" "next_blk h1 = Suc (next_blk h)"
      "junk h1 = junk h" "heap.more h1 = heap.more h"
proof (cases "next_event h")
  case (Pair e h1)
  note f = next_event_fields [OF Pair]
  show thesis
  proof (cases "e = Fail")
    case True
    then have "Fail \<in> set (allocs h)" using next_event_all_ok [OF _ Pair] by blast
    with True Pair f show thesis by (intro fail [of h1]) (auto simp: calloc_def)
  next
    case False
    with Pair f show thesis
      by (intro ok [of "snd (calloc n h)"]) (auto simp: calloc_def new_block_def)
  qed
qed

lemma length_resize [simp]: "length (resize j n bs) = n"
  by (simp add: resize_def)

lemma take_resize: "k \<le> n \<Longrightarrow> k \<le> length bs \<Longrightarrow> take k (resize j n bs) = take k bs"
  by (simp add: resize_def)

end
