(* ===== verification/C_Utils_Str.thy ===== *)
theory C_Utils_Str
  imports C_Heap
begin

text \<open>
  src/src/utils/c_utils_str.c: the raw-memory copy, the naive pattern search every HTTP
  routine rests on, and the raw print. The copy works on the heap; the search and the print
  only read, so their \<open>const char *\<close> arguments are the bytes from the pointer to the end of its
  object (\<open>None\<close> for \<open>NULL\<close>) and a read past that end stops with \<open>OutOfBounds\<close>.

  Two contracts are stated as locales: \<open>block_copier\<close> (what a memory copy promises to the
  buffers that are assembled from several pieces) and \<open>pattern_finder\<close> (what a search promises
  to the header parser); both are interpreted on the definitions of this theory.
\<close>

section \<open>Definitions\<close>

fun copy_loop :: "ptr \<Rightarrow> ptr \<Rightarrow> nat \<Rightarrow> nat \<Rightarrow> 'z heap_scheme \<Rightarrow> 'z heap_scheme res" where
  "copy_loop src dst i 0 h = Inr h"
| "copy_loop src dst i (Suc k) h =
     bindE (load (ptr_add src i) h) (\<lambda>c.
     bindE (store (ptr_add dst i) c h) (\<lambda>h1.
     copy_loop src dst (Suc i) k h1))"

definition c_u_str_copy_n ::
    "ptr \<Rightarrow> size_t \<Rightarrow> ptr \<Rightarrow> size_t \<Rightarrow> 'z heap_scheme \<Rightarrow> (int \<times> 'z heap_scheme) res" where
  "c_u_str_copy_n src n dst buf_size h =
     (if src = Null then Inr (- 1, h)
      else if dst = Null then Inr (- 2, h)
      else if n > buf_size then Inr (- 3, h)
      else bindE (copy_loop src dst 0 (unat n) h) (\<lambda>h1. Inr (0, h1)))"

text \<open>A read through a \<open>const char *\<close>.\<close>

definition byte_at :: "byte list \<Rightarrow> nat \<Rightarrow> byte res" where
  "byte_at bs i = (if i < length bs then Inr (bs ! i) else Inl (UB OutOfBounds))"

text \<open>
  The inner loop of the search at text position \<open>s\<close>: whether the pattern is matched to its
  end. An empty pattern is never matched, because the match is reported from inside the loop.
\<close>

function match_loop :: "byte list \<Rightarrow> nat \<Rightarrow> byte list \<Rightarrow> nat \<Rightarrow> nat \<Rightarrow> bool res" where
  "match_loop p p_len t s i =
     (if i < p_len
      then bindE (byte_at t (s + i)) (\<lambda>a.
           bindE (byte_at p i) (\<lambda>b.
           if a \<noteq> b then Inr False
           else if i = p_len - 1 then Inr True
           else match_loop p p_len t s (Suc i)))
      else Inr False)"
  by pat_completeness auto
termination
  by (relation "measure (\<lambda>(p, p_len, t, s, i). p_len - i)") auto

text \<open>
  The outer loop, for \<open>s\<close> up to \<open>lim = t_len - p_len\<close> (computed in \<open>size_t\<close>, so it wraps when
  the text is shorter than the pattern). When \<open>lim\<close> is the largest \<open>size_t\<close> the condition
  \<open>s <= lim\<close> can never fail and the counter wraps to a state already seen.
\<close>

function search_loop :: "byte list \<Rightarrow> nat \<Rightarrow> byte list \<Rightarrow> nat \<Rightarrow> nat \<Rightarrow> int res" where
  "search_loop p p_len t lim s =
     (if s \<le> lim
      then bindE (match_loop p p_len t s 0) (\<lambda>found.
           if found then Inr (sint (word_of_nat s :: size_t))
           else if s = 2 ^ 64 - 1 then Inl Diverge
           else search_loop p p_len t lim (Suc s))
      else Inr (- 1))"
  by pat_completeness auto
termination
  by (relation "measure (\<lambda>(p, p_len, t, lim, s). Suc lim - s)") auto

definition c_u_str_find_pattern ::
    "byte list option \<Rightarrow> size_t \<Rightarrow> byte list option \<Rightarrow> size_t \<Rightarrow> int res" where
  "c_u_str_find_pattern p p_len t t_len =
     (case p of
        None \<Rightarrow> Inr (- 1)
      | Some ps \<Rightarrow> (case t of
          None \<Rightarrow> Inr (- 1)
        | Some ts \<Rightarrow> search_loop ps (unat p_len) ts (unat (t_len - p_len)) 0))"

text \<open>The bytes written to standard output.\<close>

fun print_loop :: "byte list \<Rightarrow> nat \<Rightarrow> nat \<Rightarrow> byte list res" where
  "print_loop src i 0 = Inr []"
| "print_loop src i (Suc k) =
     bindE (byte_at src i) (\<lambda>c. bindE (print_loop src (Suc i) k) (\<lambda>cs. Inr (c # cs)))"

definition c_u_str_print_n :: "byte list option \<Rightarrow> size_t \<Rightarrow> byte list res" where
  "c_u_str_print_n src n = (case src of
      None \<Rightarrow> if n = 0 then Inr [] else Inl (UB NullDeref)
    | Some bs \<Rightarrow> print_loop bs 0 (unat n))"

declare match_loop.simps [simp del] search_loop.simps [simp del]

section \<open>Contracts\<close>

text \<open>
  A copier writes the source range over the destination range and nothing else, provided both
  ranges lie in their blocks and the blocks differ. A client that fills a new block piece by
  piece then gets the concatenation of the pieces.
\<close>

locale block_copier =
  fixes copy :: "ptr \<Rightarrow> size_t \<Rightarrow> ptr \<Rightarrow> size_t \<Rightarrow> 'z heap_scheme \<Rightarrow> (int \<times> 'z heap_scheme) res"
  assumes copy_range:
    "blocks h s = Some ss \<Longrightarrow> blocks h d = Some ds \<Longrightarrow> s \<noteq> d \<Longrightarrow>
     i + unat n \<le> length ss \<Longrightarrow> j + unat n \<le> length ds \<Longrightarrow> n \<le> room \<Longrightarrow>
     copy (Ptr s i) n (Ptr d j) room h =
       Inr (0, upd_block d (blit ds j (take (unat n) (drop i ss))) h)"
begin

lemma copy_piece:
  assumes "blocks h d = Some (pre @ rest)" "length pre = j"
    and "blocks h s = Some ss" "s \<noteq> d" "i + unat n \<le> length ss"
    and "unat n \<le> length rest" "n \<le> room"
  shows "copy (Ptr s i) n (Ptr d j) room h =
     Inr (0, upd_block d (pre @ take (unat n) (drop i ss) @ drop (unat n) rest) h)"
  using assms by (simp add: copy_range [where ss = ss] blit_def)

lemma copy_frame:
  assumes "blocks h s = Some ss" "blocks h d = Some ds" "s \<noteq> d"
    and "i + unat n \<le> length ss" "j + unat n \<le> length ds" "n \<le> room"
    and "copy (Ptr s i) n (Ptr d j) room h = Inr (rc, h1)"
  shows "b \<noteq> d \<Longrightarrow> blocks h1 b = blocks h b" "next_blk h1 = next_blk h"
    "heap.more h1 = heap.more h"
  using assms by (auto simp: copy_range)

end

text \<open>
  A finder reports the first occurrence of a non-empty pattern that is not longer than the text;
  when the pattern occurs in the object before the end of the text, the length passed may even
  exceed the object.
\<close>

locale pattern_finder =
  fixes find :: "byte list option \<Rightarrow> size_t \<Rightarrow> byte list option \<Rightarrow> size_t \<Rightarrow> int res"
  assumes find_first:
    "0 < unat p_len \<Longrightarrow> unat p_len \<le> unat t_len \<Longrightarrow> unat p_len \<le> length p \<Longrightarrow>
     unat t_len \<le> length t \<Longrightarrow> unat t_len < 2 ^ 63 \<Longrightarrow>
     find (Some p) p_len (Some t) t_len =
       Inr (case first_occ (take (unat p_len) p) (take (unat t_len) t) of
              None \<Rightarrow> - 1 | Some k \<Rightarrow> int k)"
    and find_in_object:
    "0 < unat p_len \<Longrightarrow> unat p_len \<le> length p \<Longrightarrow> unat t_len < 2 ^ 63 \<Longrightarrow>
     first_occ (take (unat p_len) p) t = Some k \<Longrightarrow> k + unat p_len \<le> unat t_len \<Longrightarrow>
     find (Some p) p_len (Some t) t_len = Inr (int k)"
begin

lemma find_whole:
  assumes "p \<noteq> []" "length p \<le> unat t_len" "length p < 2 ^ 63" "unat t_len \<le> length t"
    "unat t_len < 2 ^ 63"
  shows "find (Some p) (word_of_nat (length p)) (Some t) t_len =
     Inr (case first_occ p (take (unat t_len) t) of None \<Rightarrow> - 1 | Some k \<Rightarrow> int k)"
proof -
  have "unat (word_of_nat (length p) :: size_t) = length p"
    using assms(3) by (simp add: unat_of_nat)
  with assms show ?thesis by (simp add: find_first)
qed

lemma find_hit:
  assumes "p \<noteq> []" "length p < 2 ^ 63" "unat t_len = length t" "unat t_len < 2 ^ 63"
    "first_occ p t = Some k"
  shows "find (Some p) (word_of_nat (length p)) (Some t) t_len = Inr (int k)"
  using assms first_occ_bound [OF assms(5)] by (simp add: find_whole)

end

section \<open>The copy\<close>

lemma copy_loop_blit:
  assumes "blocks h s = Some ss" "s \<noteq> d" "so + i + k \<le> length ss"
    and "blocks h d = Some (blit ds dofs (take i (drop so ss)))"
    and "dofs + i + k \<le> length ds"
  shows "copy_loop (Ptr s so) (Ptr d dofs) i k h =
     Inr (upd_block d (blit ds dofs (take (i + k) (drop so ss))) h)"
  using assms
proof (induction k arbitrary: i h)
  case 0
  then show ?case by (simp add: upd_block_same)
next
  case (Suc k)
  let ?cur = "blit ds dofs (take i (drop so ss))"
  have len: "length (take i (drop so ss)) = i" using Suc.prems(3) by simp
  then have upd: "?cur[dofs + i := ss ! (so + i)] = blit ds dofs (take (Suc i) (drop so ss))"
    using Suc.prems(3,5) blit_snoc [of dofs "take i (drop so ss)" ds "ss ! (so + i)"]
    by (simp add: take_Suc_drop)
  have "length ?cur = length ds" using len Suc.prems(5) by simp
  then have st: "store (Ptr d (dofs + i)) (ss ! (so + i)) h =
      Inr (upd_block d (blit ds dofs (take (Suc i) (drop so ss))) h)"
    using Suc.prems(4,5) upd by (simp add: store_Ptr)
  have "load (Ptr s (so + i)) h = Inr (ss ! (so + i))"
    using Suc.prems(1,3) by (simp add: load_Ptr)
  with st show ?case
    using Suc.prems Suc.IH [of "upd_block d (blit ds dofs (take (Suc i) (drop so ss))) h" "Suc i"]
    by (simp del: load.simps store.simps)
qed

lemma c_u_str_copy_n_range:
  assumes "blocks h s = Some ss" "blocks h d = Some ds" "s \<noteq> d"
    and "i + unat n \<le> length ss" "j + unat n \<le> length ds" "n \<le> room"
  shows "c_u_str_copy_n (Ptr s i) n (Ptr d j) room h =
     Inr (0, upd_block d (blit ds j (take (unat n) (drop i ss))) h)"
  using assms copy_loop_blit [of h s ss d i 0 "unat n" ds j]
  by (simp add: c_u_str_copy_n_def not_less)

interpretation cpy: block_copier c_u_str_copy_n
  by unfold_locales (rule c_u_str_copy_n_range)

lemma c_u_str_copy_n_guards:
  "c_u_str_copy_n Null n dst room h = Inr (- 1, h)"
  "src \<noteq> Null \<Longrightarrow> c_u_str_copy_n src n Null room h = Inr (- 2, h)"
  "src \<noteq> Null \<Longrightarrow> dst \<noteq> Null \<Longrightarrow> room < n \<Longrightarrow> c_u_str_copy_n src n dst room h = Inr (- 3, h)"
  by (simp_all add: c_u_str_copy_n_def)

lemma c_u_str_copy_n_zero:
  "src \<noteq> Null \<Longrightarrow> dst \<noteq> Null \<Longrightarrow> c_u_str_copy_n src 0 dst room h = Inr (0, h)"
  by (simp add: c_u_str_copy_n_def)

section \<open>The search\<close>

lemma match_loop_correct:
  assumes "s + i < length t \<or> i = p_len" "s + p_len \<le> length t" "p_len \<le> length p" "i < p_len"
  shows "match_loop p p_len t s i =
     Inr (take (p_len - i) (drop (s + i) t) = take (p_len - i) (drop i p))"
  using assms
proof (induction "p_len - i" arbitrary: i)
  case 0
  then show ?case by simp
next
  case (Suc k)
  have t: "drop (s + i) t = t ! (s + i) # drop (s + Suc i) t"
    using Suc.prems by (simp add: Cons_nth_drop_Suc)
  have p: "drop i p = p ! i # drop (Suc i) p"
    using Suc.prems by (simp add: Cons_nth_drop_Suc)
  have d: "p_len - i = Suc (p_len - Suc i)" using Suc.prems by simp
  show ?case
  proof (cases "i = p_len - 1")
    case True
    with Suc.prems(4) have "p_len = Suc i" by simp
    with Suc.prems show ?thesis by (subst match_loop.simps) (simp add: byte_at_def t p)
  next
    case False
    with Suc.prems Suc.hyps(1) [of "Suc i"] Suc.hyps(2)
    have "match_loop p p_len t s (Suc i) =
        Inr (take (p_len - Suc i) (drop (s + Suc i) t) = take (p_len - Suc i) (drop (Suc i) p))"
      by simp
    with False Suc.prems show ?thesis
      by (subst match_loop.simps) (simp add: byte_at_def t p d)
  qed
qed

lemma match_loop_prefix:
  assumes "s + p_len \<le> length t" "p_len \<le> length p" "0 < p_len"
  shows "match_loop p p_len t s 0 = Inr (prefix (take p_len p) (drop s t))"
proof -
  have "take p_len (drop s t) = take p_len p \<longleftrightarrow> prefix (take p_len p) (drop s t)"
    using assms by (auto simp: prefix_def) (metis append_take_drop_id)
  with assms show ?thesis by (subst match_loop_correct) auto
qed

text \<open>
  The search, with the last position to try given by the text length.
\<close>

lemma search_loop_first_occ:
  assumes "0 < p_len" "p_len \<le> length p" "t_len \<le> length t" "t_len < 2 ^ 63" "p_len \<le> t_len"
    "s \<le> Suc (t_len - p_len)"
  shows "search_loop p p_len t (t_len - p_len) s =
     Inr (case first_occ (take p_len p) (drop s (take t_len t)) of
            None \<Rightarrow> - 1 | Some k \<Rightarrow> int (s + k))"
  using assms(6)
proof (induction "Suc (t_len - p_len) - s" arbitrary: s)
  case 0
  then have s: "s = Suc (t_len - p_len)" by simp
  have "first_occ (take p_len p) (drop s (take t_len t)) = None"
  proof (rule ccontr)
    assume "first_occ (take p_len p) (drop s (take t_len t)) \<noteq> None"
    then obtain k where "first_occ (take p_len p) (drop s (take t_len t)) = Some k" by auto
    from first_occ_bound [OF this] s assms show False by simp
  qed
  with s show ?case by (subst search_loop.simps) simp
next
  case (Suc m)
  then have le: "s \<le> t_len - p_len" by simp
  define w where "w = drop s (take t_len t)"
  have wlen: "p_len \<le> length w" using le assms by (simp add: w_def)
  then obtain x ws where w: "w = x # ws" using assms(1) by (cases w) auto
  then have ws: "ws = drop (Suc s) (take t_len t)"
    by (simp add: w_def drop_Suc tl_drop [symmetric] flip: w_def)
  have pre: "prefix (take p_len p) (drop s t) \<longleftrightarrow> prefix (take p_len p) w"
  proof -
    have "take p_len (drop s t) = take p_len w" using le assms by (simp add: w_def drop_take)
    moreover have "prefix q z \<longleftrightarrow> take (length q) z = q" for q z :: "byte list"
      by (auto simp: prefix_def) (metis append_take_drop_id)
    ultimately show ?thesis using assms by (simp add: min_absorb2)
  qed
  have mt: "match_loop p p_len t s 0 = Inr (prefix (take p_len p) w)"
    using le assms pre by (subst match_loop_prefix) auto
  have s63: "s < 2 ^ 63" using le assms by linarith
  then have us: "unat (word_of_nat s :: size_t) = s" by (simp add: unat_of_nat)
  have sv: "sint (word_of_nat s :: size_t) = int s" using sint_small us s63 by metis
  have p_ne: "take p_len p \<noteq> []" using assms by auto
  show ?case
  proof (cases "prefix (take p_len p) w")
    case True
    with le mt sv show ?thesis by (subst search_loop.simps) (simp add: w flip: w_def)
  next
    case False
    have IH: "search_loop p p_len t (t_len - p_len) (Suc s) =
        Inr (case first_occ (take p_len p) ws of None \<Rightarrow> - 1 | Some k \<Rightarrow> int (Suc s + k))"
      unfolding ws using Suc.hyps(1) [of "Suc s"] Suc.hyps(2) le by simp
    from False le mt s63 show ?thesis
      by (subst search_loop.simps) (simp add: IH w split: option.splits flip: w_def)
  qed
qed

lemma c_u_str_find_pattern_first:
  assumes "0 < unat p_len" "unat p_len \<le> unat t_len" "unat p_len \<le> length p"
    "unat t_len \<le> length t" "unat t_len < 2 ^ 63"
  shows "c_u_str_find_pattern (Some p) p_len (Some t) t_len =
     Inr (case first_occ (take (unat p_len) p) (take (unat t_len) t) of
            None \<Rightarrow> - 1 | Some k \<Rightarrow> int k)"
proof -
  have "unat (t_len - p_len) = unat t_len - unat p_len"
    using assms(2) by (simp add: unat_sub word_le_nat_alt)
  then show ?thesis
    using assms search_loop_first_occ [of "unat p_len" p "unat t_len" t 0]
    by (simp add: c_u_str_find_pattern_def split: option.splits)
qed

lemma search_loop_in_object:
  assumes "0 < p_len" "p_len \<le> length p" "first_occ (take p_len p) t = Some k" "k \<le> lim"
    "k < 2 ^ 63" "s \<le> k"
  shows "search_loop p p_len t lim s = Inr (int k)"
  using assms(6)
proof (induction "k - s" arbitrary: s)
  case 0
  then have s: "s = k" by simp
  have "k + p_len \<le> length t" using first_occ_bound [OF assms(3)] assms(2) by simp
  then have "match_loop p p_len t k 0 = Inr True"
    using match_loop_prefix [of k p_len t p] first_occ_SomeD [OF assms(3)] assms(1,2) by simp
  moreover have "sint (word_of_nat k :: size_t) = int k"
    using sint_small [of "word_of_nat k"] assms(5) by (simp add: unat_of_nat)
  ultimately show ?case using s assms(4) by (subst search_loop.simps) simp
next
  case (Suc m)
  then have "s < k" by simp
  moreover have "k + p_len \<le> length t" using first_occ_bound [OF assms(3)] assms(2) by simp
  ultimately have "match_loop p p_len t s 0 = Inr False"
    using match_loop_prefix [of s p_len t p] first_occ_SomeD [OF assms(3)] assms(1,2) by simp
  with Suc assms(4,5) \<open>s < k\<close> show ?case by (subst search_loop.simps) simp
qed

lemma c_u_str_find_pattern_in_object:
  assumes "0 < unat p_len" "unat p_len \<le> length p" "unat t_len < 2 ^ 63"
    "first_occ (take (unat p_len) p) t = Some k" "k + unat p_len \<le> unat t_len"
  shows "c_u_str_find_pattern (Some p) p_len (Some t) t_len = Inr (int k)"
proof -
  have "unat (t_len - p_len) = unat t_len - unat p_len"
    using assms(5) by (simp add: unat_sub word_le_nat_alt)
  then show ?thesis
    using assms search_loop_in_object [of "unat p_len" p t k "unat t_len - unat p_len" 0]
    by (simp add: c_u_str_find_pattern_def)
qed

interpretation fnd: pattern_finder c_u_str_find_pattern
  by unfold_locales (rule c_u_str_find_pattern_first c_u_str_find_pattern_in_object; assumption)+

text \<open>
  A match is reported only inside the object, whatever the lengths passed; a position where
  the pattern is not in the object is left either by a mismatch or by a read past its end.
\<close>

lemma match_loop_True_prefix:
  assumes "match_loop p p_len t s i = Inr True" "p_len \<le> length p"
  shows "i < p_len \<and> s + p_len \<le> length t \<and>
     take (p_len - i) (drop (s + i) t) = take (p_len - i) (drop i p)"
  using assms
proof (induction p p_len t s i rule: match_loop.induct)
  case (1 p p_len t s i)
  from "1.prems"(1) have i: "i < p_len" and st: "s + i < length t" and eq: "t ! (s + i) = p ! i"
    by (subst (asm) match_loop.simps, auto simp: byte_at_def bindE_eq_Inr split: if_splits)+
  have t: "drop (s + i) t = t ! (s + i) # drop (s + Suc i) t"
    using st by (simp add: Cons_nth_drop_Suc)
  have p: "drop i p = p ! i # drop (Suc i) p"
    using i "1.prems"(2) by (simp add: Cons_nth_drop_Suc)
  have d: "p_len - i = Suc (p_len - Suc i)" using i by simp
  show ?case
  proof (cases "i = p_len - 1")
    case True
    with i have "p_len = Suc i" by simp
    with st eq show ?thesis by (simp add: t p)
  next
    case False
    have "match_loop p p_len t s (Suc i) = Inr True"
      using "1.prems" False i st eq by (subst (asm) match_loop.simps) (simp add: byte_at_def)
    from "1.IH" [OF i _ _ _ False this "1.prems"(2)] st i eq "1.prems"(2) show ?thesis
      by (simp add: byte_at_def t p d)
  qed
qed

lemma match_loop_outcomes:
  "p_len \<le> length p \<Longrightarrow> match_loop p p_len t s i \<in> {Inr True, Inr False, Inl (UB OutOfBounds)}"
proof (induction p p_len t s i rule: match_loop.induct)
  case (1 p p_len t s i)
  then show ?case by (subst match_loop.simps) (auto simp: byte_at_def)
qed

lemma search_loop_runs_off:
  assumes "0 < p_len" "p_len \<le> length p" "length t \<le> lim" "length t < 2 ^ 64 - 1"
    and "\<And>j. \<not> prefix (take p_len p) (drop j t)" and "s \<le> length t"
  shows "search_loop p p_len t lim s = Inl (UB OutOfBounds)"
  using assms(6)
proof (induction "length t - s" arbitrary: s)
  case 0
  with assms(1,3) show ?case
    by (subst search_loop.simps) (subst match_loop.simps, simp add: byte_at_def)
next
  case (Suc m)
  have "match_loop p p_len t s 0 \<noteq> Inr True"
  proof
    assume "match_loop p p_len t s 0 = Inr True"
    from match_loop_True_prefix [OF this assms(2)]
    have "take p_len (drop s t) = take p_len p" by simp
    then have "prefix (take p_len p) (drop s t)" by (metis take_is_prefix)
    with assms(5) show False by blast
  qed
  then consider "match_loop p p_len t s 0 = Inr False"
    | "match_loop p p_len t s 0 = Inl (UB OutOfBounds)"
    using match_loop_outcomes [OF assms(2), of t s 0] by blast
  then show ?case
  proof cases
    case 1
    with Suc assms(3,4) show ?thesis by (subst search_loop.simps) simp
  next
    case 2
    with Suc assms(3) show ?thesis by (subst search_loop.simps) simp
  qed
qed

lemma find_pattern_wrapped_limit:
  assumes "unat (t_len :: size_t) < unat p_len"
  shows "unat (t_len - p_len) = 2 ^ 64 + unat t_len - unat p_len"
  using assms by (simp add: unat_sub_if_size word_size)

section \<open>Properties\<close>

text \<open>
  C15. The pattern search returns the index of the first occurrence of a non-empty pattern in
  the text, and -1 exactly when there is none, whenever both buffers hold the lengths passed
  and the text is at least as long as the pattern.
\<close>

theorem c_u_str_find_pattern_spec:
  assumes "0 < unat p_len" "unat p_len \<le> unat t_len" "unat p_len \<le> length p"
    "unat t_len \<le> length t" "unat t_len < 2 ^ 63"
  shows "\<exists>r. c_u_str_find_pattern (Some p) p_len (Some t) t_len = Inr r \<and>
     (let pat = take (unat p_len) p; txt = take (unat t_len) t in
      (r = - 1 \<and> (\<forall>j. \<not> prefix pat (drop j txt))) \<or>
      (0 \<le> r \<and> prefix pat (drop (nat r) txt) \<and> (\<forall>j < nat r. \<not> prefix pat (drop j txt))))"
proof (cases "first_occ (take (unat p_len) p) (take (unat t_len) t)")
  case None
  with fnd.find_first [OF assms] first_occ_NoneD [OF None] show ?thesis by (simp add: Let_def)
next
  case (Some k)
  with fnd.find_first [OF assms] first_occ_SomeD [OF Some] show ?thesis by (simp add: Let_def)
qed

theorem c_u_str_find_pattern_spec_witness:
  "\<exists>r. c_u_str_find_pattern (Some ''ab'') 2 (Some ''xxabab'') 6 = Inr r \<and>
     (let pat = take (unat (2 :: size_t)) ''ab''; txt = take (unat (6 :: size_t)) ''xxabab'' in
      (r = - 1 \<and> (\<forall>j. \<not> prefix pat (drop j txt))) \<or>
      (0 \<le> r \<and> prefix pat (drop (nat r) txt) \<and> (\<forall>j < nat r. \<not> prefix pat (drop j txt))))"
  by (rule c_u_str_find_pattern_spec) simp_all

text \<open>
  When the text is shorter than the pattern, the bound \<open>t_len - p_len\<close> wraps around and the
  search runs off the end of the text's object: unless the object happens to hold the pattern,
  the call is undefined behaviour and not the documented -1.
\<close>

theorem c_u_str_find_pattern_short_text:
  assumes "unat t_len < unat p_len" "unat p_len \<le> length p"
    "length t + unat p_len < 2 ^ 64" "first_occ (take (unat p_len) p) t = None"
  shows "c_u_str_find_pattern (Some p) p_len (Some t) t_len = Inl (UB OutOfBounds)"
proof -
  have "length t \<le> unat (t_len - p_len)"
    using assms(1,3) by (simp add: find_pattern_wrapped_limit)
  moreover have "\<not> prefix (take (unat p_len) p) (drop j t)" for j
    using first_occ_NoneD [OF assms(4)] .
  ultimately show ?thesis
    using assms(1-3) by (simp add: c_u_str_find_pattern_def search_loop_runs_off)
qed

theorem c_u_str_find_pattern_short_text_witness:
  "c_u_str_find_pattern (Some [CR, LF, CR, LF]) 4 (Some ''GET'') 3 = Inl (UB OutOfBounds)"
  by (rule c_u_str_find_pattern_short_text) (simp_all add: CR_def LF_def)

text \<open>
  A copy of \<open>n\<close> bytes between ranges of two different blocks puts exactly those bytes into
  the destination range; the rest of that block, every other block and the allocator's state are
  as before.
\<close>

theorem c_u_str_copy_n_spec:
  assumes "blocks h s = Some ss" "blocks h d = Some ds" "s \<noteq> d"
    "i + unat n \<le> length ss" "j + unat n \<le> length ds" "n \<le> room"
  shows "\<exists>h1 ds1. c_u_str_copy_n (Ptr s i) n (Ptr d j) room h = Inr (0, h1) \<and>
     blocks h1 d = Some ds1 \<and> length ds1 = length ds \<and>
     take (unat n) (drop j ds1) = take (unat n) (drop i ss) \<and>
     (\<forall>k. k < j \<or> j + unat n \<le> k \<longrightarrow> k < length ds \<longrightarrow> ds1 ! k = ds ! k) \<and>
     (\<forall>b. b \<noteq> d \<longrightarrow> blocks h1 b = blocks h b) \<and> next_blk h1 = next_blk h"
proof -
  let ?x = "take (unat n) (drop i ss)"
  have "length ?x = unat n" using assms(4) by simp
  with assms show ?thesis
    by (auto simp: cpy.copy_range blit_def nth_append min_def)
qed

theorem c_u_str_copy_n_spec_witness:
  "\<exists>h1 ds1. c_u_str_copy_n (Ptr 0 0) 5 (Ptr 1 5) 5
       \<lparr>blocks = [0 \<mapsto> ''perro'', 1 \<mapsto> ''hola 12345''], next_blk = 2, allocs = [],
        junk = (\<lambda>_ _. NUL)\<rparr> = Inr (0, h1) \<and>
     blocks h1 1 = Some ds1 \<and> length ds1 = length ''hola 12345'' \<and>
     take (unat (5 :: size_t)) (drop 5 ds1) = take (unat (5 :: size_t)) (drop 0 ''perro'')"
  using c_u_str_copy_n_spec [of "\<lparr>blocks = [0 \<mapsto> ''perro'', 1 \<mapsto> ''hola 12345''], next_blk = 2,
    allocs = [], junk = (\<lambda>_ _. NUL)\<rparr>" 0 "''perro''" 1 "''hola 12345''" 0 5 5 5]
  by auto

end
