(* ===== verification/C_Utils_Buffer.thy ===== *)
theory C_Utils_Buffer
  imports C_Utils_Str
begin

text \<open>
  src/src/utils/c_utils_buffer.c and c_utils_buffer.h: the resizable byte buffer
  \<open>CmonBuffer\<close> and the non-owning \<open>CmonBufferView\<close>. Structures live on the heap beside the byte
  blocks (\<open>cbufs\<close>), a \<open>CmonBuffer *\<close> is \<open>None\<close> (\<open>NULL\<close>) or an address, and every operation
  takes and returns the whole heap. \<open>errno\<close> is not modelled.

  The abstract buffer is its contents, the first \<open>len\<close> bytes of its block; the refinement
  lemmas say what each operation does to them.
\<close>

section \<open>Structures\<close>

record CmonBuffer =
  b_cap :: size_t
  b_len :: size_t
  b_avl :: size_t
  b_buf :: ptr

record CmonBufferView =
  v_len :: size_t
  v_buf :: ptr

record bheap = heap +
  cbufs :: "nat \<Rightarrow> CmonBuffer option"

type_synonym buf_ptr = "nat option"

definition C_U_BUFFER_INITIAL_EXTRA_SPACE :: size_t where
  "C_U_BUFFER_INITIAL_EXTRA_SPACE = 20"

definition C_U_BUFFER_VIEW_END :: int where
  "C_U_BUFFER_VIEW_END = - 1"

definition deref :: "buf_ptr \<Rightarrow> 'z bheap_scheme \<Rightarrow> CmonBuffer res" where
  "deref p h = (case p of
      None \<Rightarrow> Inl (UB NullDeref)
    | Some a \<Rightarrow> (case cbufs h a of None \<Rightarrow> Inl (UB UseAfterFree) | Some r \<Rightarrow> Inr r))"

definition set_cbuf :: "nat \<Rightarrow> CmonBuffer \<Rightarrow> 'z bheap_scheme \<Rightarrow> 'z bheap_scheme" where
  "set_cbuf a r h = h\<lparr>cbufs := (cbufs h)(a \<mapsto> r)\<rparr>"

text \<open>\<open>malloc(sizeof(CmonBuffer))\<close>, the fields written at once by the caller.\<close>

definition new_cbuf :: "CmonBuffer \<Rightarrow> 'z bheap_scheme \<Rightarrow> buf_ptr \<times> 'z bheap_scheme" where
  "new_cbuf r h = (case next_event h of (e, h1) \<Rightarrow>
     if e = Fail then (None, h1)
     else (Some (next_blk h1), set_cbuf (next_blk h1) r (h1\<lparr>next_blk := Suc (next_blk h1)\<rparr>)))"

section \<open>Creation and release\<close>

definition c_u_buffer_empty :: "size_t \<Rightarrow> 'z bheap_scheme \<Rightarrow> (buf_ptr \<times> 'z bheap_scheme) res" where
  "c_u_buffer_empty cap h = (case malloc (unat cap) h of (p, h1) \<Rightarrow>
     if p = Null then Inr (None, h1)
     else (case new_cbuf \<lparr>b_cap = cap, b_len = 0, b_avl = cap, b_buf = p\<rparr> h1 of (s, h2) \<Rightarrow>
       (case s of
          None \<Rightarrow> bindE (c_free p h2) (\<lambda>h3. Inr (None, h3))
        | Some a \<Rightarrow> Inr (Some a, h2))))"

text \<open>
  \<open>strncpy\<close>: copies up to and including the first NUL of the source and fills the rest of
  the \<open>n\<close> bytes with NULs.
\<close>

fun strncpy_loop :: "ptr \<Rightarrow> ptr \<Rightarrow> bool \<Rightarrow> nat \<Rightarrow> nat \<Rightarrow> 'z heap_scheme \<Rightarrow> 'z heap_scheme res" where
  "strncpy_loop dst src ended i 0 h = Inr h"
| "strncpy_loop dst src ended i (Suc k) h =
     (if ended
      then bindE (store (ptr_add dst i) NUL h) (\<lambda>h1. strncpy_loop dst src True (Suc i) k h1)
      else bindE (load (ptr_add src i) h) (\<lambda>c.
           bindE (store (ptr_add dst i) c h) (\<lambda>h1.
           strncpy_loop dst src (c = NUL) (Suc i) k h1)))"

definition strncpy :: "ptr \<Rightarrow> ptr \<Rightarrow> size_t \<Rightarrow> 'z heap_scheme \<Rightarrow> 'z heap_scheme res" where
  "strncpy dst src n h = strncpy_loop dst src False 0 (unat n) h"

definition c_u_buffer_new ::
    "ptr \<Rightarrow> size_t \<Rightarrow> 'z bheap_scheme \<Rightarrow> (buf_ptr \<times> 'z bheap_scheme) res" where
  "c_u_buffer_new src len h =
     (if src = Null then Inr (None, h)
      else bindE (c_u_buffer_empty (len + C_U_BUFFER_INITIAL_EXTRA_SPACE) h) (\<lambda>(c_buf, h1).
           bindE (deref c_buf h1) (\<lambda>r.
           bindE (strncpy (b_buf r) src len h1) (\<lambda>h2.
           Inr (c_buf, set_cbuf (the c_buf) (r\<lparr>b_len := len, b_avl := b_avl r - len\<rparr>) h2)))))"

definition c_u_buffer_free :: "buf_ptr \<Rightarrow> 'z bheap_scheme \<Rightarrow> 'z bheap_scheme res" where
  "c_u_buffer_free p h = (case p of
      None \<Rightarrow> Inr h
    | Some a \<Rightarrow> bindE (deref p h) (\<lambda>r.
        bindE (if b_buf r \<noteq> Null then c_free (b_buf r) h else Inr h) (\<lambda>h1.
        Inr (h1\<lparr>cbufs := (cbufs h1)(a := None)\<rparr>))))"

text \<open>\<open>c_u_buffer_print\<close>: the characters put to standard output, a NUL shown as a bar.\<close>

fun print_buf_loop :: "ptr \<Rightarrow> nat \<Rightarrow> nat \<Rightarrow> 'z heap_scheme \<Rightarrow> byte list res" where
  "print_buf_loop p i 0 h = Inr []"
| "print_buf_loop p i (Suc k) h =
     bindE (load (ptr_add p i) h) (\<lambda>c.
     bindE (print_buf_loop p (Suc i) k h) (\<lambda>cs.
     Inr ((if c = NUL then CHR ''|'' else c) # cs)))"

definition c_u_buffer_print :: "buf_ptr \<Rightarrow> 'z bheap_scheme \<Rightarrow> byte list res" where
  "c_u_buffer_print p h = (case p of
      None \<Rightarrow> Inr []
    | Some a \<Rightarrow> bindE (deref p h) (\<lambda>r. print_buf_loop (b_buf r) 0 (unat (b_len r)) h))"

section \<open>Views\<close>

text \<open>
  The view's own structure is returned by value; its allocation takes one event of the
  allocator. \<open>len\<close> is a \<open>ssize_t\<close> added to a \<open>size_t\<close>, so -1 counts as the largest \<open>size_t\<close>.
\<close>

definition c_u_view_buffer_new ::
    "ptr \<Rightarrow> size_t \<Rightarrow> size_t \<Rightarrow> int \<Rightarrow> 'z heap_scheme \<Rightarrow> CmonBufferView option \<times> 'z heap_scheme" where
  "c_u_view_buffer_new buf sz start len h =
     (if buf = Null then (None, h)
      else if sz < word_of_int len + start then (None, h)
      else (case next_event h of (e, h1) \<Rightarrow>
        if e = Fail then (None, h1)
        else (let len1 = (if len = C_U_BUFFER_VIEW_END then sint (sz - start) else len) in
          (Some \<lparr>v_len = word_of_int len1, v_buf = ptr_add buf (unat start)\<rparr>, h1))))"

section \<open>Shifting and inserting\<close>

text \<open>
  The in-place loop of both operations: for \<open>i\<close> from \<open>1\<close>, byte \<open>len - i\<close> moves \<open>n\<close> places up.
  \<open>k\<close> is the number of iterations left.
\<close>

fun move_up_loop :: "ptr \<Rightarrow> nat \<Rightarrow> nat \<Rightarrow> nat \<Rightarrow> nat \<Rightarrow> 'z heap_scheme \<Rightarrow> 'z heap_scheme res" where
  "move_up_loop p len n i 0 h = Inr h"
| "move_up_loop p len n i (Suc k) h =
     bindE (load (ptr_add p (len - i)) h) (\<lambda>c.
     bindE (store (ptr_add p (len - i + n)) c h) (\<lambda>h1.
     move_up_loop p len n (Suc i) k h1))"

text \<open>
  The copying loop of \<open>c_u_buffer_shift_from\<close> over its components, \<open>i\<close> their index, \<open>p\<close> and
  \<open>len\<close> the running \<open>new_buf_p\<close> and \<open>buf->len\<close>; the return code of the copy is not looked at.
\<close>

fun shift_components ::
    "nat \<Rightarrow> CmonBufferView list \<Rightarrow> size_t \<Rightarrow> ptr \<Rightarrow> size_t \<Rightarrow> size_t \<Rightarrow> 'z heap_scheme
     \<Rightarrow> (size_t \<times> 'z heap_scheme) res" where
  "shift_components i [] n p cap len h = Inr (len, h)"
| "shift_components i (c # cs) n p cap len h =
     bindE (c_u_str_copy_n (v_buf c) (v_len c) (ptr_add p (unat (n * word_of_nat i))) (cap - len) h)
       (\<lambda>(rc, h1). shift_components (Suc i) cs n
          (ptr_add p (unat (v_len c + n * word_of_nat i))) cap (len + (v_len c + n * word_of_nat i)) h1)"

definition c_u_buffer_shift_from ::
    "buf_ptr \<Rightarrow> size_t \<Rightarrow> size_t \<Rightarrow> 'z bheap_scheme \<Rightarrow> (int \<times> 'z bheap_scheme) res" where
  "c_u_buffer_shift_from p index n h = (case p of
      None \<Rightarrow> Inr (- 1, h)
    | Some a \<Rightarrow> bindE (deref p h) (\<lambda>r.
        if index \<ge> b_len r then Inr (- 2, h)
        else if b_cap r - b_len r < n then
          (let new_cap = b_len r + n + C_U_BUFFER_INITIAL_EXTRA_SPACE;
               cs = [\<lparr>v_len = index, v_buf = b_buf r\<rparr>,
                     \<lparr>v_len = b_len r - index, v_buf = ptr_add (b_buf r) (unat index)\<rparr>]
           in case calloc (unat new_cap) h of (new_buf, h1) \<Rightarrow>
             if new_buf = Null then Inr (- 3, h1)
             else bindE (shift_components 0 cs n new_buf new_cap 0 h1) (\<lambda>(len1, h2).
                  bindE (c_free (b_buf r) h2) (\<lambda>h3.
                  Inr (0, set_cbuf a \<lparr>b_cap = new_cap, b_len = len1, b_avl = new_cap - len1,
                                      b_buf = new_buf\<rparr> h3))))
        else
          bindE (move_up_loop (b_buf r) (unat (b_len r)) (unat n) 1 (unat (b_len r - index)) h) (\<lambda>h1.
          Inr (0, set_cbuf a (r\<lparr>b_len := b_len r + n, b_avl := b_cap r - (b_len r + n)\<rparr>) h1))))"

text \<open>The same loop in \<open>c_u_buffer_insert_at\<close>, which leaves no gap.\<close>

fun insert_components ::
    "CmonBufferView list \<Rightarrow> ptr \<Rightarrow> size_t \<Rightarrow> size_t \<Rightarrow> 'z heap_scheme \<Rightarrow> (size_t \<times> 'z heap_scheme) res" where
  "insert_components [] p cap len h = Inr (len, h)"
| "insert_components (c # cs) p cap len h =
     bindE (c_u_str_copy_n (v_buf c) (v_len c) p (cap - len) h) (\<lambda>(rc, h1).
     insert_components cs (ptr_add p (unat (v_len c))) cap (len + v_len c) h1)"

definition c_u_buffer_insert_at ::
    "buf_ptr \<Rightarrow> ptr \<Rightarrow> size_t \<Rightarrow> size_t \<Rightarrow> 'z bheap_scheme \<Rightarrow> (int \<times> 'z bheap_scheme) res" where
  "c_u_buffer_insert_at p src src_len index h = (case p of
      None \<Rightarrow> Inr (- 1, h)
    | Some a \<Rightarrow> if src = Null then Inr (- 1, h) else
        bindE (deref p h) (\<lambda>r.
        if index > b_len r then Inr (- 2, h)
        else if b_len r + src_len > b_cap r then
          (let new_cap = b_len r + src_len + C_U_BUFFER_INITIAL_EXTRA_SPACE;
               cs = [\<lparr>v_len = index, v_buf = b_buf r\<rparr>,
                     \<lparr>v_len = src_len, v_buf = src\<rparr>,
                     \<lparr>v_len = b_len r - index, v_buf = ptr_add (b_buf r) (unat index)\<rparr>]
           in case malloc (unat new_cap) h of (new_buf, h1) \<Rightarrow>
             bindE (insert_components cs new_buf new_cap 0 h1) (\<lambda>(len1, h2).
             bindE (c_free (b_buf r) h2) (\<lambda>h3.
             Inr (0, set_cbuf a (r\<lparr>b_cap := new_cap, b_len := len1, b_buf := new_buf\<rparr>) h3))))
        else
          bindE (move_up_loop (b_buf r) (unat (b_len r)) (unat src_len) 1
                   (unat (b_len r - index)) h) (\<lambda>h1.
          bindE (c_u_str_copy_n src src_len (ptr_add (b_buf r) (unat index))
                   (b_len r + src_len) h1) (\<lambda>(rc, h2).
          Inr (0, set_cbuf a (r\<lparr>b_len := b_len r + src_len\<rparr>) h2)))))"

text \<open>The macro \<open>c_u_buffer_append\<close>: an insertion at the current length.\<close>

definition c_u_buffer_append ::
    "buf_ptr \<Rightarrow> ptr \<Rightarrow> size_t \<Rightarrow> 'z bheap_scheme \<Rightarrow> (int \<times> 'z bheap_scheme) res" where
  "c_u_buffer_append p payload payload_len h =
     bindE (deref p h) (\<lambda>r. c_u_buffer_insert_at p payload payload_len (b_len r) h)"

section \<open>Copy, length, capacity\<close>

text \<open>
  \<open>c_u_buffer_copy\<close> has no statement after its two checks: beyond them it changes nothing and
  its return value is indeterminate (\<open>None\<close>).
\<close>

definition c_u_buffer_copy ::
    "buf_ptr \<Rightarrow> ptr \<Rightarrow> size_t \<Rightarrow> 'z bheap_scheme \<Rightarrow> int option \<times> 'z bheap_scheme" where
  "c_u_buffer_copy p payload p_len h =
     (if p = None \<or> payload = Null then (Some (- 1), h)
      else if p_len = 0 then (Some (- 2), h)
      else (None, h))"

definition c_u_buffer_set_len ::
    "buf_ptr \<Rightarrow> size_t \<Rightarrow> 'z bheap_scheme \<Rightarrow> (int \<times> 'z bheap_scheme) res" where
  "c_u_buffer_set_len p new_len h = (case p of
      None \<Rightarrow> Inr (- 1, h)
    | Some a \<Rightarrow> bindE (deref p h) (\<lambda>r.
        if b_cap r < new_len then Inr (- 1, h)
        else Inr (sint (b_len r), set_cbuf a (r\<lparr>b_len := new_len\<rparr>) h)))"

definition c_u_buffer_set_capacity ::
    "buf_ptr \<Rightarrow> size_t \<Rightarrow> 'z bheap_scheme \<Rightarrow> (int \<times> 'z bheap_scheme) res" where
  "c_u_buffer_set_capacity p min_cap h = (case p of
      None \<Rightarrow> Inr (- 1, h)
    | Some a \<Rightarrow> bindE (deref p h) (\<lambda>r.
        if min_cap \<le> b_cap r then Inr (0, h)
        else bindE (realloc (b_buf r) (unat min_cap) h) (\<lambda>(new_buf, h1).
          if new_buf = Null then Inr (- 2, h1)
          else bindE (c_free (b_buf r) h1) (\<lambda>h2.
               Inr (0, set_cbuf a (r\<lparr>b_buf := new_buf, b_cap := min_cap\<rparr>) h2)))))"

section \<open>The abstract buffer\<close>

text \<open>
  A buffer is well formed when its structure is live, its data pointer is the start of a live
  block of \<open>cap\<close> bytes, and \<open>len\<close> does not exceed \<open>cap\<close>. Its contents are the first \<open>len\<close>
  bytes of the block.
\<close>

definition buf_block :: "'z bheap_scheme \<Rightarrow> nat \<Rightarrow> nat option" where
  "buf_block h a = (case cbufs h a of
      None \<Rightarrow> None
    | Some r \<Rightarrow> (case b_buf r of Ptr b i \<Rightarrow> if i = 0 then Some b else None | _ \<Rightarrow> None))"

definition buf_ok :: "'z bheap_scheme \<Rightarrow> nat \<Rightarrow> bool" where
  "buf_ok h a = (case (cbufs h a, buf_block h a) of
      (Some r, Some b) \<Rightarrow> (case blocks h b of
          Some bs \<Rightarrow> length bs = unat (b_cap r) \<and> b_len r \<le> b_cap r
        | None \<Rightarrow> False)
    | _ \<Rightarrow> False)"

definition contents :: "'z bheap_scheme \<Rightarrow> nat \<Rightarrow> byte list" where
  "contents h a = (case (cbufs h a, buf_block h a) of
      (Some r, Some b) \<Rightarrow> (case blocks h b of
          Some bs \<Rightarrow> take (unat (b_len r)) bs
        | None \<Rightarrow> [])
    | _ \<Rightarrow> [])"

definition avl_ok :: "'z bheap_scheme \<Rightarrow> nat \<Rightarrow> bool" where
  "avl_ok h a = (case cbufs h a of Some r \<Rightarrow> b_avl r = b_cap r - b_len r | None \<Rightarrow> False)"


section \<open>Structures and blocks\<close>

lemma bheap_more_cbufs: "heap.more h1 = heap.more h \<Longrightarrow> cbufs h1 = cbufs h"
  by (cases h; cases h1) simp

lemma cbufs_upd_block [simp, heap_simps]: "cbufs (upd_block b bs h) = cbufs h"
  by (simp add: upd_block_def)

lemma set_cbuf_fields [simp, heap_simps]:
  "blocks (set_cbuf a r h) = blocks h" "next_blk (set_cbuf a r h) = next_blk h"
  "allocs (set_cbuf a r h) = allocs h" "junk (set_cbuf a r h) = junk h"
  "cbufs (set_cbuf a r h) = (cbufs h)(a \<mapsto> r)"
  by (simp_all add: set_cbuf_def)

lemma heap_ok_set_cbuf [simp]: "heap_ok (set_cbuf a r h) = heap_ok h"
  by (simp add: heap_ok_def)

lemma deref_Some [simp]: "cbufs h a = Some r \<Longrightarrow> deref (Some a) h = Inr r"
  by (simp add: deref_def)

lemma buf_okI:
  assumes "cbufs h a = Some r" "b_buf r = Ptr b 0" "blocks h b = Some bs"
    "length bs = unat (b_cap r)" "b_len r \<le> b_cap r"
  shows "buf_ok h a" "contents h a = take (unat (b_len r)) bs" "buf_block h a = Some b"
  using assms by (simp_all add: buf_ok_def contents_def buf_block_def)

lemma buf_okE:
  assumes "buf_ok h a"
  obtains r b bs where "cbufs h a = Some r" "b_buf r = Ptr b 0" "blocks h b = Some bs"
    "length bs = unat (b_cap r)" "b_len r \<le> b_cap r" "buf_block h a = Some b"
    "contents h a = take (unat (b_len r)) bs" "unat (b_len r) \<le> length bs"
  using assms
  by (auto simp: buf_ok_def contents_def buf_block_def word_le_nat_alt
      split: option.splits ptr.splits if_splits)

lemma length_contents: "buf_ok h a \<Longrightarrow> cbufs h a = Some r \<Longrightarrow> length (contents h a) = unat (b_len r)"
  by (elim buf_okE) simp

text \<open>Where a well-formed heap puts the next block.\<close>

lemma fresh_neq: "heap_ok h \<Longrightarrow> blocks h b = Some bs \<Longrightarrow> b \<noteq> next_blk h"
  using heap_ok_fresh by blast

section \<open>Moving up in place\<close>

lemma move_up_loop_blit:
  assumes "blocks h b = Some (blit bs (len - j + n) (drop (len - j) (take len bs)))"
    "j + k \<le> len" "len + n \<le> length bs"
  shows "move_up_loop (Ptr b 0) len n (Suc j) k h =
     Inr (upd_block b (blit bs (len - (j + k) + n) (drop (len - (j + k)) (take len bs))) h)"
  using assms(1,2)
proof (induction k arbitrary: j h)
  case 0
  then show ?case by (simp add: upd_block_same)
next
  case (Suc k)
  let ?tail = "\<lambda>j. drop (len - j) (take len bs)"
  let ?cur = "blit bs (len - j + n) (?tail j)"
  have j: "len - j = Suc (len - Suc j)" using Suc.prems(2) by simp
  have lt: "length (?tail j) = j" using Suc.prems(2) assms(3) by simp
  have at: "?cur ! (len - Suc j) = bs ! (len - Suc j)"
    using Suc.prems(2) assms(3) lt by (intro nth_blit_outside) auto
  have "?tail (Suc j) = bs ! (len - Suc j) # ?tail j"
    using Suc.prems(2) assms(3) j by (simp add: Cons_nth_drop_Suc [symmetric])
  then have upd: "?cur[len - Suc j + n := bs ! (len - Suc j)] = blit bs (len - Suc j + n) (?tail (Suc j))"
    using blit_cons [of "len - Suc j + n" "?tail j" bs] lt j Suc.prems(2) assms(3) by simp
  have lc: "length ?cur = length bs" using lt Suc.prems(2) assms(3) by simp
  have ld: "load (Ptr b (len - Suc j)) h = Inr (bs ! (len - Suc j))"
    using Suc.prems lc at assms(3) by (simp add: load_Ptr del: load.simps)
  have st: "store (Ptr b (len - Suc j + n)) (bs ! (len - Suc j)) h =
      Inr (upd_block b (blit bs (len - Suc j + n) (?tail (Suc j))) h)"
    using Suc.prems lc upd assms(3) by (simp add: store_Ptr del: store.simps)
  show ?case
    using ld st Suc.prems(2) Suc.IH [of "upd_block b (blit bs (len - Suc j + n) (?tail (Suc j))) h" "Suc j"]
    by (simp del: load.simps store.simps)
qed

lemma move_up_loop_from:
  assumes "blocks h b = Some bs" "index \<le> len" "len + n \<le> length bs"
  shows "move_up_loop (Ptr b 0) len n 1 (len - index) h =
     Inr (upd_block b (blit bs (index + n) (drop index (take len bs))) h)"
  using move_up_loop_blit [of h b bs len 0 n "len - index"] assms by simp

section \<open>Assembling the pieces in a new block\<close>

lemma insert_components_three:
  assumes "blocks h nb = Some rest" "length rest = unat cap" "blocks h b = Some bs"
    "blocks h s = Some ss" "b \<noteq> nb" "s \<noteq> nb" "idx \<le> len" "unat len \<le> length bs"
    "i + unat n \<le> length ss" "unat len + unat n \<le> unat cap"
  shows "insert_components [\<lparr>v_len = idx, v_buf = Ptr b 0\<rparr>, \<lparr>v_len = n, v_buf = Ptr s i\<rparr>,
       \<lparr>v_len = len - idx, v_buf = Ptr b (unat idx)\<rparr>] (Ptr nb 0) cap 0 h =
     Inr (len + n, upd_block nb (take (unat idx) bs @ take (unat n) (drop i ss) @
       take (unat len - unat idx) (drop (unat idx) bs) @ drop (unat len + unat n) rest) h)"
proof -
  let ?p = "take (unat idx) bs" and ?q = "take (unat n) (drop i ss)"
  have idx: "unat idx \<le> unat len" using assms(7) by (simp add: word_le_nat_alt)
  have sub: "unat (len - idx) = unat len - unat idx" using assms(7) by (rule unat_sub_no_wrap)
  have lp: "length ?p = unat idx" and lq: "length ?q = unat n" using idx assms(8,9) by simp_all
  have nw: "unat (idx + n) = unat idx + unat n"
    using idx assms(10) unat_size_t_bound [of cap] by (intro unat_add_no_wrap) linarith
  have "unat (idx + n) + unat (len - idx) \<le> unat cap" using idx assms(10) sub nw by simp
  then have rooms: "idx \<le> cap" "n \<le> cap - idx" "len - idx \<le> cap - (idx + n)"
    using idx assms(10) by (auto simp: word_le_nat_alt [of idx cap] intro: room_left)
  define h1 where "h1 = upd_block nb (?p @ drop (unat idx) rest) h"
  define h2 where "h2 = upd_block nb (?p @ ?q @ drop (unat n) (drop (unat idx) rest)) h"
  have c1: "c_u_str_copy_n (Ptr b 0) idx (Ptr nb 0) cap h = Inr (0, h1)"
    using cpy.copy_piece [of h nb "[]" rest 0 b bs 0 idx cap] assms idx rooms
    by (simp add: h1_def)
  have c2: "c_u_str_copy_n (Ptr s i) n (Ptr nb (unat idx)) (cap - idx) h1 = Inr (0, h2)"
    using cpy.copy_piece [of h1 nb ?p "drop (unat idx) rest" "unat idx" s ss i n "cap - idx"]
      assms idx rooms lp by (simp add: h1_def h2_def)
  have c3: "c_u_str_copy_n (Ptr b (unat idx)) (len - idx) (Ptr nb (unat idx + unat n))
      (cap - (idx + n)) h2 = Inr (0, upd_block nb (?p @ ?q @
       take (unat len - unat idx) (drop (unat idx) bs) @ drop (unat len + unat n) rest) h)"
    using cpy.copy_piece [of h2 nb "?p @ ?q" "drop (unat n) (drop (unat idx) rest)"
      "unat idx + unat n" b bs "unat idx" "len - idx" "cap - (idx + n)"]
      assms idx rooms lp lq sub by (simp add: h2_def add_ac)
  show ?thesis using c1 c2 c3 by (simp add: ac_simps)
qed


text \<open>The shift's two pieces, with the gap of \<open>n\<close> bytes of the new block between them.\<close>

lemma shift_components_two:
  assumes "blocks h nb = Some rest" "length rest = unat cap" "blocks h b = Some bs"
    "b \<noteq> nb" "idx \<le> len" "unat len \<le> length bs" "unat len + unat n \<le> unat cap"
  shows "shift_components 0 [\<lparr>v_len = idx, v_buf = Ptr b 0\<rparr>,
       \<lparr>v_len = len - idx, v_buf = Ptr b (unat idx)\<rparr>] n (Ptr nb 0) cap 0 h =
     Inr (len + n, upd_block nb (take (unat idx) bs @ take (unat n) (drop (unat idx) rest) @
       take (unat len - unat idx) (drop (unat idx) bs) @ drop (unat len + unat n) rest) h)"
proof -
  let ?p = "take (unat idx) bs" and ?gap = "take (unat n) (drop (unat idx) rest)"
  have idx: "unat idx \<le> unat len" using assms(5) by (simp add: word_le_nat_alt)
  have sub: "unat (len - idx) = unat len - unat idx" using assms(5) by (rule unat_sub_no_wrap)
  have lp: "length ?p = unat idx" and lg: "length ?gap = unat n"
    using idx assms(2,6,7) by simp_all
  have rooms: "idx \<le> cap" "len - idx \<le> cap - idx"
    using idx assms(7) sub by (auto simp: word_le_nat_alt [of idx cap] intro: room_left)
  define h1 where "h1 = upd_block nb (?p @ drop (unat idx) rest) h"
  have c1: "c_u_str_copy_n (Ptr b 0) idx (Ptr nb 0) cap h = Inr (0, h1)"
    using cpy.copy_piece [of h nb "[]" rest 0 b bs 0 idx cap] assms idx rooms
    by (simp add: h1_def)
  have "drop (unat idx) rest = ?gap @ drop (unat n) (drop (unat idx) rest)"
    by (rule append_take_drop_id [symmetric])
  then have split: "blocks h1 nb = Some ((?p @ ?gap) @ drop (unat n) (drop (unat idx) rest))"
    by (simp add: h1_def del: append_take_drop_id)
  have c2: "c_u_str_copy_n (Ptr b (unat idx)) (len - idx) (Ptr nb (unat idx + unat n))
      (cap - idx) h1 = Inr (0, upd_block nb (?p @ ?gap @
       take (unat len - unat idx) (drop (unat idx) bs) @ drop (unat len + unat n) rest) h)"
    using cpy.copy_piece [OF split, of "unat idx + unat n" b bs "unat idx" "len - idx" "cap - idx"]
      assms idx rooms lp lg sub by (simp add: h1_def add_ac)
  show ?thesis using c1 c2 by (simp add: ac_simps)
qed

section \<open>Functional behaviour\<close>

text \<open>The allocator can serve the next request.\<close>

definition alloc_ok :: "'z heap_scheme \<Rightarrow> bool" where
  "alloc_ok h \<longleftrightarrow> fst (next_event h) \<noteq> Fail"

lemma malloc_ok:
  assumes "alloc_ok h"
  obtains h1 bs where "malloc n h = (Ptr (next_blk h) 0, h1)" "length bs = n"
      "blocks h1 = (blocks h)(next_blk h \<mapsto> bs)" "next_blk h1 = Suc (next_blk h)"
      "heap.more h1 = heap.more h"
proof (cases "next_event h")
  case (Pair e h1)
  note f = next_event_fields [OF Pair]
  from assms Pair have "e \<noteq> Fail" by (simp add: alloc_ok_def)
  with Pair f show thesis
    by (intro that [of "snd (malloc n h)" "map (junk h (next_blk h)) [0..<n]"])
      (auto simp: malloc_def new_block_def)
qed

lemma calloc_ok:
  assumes "alloc_ok h"
  obtains h1 where "calloc n h = (Ptr (next_blk h) 0, h1)"
      "blocks h1 = (blocks h)(next_blk h \<mapsto> replicate n NUL)" "next_blk h1 = Suc (next_blk h)"
      "heap.more h1 = heap.more h"
proof (cases "next_event h")
  case (Pair e h1)
  note f = next_event_fields [OF Pair]
  from assms Pair have "e \<noteq> Fail" by (simp add: alloc_ok_def)
  with Pair f show thesis
    by (intro that [of "snd (calloc n h)"]) (auto simp: calloc_def new_block_def)
qed

text \<open>What an operation on one buffer leaves alone: every other block and every other buffer.\<close>

definition only_buf :: "nat \<Rightarrow> nat \<Rightarrow> 'z bheap_scheme \<Rightarrow> 'z bheap_scheme \<Rightarrow> bool" where
  "only_buf a b h h1 \<longleftrightarrow>
     (\<forall>x. x \<noteq> b \<longrightarrow> x < next_blk h \<longrightarrow> blocks h1 x = blocks h x) \<and>
     (\<forall>x. x \<noteq> a \<longrightarrow> cbufs h1 x = cbufs h x)"


lemma insert_at_in_place:
  assumes "cbufs h a = Some r" "b_buf r = Ptr b 0" "blocks h b = Some bs"
    "length bs = unat (b_cap r)" "blocks h s = Some ss" "s \<noteq> b" "i + unat n \<le> length ss"
    "idx \<le> b_len r" "unat (b_len r) + unat n \<le> unat (b_cap r)"
  shows "c_u_buffer_insert_at (Some a) (Ptr s i) n idx h =
     Inr (0, set_cbuf a (r\<lparr>b_len := b_len r + n\<rparr>)
       (upd_block b (take (unat idx) bs @ take (unat n) (drop i ss) @
          drop (unat idx) (take (unat (b_len r)) bs) @ drop (unat (b_len r) + unat n) bs) h))"
proof -
  let ?len = "unat (b_len r)" and ?x = "take (unat n) (drop i ss)"
  let ?tail = "drop (unat idx) (take ?len bs)"
  have idx: "unat idx \<le> ?len" using assms(8) by (simp add: word_le_nat_alt)
  have nw: "unat (b_len r + n) = ?len + unat n"
    using assms(9) unat_size_t_bound [of "b_cap r"] by (intro unat_add_no_wrap) linarith
  have sub: "unat (b_len r - idx) = ?len - unat idx" using assms(8) by (rule unat_sub_no_wrap)
  define m where "m = blit bs (unat idx + unat n) ?tail"
  have tl: "length ?tail = ?len - unat idx" using idx assms(4,9) by simp
  then have lm: "length m = length bs" using idx assms(4,9) by (simp add: m_def)
  have mv: "move_up_loop (Ptr b 0) ?len (unat n) 1 (?len - unat idx) h = Inr (upd_block b m h)"
    unfolding m_def using move_up_loop_from [of h b bs "unat idx" ?len "unat n"] assms idx by simp
  have cp: "c_u_str_copy_n (Ptr s i) n (Ptr b (unat idx)) (b_len r + n) (upd_block b m h) =
      Inr (0, upd_block b (blit m (unat idx) ?x) h)"
    using cpy.copy_range [of "upd_block b m h" s ss b m i n "unat idx" "b_len r + n"]
      assms idx nw lm by (simp add: word_le_nat_alt)
  have "blit m (unat idx) ?x =
      take (unat idx) bs @ ?x @ ?tail @ drop (?len + unat n) bs"
    using idx assms(4,7,9) tl by (simp add: blit_def m_def add.commute)
  with mv cp sub nw assms show ?thesis
    by (simp add: c_u_buffer_insert_at_def word_le_nat_alt word_less_nat_alt)
qed

lemma insert_at_grows:
  assumes "heap_ok h" "alloc_ok h" "cbufs h a = Some r" "b_buf r = Ptr b 0" "blocks h b = Some bs"
    "length bs = unat (b_cap r)" "b_len r \<le> b_cap r" "blocks h s = Some ss"
    "i + unat n \<le> length ss" "idx \<le> b_len r" "unat (b_cap r) < unat (b_len r) + unat n"
    "unat (b_len r) + unat n + 20 < 2 ^ 64"
  obtains h1 rest where
    "c_u_buffer_insert_at (Some a) (Ptr s i) n idx h = Inr (0, h1)"
    "blocks h1 = (blocks h)(next_blk h \<mapsto> take (unat idx) bs @ take (unat n) (drop i ss) @
          drop (unat idx) (take (unat (b_len r)) bs) @ rest, b := None)"
    "length rest = 20"
    "cbufs h1 = (cbufs h)(a \<mapsto> r\<lparr>b_cap := b_len r + n + 20, b_len := b_len r + n,
                                  b_buf := Ptr (next_blk h) 0\<rparr>)"
    "next_blk h1 = Suc (next_blk h)"
proof -
  let ?len = "unat (b_len r)" and ?cap = "b_len r + n + 20" and ?nb = "next_blk h"
  have nw: "unat (b_len r + n) = ?len + unat n" using assms(12) by (intro unat_add_no_wrap) simp
  then have cap: "unat ?cap = ?len + unat n + 20"
    using assms(12) unat_add_no_wrap [of "b_len r + n" 20] by simp
  have idx: "unat idx \<le> ?len" using assms(10) by (simp add: word_le_nat_alt)
  have bnb: "b \<noteq> ?nb" and snb: "s \<noteq> ?nb" using fresh_neq assms(1,5,8) by blast+
  have lenb: "?len \<le> length bs" using assms(6,7) by (simp add: word_le_nat_alt)
  from malloc_ok [OF assms(2), of "unat ?cap"] obtain h1 nbs where
    m: "malloc (unat ?cap) h = (Ptr ?nb 0, h1)" "length nbs = unat ?cap"
       "blocks h1 = (blocks h)(?nb \<mapsto> nbs)" "next_blk h1 = Suc ?nb" "heap.more h1 = heap.more h" .
  have cb: "cbufs h1 = cbufs h" using m(5) by (rule bheap_more_cbufs)
  have ic: "insert_components [\<lparr>v_len = idx, v_buf = Ptr b 0\<rparr>, \<lparr>v_len = n, v_buf = Ptr s i\<rparr>,
       \<lparr>v_len = b_len r - idx, v_buf = Ptr b (unat idx)\<rparr>] (Ptr ?nb 0) ?cap 0 h1 =
     Inr (b_len r + n, upd_block ?nb (take (unat idx) bs @ take (unat n) (drop i ss) @
       take (?len - unat idx) (drop (unat idx) bs) @ drop (?len + unat n) nbs) h1)"
    using m bnb snb assms lenb cap by (intro insert_components_three) simp_all
  have big: "b_len r + n > b_cap r" using nw assms(11) by (simp add: word_less_nat_alt)
  have le: "\<not> b_len r < idx" using assms(10) by simp
  show thesis
    by (rule that [of "set_cbuf a (r\<lparr>b_cap := ?cap, b_len := b_len r + n, b_buf := Ptr ?nb 0\<rparr>)
          ((upd_block ?nb (take (unat idx) bs @ take (unat n) (drop i ss) @
             take (?len - unat idx) (drop (unat idx) bs) @ drop (?len + unat n) nbs) h1)
           \<lparr>blocks := (blocks h1)(?nb \<mapsto> take (unat idx) bs @ take (unat n) (drop i ss) @
             take (?len - unat idx) (drop (unat idx) bs) @ drop (?len + unat n) nbs, b := None)\<rparr>)"
          "drop (?len + unat n) nbs"])
      (use ic big le m cap bnb assms cb idx in
        \<open>simp_all add: c_u_buffer_insert_at_def C_U_BUFFER_INITIAL_EXTRA_SPACE_def Let_def
           drop_take upd_block_def\<close>)
qed

text \<open>Insertion refines insertion into the abstract contents, whether or not the buffer grows.\<close>

lemma insert_at_contents:
  assumes "heap_ok h" "alloc_ok h" "buf_ok h a" "cbufs h a = Some r" "blocks h s = Some ss"
    "buf_block h a \<noteq> Some s" "i + unat n \<le> length ss" "idx \<le> b_len r"
    "unat (b_len r) + unat n + 20 < 2 ^ 64"
  shows "\<exists>h1. c_u_buffer_insert_at (Some a) (Ptr s i) n idx h = Inr (0, h1) \<and> heap_ok h1 \<and>
     buf_ok h1 a \<and>
     contents h1 a = take (unat idx) (contents h a) @ take (unat n) (drop i ss) @
                     drop (unat idx) (contents h a) \<and>
     only_buf a (the (buf_block h a)) h h1"
proof -
  from assms(3,4) obtain b bs where b: "b_buf r = Ptr b 0" "blocks h b = Some bs"
    "length bs = unat (b_cap r)" "b_len r \<le> b_cap r" "buf_block h a = Some b"
    "contents h a = take (unat (b_len r)) bs" "unat (b_len r) \<le> length bs"
    by (auto elim!: buf_okE)
  let ?len = "unat (b_len r)"
  have idx: "unat idx \<le> ?len" using assms(8) by (simp add: word_le_nat_alt)
  have bnb: "b \<noteq> next_blk h" using fresh_neq assms(1) b(2) by blast
  have nw: "unat (b_len r + n) = ?len + unat n" using assms(9) by (intro unat_add_no_wrap) simp
  show ?thesis
  proof (cases "?len + unat n \<le> unat (b_cap r)")
    case True
    from b assms True
    have ins: "c_u_buffer_insert_at (Some a) (Ptr s i) n idx h =
       Inr (0, set_cbuf a (r\<lparr>b_len := b_len r + n\<rparr>)
       (upd_block b (take (unat idx) bs @ take (unat n) (drop i ss) @
          drop (unat idx) (take ?len bs) @ drop (?len + unat n) bs) h))" (is "_ = Inr (0, ?h1)")
      by (intro insert_at_in_place) auto
    have len: "b_len r + n \<le> b_cap r" using nw True by (simp add: word_le_nat_alt)
    have ok: "buf_ok ?h1 a" "contents ?h1 a = take (unat idx) (contents h a) @
        take (unat n) (drop i ss) @ drop (unat idx) (contents h a)"
      using buf_okI [of ?h1 a "r\<lparr>b_len := b_len r + n\<rparr>" b] b idx True assms(7) len nw
      by (simp_all add: min_absorb1 min_absorb2)
    have "heap_ok ?h1" using assms(1) b(2) by (simp add: heap_ok_upd_block)
    moreover have "only_buf a b h ?h1" by (simp add: only_buf_def)
    ultimately show ?thesis using ins ok b(5) by auto
  next
    case False
    with b assms have "unat (b_cap r) < ?len + unat n" by simp
    from insert_at_grows [OF assms(1,2,4) b(1-4) assms(5,7,8) this assms(9)]
    obtain h1 rest where h1: "c_u_buffer_insert_at (Some a) (Ptr s i) n idx h = Inr (0, h1)"
      "blocks h1 = (blocks h)(next_blk h \<mapsto> take (unat idx) bs @ take (unat n) (drop i ss) @
          drop (unat idx) (take ?len bs) @ rest, b := None)" "length rest = 20"
      "cbufs h1 = (cbufs h)(a \<mapsto> r\<lparr>b_cap := b_len r + n + 20, b_len := b_len r + n,
                                  b_buf := Ptr (next_blk h) 0\<rparr>)"
      "next_blk h1 = Suc (next_blk h)" .
    have cap: "unat (b_len r + n + 20) = ?len + unat n + 20"
      using nw assms(9) unat_add_no_wrap [of "b_len r + n" 20] by simp
    then have len: "b_len r + n \<le> b_len r + n + 20" using nw by (simp add: word_le_nat_alt)
    have ok: "buf_ok h1 a" "contents h1 a = take (unat idx) (contents h a) @
        take (unat n) (drop i ss) @ drop (unat idx) (contents h a)"
      using buf_okI [of h1 a "r\<lparr>b_cap := b_len r + n + 20, b_len := b_len r + n,
          b_buf := Ptr (next_blk h) 0\<rparr>" "next_blk h"] h1(2-4) b idx assms(7) len cap nw bnb
      by (simp_all add: min_absorb1 min_absorb2)
    have "heap_ok h1" using assms(1) h1(2,5) by (simp add: heap_ok_def)
    moreover have "only_buf a b h h1" using h1 by (simp add: only_buf_def)
    ultimately show ?thesis using h1(1) ok b(5) by auto
  qed
qed


text \<open>The shift, in place and grown; the gap holds NULs exactly when a new block was needed.\<close>

lemma shift_from_in_place:
  assumes "cbufs h a = Some r" "b_buf r = Ptr b 0" "blocks h b = Some bs"
    "length bs = unat (b_cap r)" "idx < b_len r" "unat (b_len r) + unat n \<le> unat (b_cap r)"
  shows "c_u_buffer_shift_from (Some a) idx n h =
     Inr (0, set_cbuf a (r\<lparr>b_len := b_len r + n, b_avl := b_cap r - (b_len r + n)\<rparr>)
       (upd_block b (take (unat idx) bs @ take (unat n) (drop (unat idx) bs) @
          drop (unat idx) (take (unat (b_len r)) bs) @ drop (unat (b_len r) + unat n) bs) h))"
proof -
  let ?len = "unat (b_len r)"
  let ?tail = "drop (unat idx) (take ?len bs)"
  have idx: "unat idx < ?len" using assms(5) by (simp add: word_less_nat_alt)
  have sub: "unat (b_len r - idx) = ?len - unat idx"
    using assms(5) by (intro unat_sub_no_wrap) simp
  have "unat (b_cap r - b_len r) = unat (b_cap r) - ?len"
    using assms(6) by (intro unat_sub_no_wrap) (simp add: word_le_nat_alt)
  then have fits: "\<not> b_cap r - b_len r < n" using assms(6) by (simp add: word_less_nat_alt)
  have mv: "move_up_loop (Ptr b 0) ?len (unat n) 1 (?len - unat idx) h =
      Inr (upd_block b (blit bs (unat idx + unat n) ?tail) h)"
    using move_up_loop_from [of h b bs "unat idx" ?len "unat n"] assms idx by simp
  have "blit bs (unat idx + unat n) ?tail = take (unat idx) bs @
      take (unat n) (drop (unat idx) bs) @ ?tail @ drop (?len + unat n) bs"
    using idx assms(4,6) by (simp add: blit_def take_add add.commute)
  with mv sub assms fits show ?thesis
    by (simp add: c_u_buffer_shift_from_def not_le)
qed

lemma shift_from_grows:
  assumes "heap_ok h" "alloc_ok h" "cbufs h a = Some r" "b_buf r = Ptr b 0" "blocks h b = Some bs"
    "length bs = unat (b_cap r)" "b_len r \<le> b_cap r" "idx < b_len r"
    "unat (b_cap r) < unat (b_len r) + unat n" "unat (b_len r) + unat n + 20 < 2 ^ 64"
  obtains h1 where "c_u_buffer_shift_from (Some a) idx n h = Inr (0, h1)"
    "blocks h1 = (blocks h)(next_blk h \<mapsto> take (unat idx) bs @ replicate (unat n) NUL @
          drop (unat idx) (take (unat (b_len r)) bs) @ replicate 20 NUL, b := None)"
    "cbufs h1 = (cbufs h)(a \<mapsto> \<lparr>b_cap = b_len r + n + 20, b_len = b_len r + n, b_avl = 20,
                                 b_buf = Ptr (next_blk h) 0\<rparr>)"
    "next_blk h1 = Suc (next_blk h)"
proof -
  let ?len = "unat (b_len r)" and ?cap = "b_len r + n + 20" and ?nb = "next_blk h"
  let ?new = "take (unat idx) bs @ replicate (unat n) NUL @
          drop (unat idx) (take ?len bs) @ replicate 20 NUL"
  have nw: "unat (b_len r + n) = ?len + unat n" using assms(10) by (intro unat_add_no_wrap) simp
  then have cap: "unat ?cap = ?len + unat n + 20"
    using assms(10) unat_add_no_wrap [of "b_len r + n" 20] by simp
  have idx: "unat idx < ?len" using assms(8) by (simp add: word_less_nat_alt)
  have bnb: "b \<noteq> ?nb" using fresh_neq assms(1,5) by blast
  have lenb: "?len \<le> length bs" using assms(6,7) by (simp add: word_le_nat_alt)
  from calloc_ok [OF assms(2), of "unat ?cap"] obtain h1 where
    m: "calloc (unat ?cap) h = (Ptr ?nb 0, h1)"
       "blocks h1 = (blocks h)(?nb \<mapsto> replicate (unat ?cap) NUL)" "next_blk h1 = Suc ?nb"
       "heap.more h1 = heap.more h" .
  have cb: "cbufs h1 = cbufs h" using m(4) by (rule bheap_more_cbufs)
  have sc: "shift_components 0 [\<lparr>v_len = idx, v_buf = Ptr b 0\<rparr>,
       \<lparr>v_len = b_len r - idx, v_buf = Ptr b (unat idx)\<rparr>] n (Ptr ?nb 0) ?cap 0 h1 =
     Inr (b_len r + n, upd_block ?nb (take (unat idx) bs @
       take (unat n) (drop (unat idx) (replicate (unat ?cap) NUL)) @
       take (?len - unat idx) (drop (unat idx) bs) @
       drop (?len + unat n) (replicate (unat ?cap) NUL)) h1)"
    using m bnb assms lenb cap by (intro shift_components_two) simp_all
  then have sc: "shift_components 0 [\<lparr>v_len = idx, v_buf = Ptr b 0\<rparr>,
       \<lparr>v_len = b_len r - idx, v_buf = Ptr b (unat idx)\<rparr>] n (Ptr ?nb 0) ?cap 0 h1 =
     Inr (b_len r + n, upd_block ?nb ?new h1)"
    using cap idx by (simp add: drop_take min_def)
  have "unat (b_cap r - b_len r) = unat (b_cap r) - ?len" using assms(7) by (rule unat_sub_no_wrap)
  then have big: "b_cap r - b_len r < n" using assms(9) lenb assms(6) by (simp add: word_less_nat_alt)
  show thesis
    by (rule that [of "set_cbuf a \<lparr>b_cap = ?cap, b_len = b_len r + n, b_avl = ?cap - (b_len r + n),
          b_buf = Ptr ?nb 0\<rparr> ((upd_block ?nb ?new h1)\<lparr>blocks := (blocks h1)(?nb \<mapsto> ?new, b := None)\<rparr>)"])
      (use sc big m cap bnb assms cb in
        \<open>simp_all add: c_u_buffer_shift_from_def C_U_BUFFER_INITIAL_EXTRA_SPACE_def Let_def
           upd_block_def not_le\<close>)
qed

lemma shift_from_contents:
  assumes "heap_ok h" "alloc_ok h" "buf_ok h a" "cbufs h a = Some r" "idx < b_len r"
    "unat (b_len r) + unat n + 20 < 2 ^ 64"
  shows "\<exists>h1 gap. c_u_buffer_shift_from (Some a) idx n h = Inr (0, h1) \<and> heap_ok h1 \<and>
     buf_ok h1 a \<and> avl_ok h1 a \<and> length gap = unat n \<and>
     contents h1 a = take (unat idx) (contents h a) @ gap @ drop (unat idx) (contents h a) \<and>
     (b_cap r - b_len r < n \<longrightarrow> gap = replicate (unat n) NUL) \<and>
     only_buf a (the (buf_block h a)) h h1"
proof -
  from assms(3,4) obtain b bs where b: "b_buf r = Ptr b 0" "blocks h b = Some bs"
    "length bs = unat (b_cap r)" "b_len r \<le> b_cap r" "buf_block h a = Some b"
    "contents h a = take (unat (b_len r)) bs" "unat (b_len r) \<le> length bs"
    by (auto elim!: buf_okE)
  let ?len = "unat (b_len r)"
  have idx: "unat idx < ?len" using assms(5) by (simp add: word_less_nat_alt)
  have bnb: "b \<noteq> next_blk h" using fresh_neq assms(1) b(2) by blast
  have nw: "unat (b_len r + n) = ?len + unat n" using assms(6) by (intro unat_add_no_wrap) simp
  have room: "unat (b_cap r - b_len r) = unat (b_cap r) - ?len" using b(4) by (rule unat_sub_no_wrap)
  show ?thesis
  proof (cases "?len + unat n \<le> unat (b_cap r)")
    case True
    let ?gap = "take (unat n) (drop (unat idx) bs)"
    let ?h1 = "set_cbuf a (r\<lparr>b_len := b_len r + n, b_avl := b_cap r - (b_len r + n)\<rparr>)
       (upd_block b (take (unat idx) bs @ ?gap @ drop (unat idx) (take ?len bs) @
          drop (?len + unat n) bs) h)"
    have sh: "c_u_buffer_shift_from (Some a) idx n h = Inr (0, ?h1)"
      using shift_from_in_place [OF assms(4) b(1-3) assms(5) True] .
    have gap: "length ?gap = unat n" using True b(3) idx by simp
    have len: "b_len r + n \<le> b_cap r" using nw True by (simp add: word_le_nat_alt)
    have ok: "buf_ok ?h1 a" "contents ?h1 a = take (unat idx) (contents h a) @ ?gap @
        drop (unat idx) (contents h a)"
      using buf_okI [of ?h1 a "r\<lparr>b_len := b_len r + n, b_avl := b_cap r - (b_len r + n)\<rparr>" b]
        b idx True len nw gap by (simp_all add: min_absorb1 min_absorb2)
    have "\<not> b_cap r - b_len r < n" using True room by (simp add: word_less_nat_alt)
    moreover have "heap_ok ?h1" using assms(1) b(2) by (simp add: heap_ok_upd_block)
    moreover have "only_buf a b h ?h1" by (simp add: only_buf_def)
    moreover have "avl_ok ?h1 a" by (simp add: avl_ok_def)
    ultimately show ?thesis using sh ok b(5) gap by (intro exI [of _ ?h1] exI [of _ ?gap]) simp
  next
    case False
    then have "unat (b_cap r) < ?len + unat n" by simp
    from shift_from_grows [OF assms(1,2,4) b(1-4) assms(5) this assms(6)]
    obtain h1 where h1: "c_u_buffer_shift_from (Some a) idx n h = Inr (0, h1)"
      "blocks h1 = (blocks h)(next_blk h \<mapsto> take (unat idx) bs @ replicate (unat n) NUL @
          drop (unat idx) (take ?len bs) @ replicate 20 NUL, b := None)"
      "cbufs h1 = (cbufs h)(a \<mapsto> \<lparr>b_cap = b_len r + n + 20, b_len = b_len r + n, b_avl = 20,
                                 b_buf = Ptr (next_blk h) 0\<rparr>)"
      "next_blk h1 = Suc (next_blk h)" .
    have cap: "unat (b_len r + n + 20) = ?len + unat n + 20"
      using nw assms(6) unat_add_no_wrap [of "b_len r + n" 20] by simp
    then have len: "b_len r + n \<le> b_len r + n + 20" using nw by (simp add: word_le_nat_alt)
    have ok: "buf_ok h1 a" "contents h1 a = take (unat idx) (contents h a) @
        replicate (unat n) NUL @ drop (unat idx) (contents h a)"
      using buf_okI [of h1 a "\<lparr>b_cap = b_len r + n + 20, b_len = b_len r + n, b_avl = 20,
          b_buf = Ptr (next_blk h) 0\<rparr>" "next_blk h"] h1(2-3) b idx len cap nw bnb
      by (simp_all add: min_absorb1 min_absorb2)
    have "heap_ok h1" using assms(1) h1(2,4) by (simp add: heap_ok_def)
    moreover have "only_buf a b h h1" using h1 by (simp add: only_buf_def)
    moreover have "avl_ok h1 a" using h1(3) by (simp add: avl_ok_def)
    ultimately show ?thesis using h1(1) ok b(5)
      by (intro exI [of _ h1] exI [of _ "replicate (unat n) NUL"]) simp
  qed
qed


section \<open>Appending\<close>

text \<open>
  What the clients of a buffer rely on when they build text in it: an append extends the
  contents by the payload and disturbs nothing else.
\<close>

locale growable_text =
  fixes append :: "buf_ptr \<Rightarrow> ptr \<Rightarrow> size_t \<Rightarrow> 'z bheap_scheme \<Rightarrow> (int \<times> 'z bheap_scheme) res"
  assumes append_text:
    "heap_ok h \<Longrightarrow> alloc_ok h \<Longrightarrow> buf_ok h a \<Longrightarrow> blocks h s = Some ss \<Longrightarrow>
     buf_block h a \<noteq> Some s \<Longrightarrow> i + unat n \<le> length ss \<Longrightarrow>
     length (contents h a) + unat n + 20 < 2 ^ 64 \<Longrightarrow>
     \<exists>h1. append (Some a) (Ptr s i) n h = Inr (0, h1) \<and> heap_ok h1 \<and> buf_ok h1 a \<and>
       contents h1 a = contents h a @ take (unat n) (drop i ss) \<and>
       only_buf a (the (buf_block h a)) h h1"
begin

lemma append_to_empty:
  assumes "heap_ok h" "alloc_ok h" "buf_ok h a" "contents h a = []" "blocks h s = Some ss"
    "buf_block h a \<noteq> Some s" "i + unat n \<le> length ss" "unat n + 20 < 2 ^ 64"
  obtains h1 where "append (Some a) (Ptr s i) n h = Inr (0, h1)" "heap_ok h1" "buf_ok h1 a"
    "contents h1 a = take (unat n) (drop i ss)" "only_buf a (the (buf_block h a)) h h1"
  using append_text [OF assms(1-3,5-7)] assms(4,8) by auto

lemma append_twice:
  assumes "heap_ok h" "alloc_ok h" "buf_ok h a" "blocks h s = Some ss" "blocks h t = Some ts"
    "buf_block h a \<noteq> Some s" "buf_block h a \<noteq> Some t" "unat m = length ss" "unat n = length ts"
    "length (contents h a) + length ss + length ts + 20 < 2 ^ 64"
    and again: "\<And>h1. append (Some a) (Ptr s 0) m h = Inr (0, h1) \<Longrightarrow>
        alloc_ok h1 \<and> buf_block h1 a \<noteq> Some t"
  obtains h1 h2 where "append (Some a) (Ptr s 0) m h = Inr (0, h1)"
    "append (Some a) (Ptr t 0) n h1 = Inr (0, h2)" "buf_ok h2 a"
    "contents h2 a = contents h a @ ss @ ts"
proof -
  from append_text [OF assms(1-4,6), of 0 m] assms(8,10) obtain h1 where
    h1: "append (Some a) (Ptr s 0) m h = Inr (0, h1)" "heap_ok h1" "buf_ok h1 a"
    "contents h1 a = contents h a @ ss" "only_buf a (the (buf_block h a)) h h1"
    by auto
  obtain b where b: "buf_block h a = Some b" using assms(3) by (elim buf_okE)
  have "blocks h1 t = Some ts"
    using h1(5) b assms(5,7) heap_ok_fresh [OF assms(1,5)] by (auto simp: only_buf_def)
  with append_text [OF h1(2) _ h1(3), of t ts 0 n] again [OF h1(1)] assms(9,10) h1(4)
  obtain h2 where "append (Some a) (Ptr t 0) n h1 = Inr (0, h2)" "buf_ok h2 a"
    "contents h2 a = contents h a @ ss @ ts"
    by auto
  with h1(1) show thesis by (rule that)
qed

end

lemma c_u_buffer_append_text:
  assumes "heap_ok h" "alloc_ok h" "buf_ok h a" "blocks h s = Some ss"
    "buf_block h a \<noteq> Some s" "i + unat n \<le> length ss"
    "length (contents h a) + unat n + 20 < 2 ^ 64"
  shows "\<exists>h1. c_u_buffer_append (Some a) (Ptr s i) n h = Inr (0, h1) \<and> heap_ok h1 \<and> buf_ok h1 a \<and>
     contents h1 a = contents h a @ take (unat n) (drop i ss) \<and>
     only_buf a (the (buf_block h a)) h h1"
proof -
  obtain r where r: "cbufs h a = Some r" using assms(3) by (elim buf_okE)
  have len: "length (contents h a) = unat (b_len r)" using length_contents [OF assms(3) r] .
  with assms r insert_at_contents [OF assms(1-3) r assms(4-6), of "b_len r"]
  show ?thesis by (simp add: c_u_buffer_append_def)
qed

interpretation app: growable_text c_u_buffer_append
  by unfold_locales (rule c_u_buffer_append_text)

section \<open>Creation and release\<close>

lemma empty_cases:
  assumes "heap_ok h"
  obtains (null) h1 where "c_u_buffer_empty cap h = Inr (None, h1)" "blocks h1 = blocks h"
      "cbufs h1 = cbufs h" "Fail \<in> set (allocs h)"
  | (made) h1 a b bs where "c_u_buffer_empty cap h = Inr (Some a, h1)" "heap_ok h1"
      "cbufs h1 = (cbufs h)(a \<mapsto> \<lparr>b_cap = cap, b_len = 0, b_avl = cap, b_buf = Ptr b 0\<rparr>)"
      "blocks h1 = (blocks h)(b \<mapsto> bs)" "length bs = unat cap" "blocks h b = None"
      "next_blk h \<le> a" "b = next_blk h" "bs = map (junk h b) [0..<unat cap]" "a < next_blk h1"
proof (cases rule: malloc_cases [of "unat cap" h])
  case (fail h1)
  then show thesis using bheap_more_cbufs [OF fail(5)]
    by (intro null [of h1]) (auto simp: c_u_buffer_empty_def)
next
  case (ok h1 bs)
  have cb: "cbufs h1 = cbufs h" using ok(6) by (rule bheap_more_cbufs)
  have unused: "blocks h (next_blk h) = None" using assms by (simp add: heap_ok_def)
  show thesis
  proof (cases "next_event h1")
    case (Pair e h2)
    note f = next_event_fields [OF Pair]
    have cb2: "cbufs h2 = cbufs h" using f(4) cb bheap_more_cbufs by metis
    show thesis
    proof (cases "e = Fail")
      case True
      then have "Fail \<in> set (allocs h1)" using next_event_all_ok [OF _ Pair] by blast
      moreover have "set (allocs h1) \<subseteq> set (allocs h)"
        using ok(1) by (auto simp: malloc_def new_block_def next_event_def split: list.splits if_splits)
      moreover have "(blocks h)(next_blk h := None) = blocks h" using unused by auto
      ultimately show thesis using ok Pair f True cb2
        by (intro null [of "h2\<lparr>blocks := (blocks h2)(next_blk h := None)\<rparr>"])
          (auto simp: c_u_buffer_empty_def new_cbuf_def)
    next
      case False
      let ?r = "\<lparr>b_cap = cap, b_len = 0, b_avl = cap, b_buf = Ptr (next_blk h) 0\<rparr>"
      let ?h3 = "set_cbuf (next_blk h2) ?r (h2\<lparr>next_blk := Suc (next_blk h2)\<rparr>)"
      have "heap_ok ?h3" using assms ok f by (simp add: heap_ok_def)
      then show thesis using ok Pair f False cb2 unused
        by (intro made [of "next_blk h2" ?h3 "next_blk h" bs])
          (simp_all add: c_u_buffer_empty_def new_cbuf_def)
    qed
  qed
qed

text \<open>What \<open>strncpy\<close> leaves in the destination: the string, filled up with NULs.\<close>

fun strncpy_bytes :: "nat \<Rightarrow> byte list \<Rightarrow> byte list" where
  "strncpy_bytes 0 xs = []"
| "strncpy_bytes (Suc k) [] = NUL # strncpy_bytes k []"
| "strncpy_bytes (Suc k) (x # xs) =
     (if x = NUL then replicate (Suc k) NUL else x # strncpy_bytes k xs)"

lemma strncpy_bytes_Nil [simp]: "strncpy_bytes k [] = replicate k NUL"
  by (induction k) simp_all

lemma length_strncpy_bytes [simp]: "length (strncpy_bytes k xs) = k"
  by (induction k xs rule: strncpy_bytes.induct) simp_all

lemma strncpy_bytes_plain:
  "k \<le> length xs \<Longrightarrow> NUL \<notin> set (take k xs) \<Longrightarrow> strncpy_bytes k xs = take k xs"
  by (induction k xs rule: strncpy_bytes.induct) auto

lemma strncpy_bytes_c_str:
  "strncpy_bytes k xs = take k (c_str xs @ replicate k NUL)"
proof (induction k xs rule: strncpy_bytes.induct)
  case (3 k x xs)
  then show ?case
    by (simp add: c_str_def replicate_append_same [symmetric] take_append)
qed (simp_all add: c_str_def)

lemma strncpy_loop_ended:
  "blocks h d = Some ds \<Longrightarrow> dofs + i + k \<le> length ds \<Longrightarrow>
   strncpy_loop (Ptr d dofs) src True i k h =
     Inr (upd_block d (blit ds (dofs + i) (replicate k NUL)) h)"
proof (induction k arbitrary: i h ds)
  case 0
  then show ?case by (simp add: upd_block_same)
next
  case (Suc k)
  have "store (Ptr d (dofs + i)) NUL h = Inr (upd_block d (ds[dofs + i := NUL]) h)"
    using Suc.prems by (simp add: store_Ptr del: store.simps)
  with Suc.prems Suc.IH [of "upd_block d (ds[dofs + i := NUL]) h" "ds[dofs + i := NUL]" "Suc i"]
  show ?case by (simp add: blit_upd del: store.simps)
qed

lemma strncpy_loop_bytes:
  assumes "blocks h s = Some ss" "s \<noteq> d"
  shows "blocks h d = Some ds \<Longrightarrow> dofs + i + k \<le> length ds \<Longrightarrow>
     so + i + k \<le> length ss \<or> NUL \<in> set (drop (so + i) ss) \<Longrightarrow>
     strncpy_loop (Ptr d dofs) (Ptr s so) False i k h =
       Inr (upd_block d (blit ds (dofs + i) (strncpy_bytes k (drop (so + i) ss))) h)"
  using assms(1)
proof (induction k arbitrary: i h ds)
  case 0
  then show ?case by (simp add: upd_block_same)
next
  case (Suc k)
  then have lt: "so + i < length ss" by (metis add_Suc_right add_lessD1 drop_all empty_iff
        less_Suc_eq_le list.set(1) not_le not_less_eq_eq set_empty)
  let ?c = "ss ! (so + i)" and ?ds = "ds[dofs + i := ss ! (so + i)]"
  have dr: "drop (so + i) ss = ?c # drop (so + Suc i) ss"
    using lt by (simp add: Cons_nth_drop_Suc)
  have ld: "load (Ptr s (so + i)) h = Inr ?c" using Suc.prems lt by (simp add: load_Ptr del: load.simps)
  have st: "store (Ptr d (dofs + i)) ?c h = Inr (upd_block d ?ds h)"
    using Suc.prems by (simp add: store_Ptr del: store.simps)
  show ?case
  proof (cases "?c = NUL")
    case True
    with ld st Suc.prems strncpy_loop_ended [of "upd_block d ?ds h" d ?ds dofs "Suc i" k "Ptr s so"]
    show ?thesis by (simp add: dr blit_upd del: load.simps store.simps)
  next
    case False
    have "so + Suc i + k \<le> length ss \<or> NUL \<in> set (drop (so + Suc i) ss)"
      using Suc.prems(3) False dr by auto
    with ld st False Suc.prems assms(2) Suc.IH [of "upd_block d ?ds h" ?ds "Suc i"]
    show ?thesis by (simp add: dr blit_upd del: load.simps store.simps)
  qed
qed


lemma new_makes:
  assumes "heap_ok h" "blocks h s = Some ss" "so + unat len \<le> length ss \<or> NUL \<in> set (drop so ss)"
    "unat len + 20 < 2 ^ 64" "Fail \<notin> set (allocs h)"
  obtains a h1 b bs where "c_u_buffer_new (Ptr s so) len h = Inr (Some a, h1)"
    "cbufs h1 = (cbufs h)(a \<mapsto>
       \<lparr>b_cap = len + 20, b_len = len, b_avl = 20, b_buf = Ptr b 0\<rparr>)"
    "blocks h1 = (blocks h)(b \<mapsto> bs)" "length bs = unat len + 20" "blocks h b = None"
    "take (unat len) bs = strncpy_bytes (unat len) (drop so ss)" "next_blk h \<le> a" "heap_ok h1"
    "drop (unat len) bs = map (junk h b) [unat len..<unat len + 20]" "a < next_blk h1"
proof -
  have cap: "unat (len + 20) = unat len + 20" using assms(4) unat_add_no_wrap [of len 20] by simp
  let ?x = "strncpy_bytes (unat len) (drop so ss)"
  obtain h2 a b bs where made: "c_u_buffer_empty (len + 20) h = Inr (Some a, h2)"
    "cbufs h2 = (cbufs h)(a \<mapsto> \<lparr>b_cap = len + 20, b_len = 0, b_avl = len + 20, b_buf = Ptr b 0\<rparr>)"
    "blocks h2 = (blocks h)(b \<mapsto> bs)" "length bs = unat (len + 20)" "blocks h b = None"
    "next_blk h \<le> a" "heap_ok h2" "bs = map (junk h b) [0..<unat (len + 20)]" "a < next_blk h2"
    using assms(1)
  proof (cases rule: empty_cases [of h "len + 20"])
    case null
    then show thesis using assms(5) by simp
  next
    case made
    then show thesis by (intro that)
  qed
  have neq: "s \<noteq> b" using made(5) assms(2) by auto
  have cpy: "strncpy (Ptr b 0) (Ptr s so) len h2 = Inr (upd_block b (blit bs 0 ?x) h2)"
    using strncpy_loop_bytes [of h2 s ss b bs 0 0 "unat len" so] assms(2,3) made neq cap
    by (simp add: strncpy_def)
  show thesis
    by (rule that [of a "set_cbuf a \<lparr>b_cap = len + 20, b_len = len, b_avl = 20, b_buf = Ptr b 0\<rparr>
          (upd_block b (blit bs 0 ?x) h2)" b "blit bs 0 ?x"])
      (use made cpy cap in \<open>auto simp: c_u_buffer_new_def C_U_BUFFER_INITIAL_EXTRA_SPACE_def blit_def
         heap_ok_upd_block drop_map\<close>)
qed

lemma free_blocks:
  assumes "cbufs h a = Some r" "b_buf r = Ptr b 0" "blocks h b \<noteq> None"
  shows "c_u_buffer_free (Some a) h =
     Inr (h\<lparr>blocks := (blocks h)(b := None), cbufs := (cbufs h)(a := None)\<rparr>)"
  using assms by (simp add: c_u_buffer_free_def)

section \<open>A concrete heap\<close>

text \<open>
  A buffer at address 5 that holds the text of test_cmon_utils.c in a block of 12 bytes (so
  one byte is free), and a payload in block 2: the input of the witnesses.
\<close>

definition sample_heap :: bheap where
  "sample_heap = \<lparr>blocks = [0 \<mapsto> ''abcdeabcde|.'', 2 \<mapsto> ''12345''], next_blk = 6, allocs = [],
     junk = (\<lambda>_ _. CHR ''?''),
     cbufs = [5 \<mapsto> \<lparr>b_cap = 12, b_len = 11, b_avl = 1, b_buf = Ptr 0 0\<rparr>]\<rparr>"

lemma sample_heap_simps [simp]:
  "heap_ok sample_heap" "alloc_ok sample_heap" "buf_ok sample_heap 5" "avl_ok sample_heap 5"
  "buf_block sample_heap 5 = Some 0" "contents sample_heap 5 = ''abcdeabcde|''"
  "blocks sample_heap 0 = Some ''abcdeabcde|.''" "blocks sample_heap 2 = Some ''12345''"
  "cbufs sample_heap 5 = Some \<lparr>b_cap = 12, b_len = 11, b_avl = 1, b_buf = Ptr 0 0\<rparr>"
  by (simp_all add: sample_heap_def heap_ok_def alloc_ok_def next_event_def buf_ok_def
      buf_block_def contents_def avl_ok_def)

section \<open>Properties\<close>

text \<open>
  C5. Inserting a payload into a well-formed buffer, in place or by moving to a larger block,
  returns 0, keeps the buffer well formed and makes its contents the old contents with the
  payload inserted at the index; no other block and no other buffer changes.
\<close>

theorem c_u_buffer_insert_at_refines:
  assumes "heap_ok h" "alloc_ok h" "buf_ok h a" "blocks h s = Some ss" "buf_block h a \<noteq> Some s"
    "i + unat n \<le> length ss" "unat idx \<le> length (contents h a)"
    "length (contents h a) + unat n + 20 < 2 ^ 64"
  shows "\<exists>h1. c_u_buffer_insert_at (Some a) (Ptr s i) n idx h = Inr (0, h1) \<and> heap_ok h1 \<and>
     buf_ok h1 a \<and>
     contents h1 a = take (unat idx) (contents h a) @ take (unat n) (drop i ss) @
                     drop (unat idx) (contents h a) \<and>
     only_buf a (the (buf_block h a)) h h1"
proof -
  obtain r where r: "cbufs h a = Some r" using assms(3) by (elim buf_okE)
  have len: "length (contents h a) = unat (b_len r)" using length_contents [OF assms(3) r] .
  have "idx \<le> b_len r" using assms(7) len by (simp add: word_le_nat_alt)
  then show ?thesis using insert_at_contents [OF assms(1-3) r assms(4-6)] assms(8) len by simp
qed

theorem c_u_buffer_insert_at_refines_witness:
  "\<exists>h1. c_u_buffer_insert_at (Some 5) (Ptr 2 0) 5 5 sample_heap = Inr (0, h1) \<and>
     buf_ok h1 5 \<and> contents h1 5 = ''abcde12345abcde|''"
  using c_u_buffer_insert_at_refines [of sample_heap 5 2 "''12345''" 0 5 5] by auto

text \<open>
  C19. Shifting by \<open>n\<close> from an index inside the contents makes a gap of \<open>n\<close> bytes at the index
  and keeps everything else in order, with \<open>len\<close> and \<open>avl\<close> up to date; the gap is all NULs when
  a new block had to be allocated.
\<close>

theorem c_u_buffer_shift_from_refines:
  assumes "heap_ok h" "alloc_ok h" "buf_ok h a" "unat idx < length (contents h a)"
    "length (contents h a) + unat n + 20 < 2 ^ 64"
  shows "\<exists>h1 gap. c_u_buffer_shift_from (Some a) idx n h = Inr (0, h1) \<and> heap_ok h1 \<and>
     buf_ok h1 a \<and> avl_ok h1 a \<and> length gap = unat n \<and>
     contents h1 a = take (unat idx) (contents h a) @ gap @ drop (unat idx) (contents h a) \<and>
     (b_cap (the (cbufs h a)) - b_len (the (cbufs h a)) < n \<longrightarrow> gap = replicate (unat n) NUL) \<and>
     only_buf a (the (buf_block h a)) h h1"
proof -
  obtain r where r: "cbufs h a = Some r" using assms(3) by (elim buf_okE)
  have len: "length (contents h a) = unat (b_len r)" using length_contents [OF assms(3) r] .
  have "idx < b_len r" using assms(4) len by (simp add: word_less_nat_alt)
  from shift_from_contents [OF assms(1-3) r this assms(5) [unfolded len]]
  show ?thesis unfolding r option.sel .
qed

theorem c_u_buffer_shift_from_refines_witness:
  "\<exists>h1. c_u_buffer_shift_from (Some 5) 4 3 sample_heap = Inr (0, h1) \<and>
     contents h1 5 = ''abcd'' @ [NUL, NUL, NUL] @ ''eabcde|'' \<and> avl_ok h1 5"
proof -
  have replicate: "replicate 3 NUL = [NUL, NUL, NUL]" by (simp add: numeral_eq_Suc)
  have "b_cap (the (cbufs sample_heap 5)) - b_len (the (cbufs sample_heap 5)) < 3" by simp
  then show ?thesis
    using c_u_buffer_shift_from_refines [of sample_heap 5 4 3]
    by (simp add: replicate) auto
qed

text \<open>
  A buffer created from a source holds the \<open>strncpy\<close> image of its first \<open>len\<close> bytes (the
  bytes themselves when none of them is NUL, NULs after the first NUL otherwise), and freeing it
  gives back exactly the block and the structure that creating it took.
\<close>

theorem c_u_buffer_new_free:
  assumes "heap_ok h" "blocks h s = Some ss"
    "so + unat len \<le> length ss \<or> NUL \<in> set (drop so ss)" "unat len + 20 < 2 ^ 64"
    "\<forall>a \<ge> next_blk h. cbufs h a = None" "Fail \<notin> set (allocs h)"
  shows "\<exists>a h1 h2. c_u_buffer_new (Ptr s so) len h = Inr (Some a, h1) \<and> buf_ok h1 a \<and>
     avl_ok h1 a \<and> contents h1 a = strncpy_bytes (unat len) (drop so ss) \<and>
     (NUL \<notin> set (take (unat len) (drop so ss)) \<longrightarrow> so + unat len \<le> length ss \<longrightarrow>
        contents h1 a = take (unat len) (drop so ss)) \<and>
     c_u_buffer_free (Some a) h1 = Inr h2 \<and> blocks h2 = blocks h \<and> cbufs h2 = cbufs h"
proof -
  from new_makes [OF assms(1-4,6)] obtain a h1 b bs where
    n: "c_u_buffer_new (Ptr s so) len h = Inr (Some a, h1)" "cbufs h1 = (cbufs h)(a \<mapsto>
       \<lparr>b_cap = len + 20, b_len = len, b_avl = 20, b_buf = Ptr b 0\<rparr>)"
    "blocks h1 = (blocks h)(b \<mapsto> bs)" "length bs = unat len + 20" "blocks h b = None"
    "take (unat len) bs = strncpy_bytes (unat len) (drop so ss)" "next_blk h \<le> a" "heap_ok h1"
    "drop (unat len) bs = map (junk h b) [unat len..<unat len + 20]" "a < next_blk h1" .
  have cap: "unat (len + 20) = unat len + 20" using assms(4) unat_add_no_wrap [of len 20] by simp
  then have "len \<le> len + 20" by (simp add: word_le_nat_alt)
  then have ok: "buf_ok h1 a" "contents h1 a = strncpy_bytes (unat len) (drop so ss)"
    using buf_okI [of h1 a "\<lparr>b_cap = len + 20, b_len = len, b_avl = 20, b_buf = Ptr b 0\<rparr>" b bs]
      n cap by simp_all
  have "cbufs h a = None" using assms(5) n(7) by simp
  then have undo: "(blocks h)(b := None) = blocks h" "(cbufs h)(a := None) = cbufs h"
    using n(5) by auto
  have "c_u_buffer_free (Some a) h1 =
      Inr (h1\<lparr>blocks := (blocks h1)(b := None), cbufs := (cbufs h1)(a := None)\<rparr>)"
    using free_blocks [of h1 a _ b] n(2,3) by simp
  moreover have "avl_ok h1 a" using n(2) by (simp add: avl_ok_def)
  ultimately show ?thesis
    using n(1-3) ok undo strncpy_bytes_plain [of "unat len" "drop so ss"] by simp
qed

theorem c_u_buffer_new_free_witness:
  "\<exists>a h1 h2. c_u_buffer_new (Ptr 2 0) 5 sample_heap = Inr (Some a, h1) \<and>
     contents h1 a = ''12345'' \<and> c_u_buffer_free (Some a) h1 = Inr h2 \<and>
     blocks h2 = blocks sample_heap"
proof -
  have "NUL \<notin> set ''12345''" by (simp add: NUL_def)
  moreover have "Fail \<notin> set (allocs sample_heap)"
    "\<forall>a \<ge> next_blk sample_heap. cbufs sample_heap a = None" by (simp_all add: sample_heap_def)
  ultimately show ?thesis
    using c_u_buffer_new_free [of sample_heap 2 "''12345''" 0 5] by auto
qed


text \<open>
  C32. Growing the capacity never yields a usable larger buffer: the block \<open>realloc\<close> was given
  is freed again, so the call ends in a double free when \<open>realloc\<close> moved the block, and in a
  return of 0 with a data pointer to the freed block when it did not; only when \<open>realloc\<close> fails
  is the buffer still well formed, with -2 returned.
\<close>

theorem c_u_buffer_set_capacity_grow:
  assumes "heap_ok h" "buf_ok h a" "b_cap (the (cbufs h a)) < min_cap"
  shows "(case c_u_buffer_set_capacity (Some a) min_cap h of
       Inl e \<Rightarrow> e = UB DoubleFree
     | Inr (rc, h1) \<Rightarrow>
         (rc = - 2 \<and> buf_ok h1 a \<and> contents h1 a = contents h a) \<or>
         (rc = 0 \<and> \<not> buf_ok h1 a \<and> (\<exists>b. b_buf (the (cbufs h1 a)) = Ptr b 0 \<and> blocks h1 b = None)))"
proof -
  from assms(2) obtain r b bs where b: "cbufs h a = Some r" "b_buf r = Ptr b 0"
    "blocks h b = Some bs" "length bs = unat (b_cap r)" "b_len r \<le> b_cap r"
    "contents h a = take (unat (b_len r)) bs" by (elim buf_okE)
  have grow: "\<not> min_cap \<le> b_cap r" using assms(3) b(1) by simp
  obtain e h1 where e: "next_event h = (e, h1)" by (cases "next_event h")
  note f = next_event_fields [OF e]
  have cb: "cbufs h1 = cbufs h" using f(4) by (rule bheap_more_cbufs)
  have bnb: "b \<noteq> next_blk h" using fresh_neq assms(1) b(3) by blast
  show ?thesis
  proof (cases e)
    case Fail
    then have "c_u_buffer_set_capacity (Some a) min_cap h = Inr (- 2, h1)"
      using b e grow by (simp add: c_u_buffer_set_capacity_def realloc_def)
    moreover have "buf_ok h1 a" "contents h1 a = contents h a"
      using buf_okI [of h1 a r b bs] b cb f by simp_all
    ultimately show ?thesis by simp
  next
    case Fresh
    with b e grow f bnb show ?thesis
      by (simp add: c_u_buffer_set_capacity_def realloc_def new_block_def)
  next
    case InPlace
    with b e grow f cb show ?thesis
      by (simp add: c_u_buffer_set_capacity_def realloc_def buf_ok_def buf_block_def)
  qed
qed

theorem c_u_buffer_set_capacity_grow_witness:
  "(case c_u_buffer_set_capacity (Some 5) 100 sample_heap of
       Inl e \<Rightarrow> e = UB DoubleFree
     | Inr (rc, h1) \<Rightarrow>
         (rc = - 2 \<and> buf_ok h1 5 \<and> contents h1 5 = contents sample_heap 5) \<or>
         (rc = 0 \<and> \<not> buf_ok h1 5 \<and> (\<exists>b. b_buf (the (cbufs h1 5)) = Ptr b 0 \<and> blocks h1 b = None)))"
  by (rule c_u_buffer_set_capacity_grow) simp_all

text \<open>
  A view of a non-empty range that starts inside the buffer, given by its length or as
  "to the end", is a pointer to the start of the range with exactly its length, so reading the
  view reads the range.
\<close>

theorem c_u_view_buffer_new_range:
  assumes "alloc_ok h" "blocks h b = Some bs" "length bs = unat sz" "unat sz < 2 ^ 63"
    "unat start \<le> unat sz"
    "(0 \<le> len \<and> unat start + nat len \<le> unat sz) \<or> (len = C_U_BUFFER_VIEW_END \<and> 0 < unat start)"
  shows "\<exists>v h1. c_u_view_buffer_new (Ptr b 0) sz start len h = (Some v, h1) \<and>
     mem_from (v_buf v) h1 = Inr (Some (drop (unat start) bs)) \<and>
     unat (v_len v) = (if len = C_U_BUFFER_VIEW_END then unat sz - unat start else nat len)"
proof -
  obtain e h1 where e: "next_event h = (e, h1)" "e \<noteq> Fail"
    using assms(1) by (cases "next_event h") (simp add: alloc_ok_def)
  note f = next_event_fields [OF e(1)]
  have sub: "unat (sz - start) = unat sz - unat start"
    using assms(5) by (simp add: unat_sub word_le_nat_alt)
  have rt: "(word_of_int (sint (sz - start)) :: size_t) = sz - start" by simp
  have len_pos: "unat (word_of_int len :: size_t) = nat len" if "0 \<le> len" "nat len \<le> unat sz"
  proof -
    have "nat len < 2 ^ 64" using that(2) assms(4) by simp
    then have "len < 2 ^ 64" using that(1) by (simp add: nat_less_iff)
    then have "uint (word_of_int len :: size_t) = len"
      using that by (simp add: uint_word_of_int)
    then show ?thesis by (simp only: unat_eq_nat_uint)
  qed
  have guard: "\<not> sz < word_of_int len + start"
  proof (cases "len = C_U_BUFFER_VIEW_END")
    case True
    with assms(6) have "start \<noteq> 0" by (auto simp: C_U_BUFFER_VIEW_END_def)
    then have "unat (start - 1) = unat start - 1" by (rule unat_minus_one)
    moreover have "word_of_int len + start = start - 1"
      using True by (simp add: C_U_BUFFER_VIEW_END_def)
    ultimately show ?thesis using assms(5) by (simp only: word_less_nat_alt)
  next
    case False
    with assms(6) have l: "0 \<le> len" "unat start + nat len \<le> unat sz" by auto
    then have "unat (word_of_int len + start) = nat len + unat start"
      using len_pos assms(4) by (subst unat_add_no_wrap) auto
    with l show ?thesis by (simp add: word_less_nat_alt)
  qed
  have "unat (word_of_int (if len = C_U_BUFFER_VIEW_END then sint (sz - start) else len) :: size_t) =
      (if len = C_U_BUFFER_VIEW_END then unat sz - unat start else nat len)"
    using assms(6) rt sub len_pos by (auto simp: C_U_BUFFER_VIEW_END_def)
  then show ?thesis
    using e f assms guard by (simp add: c_u_view_buffer_new_def Let_def)
qed

theorem c_u_view_buffer_new_range_witness:
  "\<exists>v h1. c_u_view_buffer_new (Ptr 2 0) 5 2 (- 1) sample_heap = (Some v, h1) \<and>
     mem_from (v_buf v) h1 = Inr (Some ''345'') \<and> unat (v_len v) = 3"
  using c_u_view_buffer_new_range [of sample_heap 2 "''12345''" 5 2 "- 1"]
  by (auto simp: C_U_BUFFER_VIEW_END_def)

text \<open>
  The one range a view cannot be made of is the whole buffer "to the end": with start 0 the
  sentinel -1 is the largest \<open>size_t\<close> in the bounds check, and the call returns \<open>NULL\<close>.
\<close>

theorem c_u_view_buffer_new_whole_refused:
  assumes "unat sz < 2 ^ 64 - 1"
  shows "c_u_view_buffer_new buf sz 0 C_U_BUFFER_VIEW_END h = (None, h)"
proof -
  have "unat (- 1 :: size_t) = 2 ^ 64 - 1"
    by (simp add: unsigned_minus_1_eq_mask mask_eq_exp_minus_1)
  with assms have "sz < - 1" by (simp add: word_less_nat_alt)
  then show ?thesis by (simp add: c_u_view_buffer_new_def C_U_BUFFER_VIEW_END_def)
qed

theorem c_u_view_buffer_new_whole_refused_witness:
  "c_u_view_buffer_new (Ptr 2 0) 5 0 C_U_BUFFER_VIEW_END sample_heap = (None, sample_heap)"
  by (rule c_u_view_buffer_new_whole_refused) simp

text \<open>
  When the insertion needs a larger block and the allocator refuses it, the call does not
  report an error: either it writes through the null block, or, for an empty buffer, it returns
  0 with a null data pointer and the old block freed.
\<close>

theorem c_u_buffer_insert_at_out_of_memory:
  assumes "\<not> alloc_ok h" "buf_ok h a" "cbufs h a = Some r" "blocks h s = Some ss"
    "i + unat n \<le> length ss" "idx \<le> b_len r"
    "unat (b_cap r) < unat (b_len r) + unat n" "unat (b_len r) + unat n + 20 < 2 ^ 64"
  shows "c_u_buffer_insert_at (Some a) (Ptr s i) n idx h = Inl (UB OutOfBounds) \<or>
     (b_len r = 0 \<and> (\<exists>h1 r1. c_u_buffer_insert_at (Some a) (Ptr s i) n idx h = Inr (0, h1) \<and>
        cbufs h1 a = Some r1 \<and> b_buf r1 = Null \<and> b_len r1 = n \<and>
        blocks h1 (the (buf_block h a)) = None))"
proof -
  from assms(2,3) obtain b bs where b: "b_buf r = Ptr b 0" "blocks h b = Some bs"
    "length bs = unat (b_cap r)" "b_len r \<le> b_cap r" "buf_block h a = Some b"
    "unat (b_len r) \<le> length bs" by (auto elim!: buf_okE)
  obtain e h1 where e: "next_event h = (e, h1)" "e = Fail"
    using assms(1) by (cases "next_event h") (simp add: alloc_ok_def)
  note f = next_event_fields [OF e(1)]
  have m: "malloc k h = (Null, h1)" for k using e by (simp add: malloc_def)
  have cb: "cbufs h1 = cbufs h" using f(4) by (rule bheap_more_cbufs)
  have n: "0 < unat n" using assms(7) b(3,6) by simp
  have nw: "unat (b_len r + n) = unat (b_len r) + unat n"
    using assms(8) by (intro unat_add_no_wrap) simp
  then have cap: "unat (b_len r + n + 20) = unat (b_len r) + unat n + 20"
    using assms(8) unat_add_no_wrap [of "b_len r + n" 20] by simp
  have big: "b_cap r < b_len r + n" using nw assms(7) by (simp add: word_less_nat_alt)
  have idx: "unat idx \<le> unat (b_len r)" using assms(6) by (simp add: word_le_nat_alt)
  have wild: "c_u_str_copy_n (Ptr s i) n Wild room h1 = Inl (UB OutOfBounds)"
    if "n \<le> room" for room
    using that n assms(4,5) f by (cases "unat n") (simp_all add: c_u_str_copy_n_def not_less)
  show ?thesis
  proof (cases "unat idx = 0")
    case False
    have "n \<le> b_len r + n + 20 - idx"
      using idx cap by (intro room_left) simp
    with False b m big assms(3,6) wild show ?thesis
      by (simp add: c_u_buffer_insert_at_def Let_def C_U_BUFFER_INITIAL_EXTRA_SPACE_def
          c_u_str_copy_n_guards not_less)
  next
    case True
    then have i0: "idx = 0" by (simp add: unat_eq_0)
    have le: "\<not> b_len r < 0" by simp
    show ?thesis
    proof (cases "b_len r = 0")
      case zero: True
      with i0 n b m big assms(3) f cb show ?thesis
        by (simp add: c_u_buffer_insert_at_def Let_def C_U_BUFFER_INITIAL_EXTRA_SPACE_def
            c_u_str_copy_n_guards c_u_str_copy_n_zero)
    next
      case False
      then have "0 < unat (b_len r)" by (simp add: unat_gt_0)
      moreover have "b_len r \<le> b_len r + n + 20 - n"
        using nw cap by (intro room_left) simp
      ultimately have "c_u_str_copy_n (Ptr b 0) (b_len r) Wild (b_len r + n + 20 - n) h1 =
          Inl (UB OutOfBounds)"
        using b(2,3,6) f by (cases "unat (b_len r)") (simp_all add: c_u_str_copy_n_def not_less)
      with i0 n b m big assms(3) show ?thesis
        by (simp add: c_u_buffer_insert_at_def Let_def C_U_BUFFER_INITIAL_EXTRA_SPACE_def
            c_u_str_copy_n_guards)
    qed
  qed
qed

theorem c_u_buffer_insert_at_out_of_memory_witness:
  "c_u_buffer_insert_at (Some 5) (Ptr 2 0) 5 5 (sample_heap\<lparr>allocs := [Fail]\<rparr>) =
     Inl (UB OutOfBounds)"
proof -
  let ?h = "sample_heap\<lparr>allocs := [Fail]\<rparr>"
  have "\<not> alloc_ok ?h" "buf_ok ?h 5"
    by (simp_all add: alloc_ok_def next_event_def sample_heap_def buf_ok_def buf_block_def)
  with c_u_buffer_insert_at_out_of_memory
      [of ?h 5 "\<lparr>b_cap = 12, b_len = 11, b_avl = 1, b_buf = Ptr 0 0\<rparr>" 2 "''12345''" 0 5 5]
  show ?thesis by (simp add: sample_heap_def)
qed

text \<open>
  An insertion that fits in place updates \<open>len\<close> and not \<open>avl\<close>: a buffer whose \<open>avl\<close> was the
  free space has a wrong \<open>avl\<close> after any non-empty insertion.
\<close>

theorem c_u_buffer_insert_at_stale_avl:
  assumes "buf_ok h a" "cbufs h a = Some r" "avl_ok h a" "blocks h s = Some ss"
    "buf_block h a \<noteq> Some s" "i + unat n \<le> length ss" "idx \<le> b_len r"
    "unat (b_len r) + unat n \<le> unat (b_cap r)" "n \<noteq> 0"
  shows "\<exists>h1. c_u_buffer_insert_at (Some a) (Ptr s i) n idx h = Inr (0, h1) \<and> \<not> avl_ok h1 a"
proof -
  from assms(1,2) obtain b bs where b: "b_buf r = Ptr b 0" "blocks h b = Some bs"
    "length bs = unat (b_cap r)" "buf_block h a = Some b" by (auto elim!: buf_okE)
  with assms have "s \<noteq> b" by auto
  from insert_at_in_place [OF assms(2) b(1-3) assms(4) this assms(6,7,8)]
  show ?thesis using assms(2,3,9) by (simp add: avl_ok_def)
qed

theorem c_u_buffer_insert_at_stale_avl_witness:
  "\<exists>h1. c_u_buffer_insert_at (Some 5) (Ptr 2 0) 1 5 sample_heap = Inr (0, h1) \<and> \<not> avl_ok h1 5"
  by (rule c_u_buffer_insert_at_stale_avl [where ss = "''12345''" and
        r = "\<lparr>b_cap = 12, b_len = 11, b_avl = 1, b_buf = Ptr 0 0\<rparr>"]) simp_all

end
