(* ===== verification/Text_Utils.thy ===== *)
theory Text_Utils
  imports Cmon_Prelude
begin

text \<open>
  src/src/lib/utils/text_utils.c: the character classes and the number test that the tokenizer,
  the process-tree reader and the HTTP parser use. A C string argument is the bytes from the
  pointer to the end of its object.
\<close>

section \<open>Definitions\<close>

definition code_of :: "byte \<Rightarrow> nat" where
  "code_of c = of_char c"

definition between :: "byte \<Rightarrow> byte \<Rightarrow> byte \<Rightarrow> bool" where
  "between lo hi c \<longleftrightarrow> code_of lo \<le> code_of c \<and> code_of c \<le> code_of hi"

definition char_is_alphanumeric :: "byte \<Rightarrow> int" where
  "char_is_alphanumeric c =
     (if between CHR ''A'' CHR ''Z'' c then 1
      else if between CHR ''a'' CHR ''z'' c then 2
      else if between CHR ''0'' CHR ''9'' c then 3
      else 0)"

definition char_is_alpha :: "byte \<Rightarrow> int" where
  "char_is_alpha c =
     (if between CHR ''A'' CHR ''Z'' c then 1
      else if between CHR ''a'' CHR ''z'' c then 2
      else 0)"

definition char_is_numeric :: "byte \<Rightarrow> int" where
  "char_is_numeric c = (if between CHR ''0'' CHR ''9'' c then 1 else 0)"

fun str_is_number :: "byte list \<Rightarrow> int res" where
  "str_is_number [] = Inl (UB OutOfBounds)"
| "str_is_number (c # cs) =
     (if c = NUL then Inr 1
      else if char_is_alpha c \<noteq> 0 then Inr 0
      else str_is_number cs)"

text \<open>Decimal digits and the number a digit string denotes.\<close>

definition is_digit :: "byte \<Rightarrow> bool" where
  "is_digit c \<longleftrightarrow> between CHR ''0'' CHR ''9'' c"

definition digit_val :: "byte \<Rightarrow> nat" where
  "digit_val c = code_of c - 48"

definition dec_value :: "byte list \<Rightarrow> nat" where
  "dec_value ds = foldl (\<lambda>v c. v * 10 + digit_val c) 0 ds"

text \<open>The decimal notation of a number.\<close>

definition digit_char :: "nat \<Rightarrow> byte" where
  "digit_char d = char_of (48 + d)"

fun show_dec :: "nat \<Rightarrow> byte list" where
  "show_dec n = (if n < 10 then [digit_char n] else show_dec (n div 10) @ [digit_char (n mod 10)])"

declare show_dec.simps [simp del]

text \<open>What \<open>%d\<close> prints of a number.\<close>

definition show_int :: "int \<Rightarrow> byte list" where
  "show_int i = (if i < 0 then ''-'' @ show_dec (nat (- i)) else show_dec (nat i))"

section \<open>Character classes\<close>

lemma char_is_numeric_iff: "char_is_numeric c \<noteq> 0 \<longleftrightarrow> is_digit c"
  by (simp add: char_is_numeric_def is_digit_def)

lemma is_digit_code: "is_digit c \<longleftrightarrow> 48 \<le> code_of c \<and> code_of c \<le> 57"
  by (simp add: is_digit_def between_def code_of_def)

lemma char_is_alphanumeric_alpha:
  "char_is_alphanumeric c \<noteq> 0 \<longleftrightarrow> char_is_alpha c \<noteq> 0 \<or> is_digit c"
  by (simp add: char_is_alphanumeric_def char_is_alpha_def is_digit_def)

lemma digit_not_alpha: "is_digit c \<Longrightarrow> char_is_alpha c = 0"
  by (auto simp: is_digit_def char_is_alpha_def between_def code_of_def)

lemma is_digit_consts [simp]:
  "\<not> is_digit NUL" "\<not> is_digit CR" "\<not> is_digit LF" "\<not> is_digit CHR '' ''" "\<not> is_digit CHR '':''"
  by (simp_all add: is_digit_def between_def code_of_def NUL_def CR_def LF_def)

lemma str_is_number_c_str:
  "NUL \<in> set cs \<Longrightarrow>
   str_is_number cs = Inr (if list_all (\<lambda>c. char_is_alpha c = 0) (c_str cs) then 1 else 0)"
  by (induction cs) (auto simp: c_str_def)

lemma str_is_number_unterminated:
  "NUL \<notin> set cs \<Longrightarrow> list_all (\<lambda>c. char_is_alpha c = 0) cs \<Longrightarrow>
   str_is_number cs = Inl (UB OutOfBounds)"
  by (induction cs) auto

section \<open>Decimal notation\<close>

lemma code_of_digit_char: "d < 10 \<Longrightarrow> code_of (digit_char d) = 48 + d"
  by (simp add: code_of_def digit_char_def of_char_of)

lemma digit_val_char [simp]: "d < 10 \<Longrightarrow> digit_val (digit_char d) = d"
  by (simp add: digit_val_def code_of_digit_char)

lemma is_digit_char [simp]: "d < 10 \<Longrightarrow> is_digit (digit_char d)"
  by (simp add: is_digit_code code_of_digit_char)

lemma digit_val_lt: "is_digit c \<Longrightarrow> digit_val c < 10"
  unfolding is_digit_code digit_val_def by linarith

lemma dec_value_Nil [simp]: "dec_value [] = 0"
  by (simp add: dec_value_def)

lemma dec_value_snoc [simp]: "dec_value (ds @ [c]) = dec_value ds * 10 + digit_val c"
  by (simp add: dec_value_def)

lemma dec_value_show_dec [simp]: "dec_value (show_dec n) = n"
proof (induction n rule: show_dec.induct)
  case (1 n)
  show ?case
  proof (cases "n < 10")
    case True
    then show ?thesis
      by (subst show_dec.simps) (simp add: dec_value_def)
  next
    case False
    with "1" show ?thesis by (subst show_dec.simps) simp
  qed
qed

lemma show_dec_digits: "c \<in> set (show_dec n) \<Longrightarrow> is_digit c"
proof (induction n rule: show_dec.induct)
  case (1 n)
  from "1.prems" "1.IH" show ?case
    by (subst (asm) show_dec.simps) (auto split: if_splits)
qed

lemma show_dec_nonempty [simp]: "show_dec n \<noteq> []"
  by (subst show_dec.simps) simp

lemma length_show_dec: "n < 10 ^ k \<Longrightarrow> 0 < k \<Longrightarrow> length (show_dec n) \<le> k"
proof (induction k arbitrary: n)
  case 0
  then show ?case by simp
next
  case (Suc k)
  show ?case
  proof (cases "n < 10")
    case True
    then show ?thesis by (subst show_dec.simps) simp
  next
    case False
    then have "0 < k" using Suc.prems by (cases k) auto
    moreover have "n div 10 < 10 ^ k" using Suc.prems(1) by (simp add: less_mult_imp_div_less mult.commute)
    ultimately have "length (show_dec (n div 10)) \<le> k" by (intro Suc.IH)
    with False show ?thesis by (subst show_dec.simps) simp
  qed
qed

lemma dec_value_bound: "\<forall>c\<in>set ds. is_digit c \<Longrightarrow> dec_value ds < 10 ^ length ds"
proof (induction ds rule: rev_induct)
  case Nil
  then show ?case by simp
next
  case (snoc c ds)
  then have "dec_value ds + 1 \<le> 10 ^ length ds" "digit_val c < 10" by (auto simp: digit_val_lt)
  then have "dec_value ds * 10 + digit_val c < (dec_value ds + 1) * 10" by simp
  also have "\<dots> \<le> 10 ^ length ds * 10"
    using \<open>dec_value ds + 1 \<le> 10 ^ length ds\<close> by (rule mult_le_mono1)
  finally show ?case by (simp add: mult.commute)
qed

end
