(* ===== verification/Http_Header.thy ===== *)
theory Http_Header
  imports C_Utils_Buffer Text_Utils
begin

text \<open>
  src/src/cmon_proxy/cmon_http.c, the part that reads header text: decimal numbers, the
  Content-Length header and the lookup of a header field, in its three versions (into an array,
  as a range, as a view into a \<open>CmonBuffer\<close>). The header and the key are the bytes from their
  pointers to the end of their objects.
\<close>

section \<open>Definitions\<close>

definition MAX_ITERATIONS :: nat where
  "MAX_ITERATIONS = 20"

definition MAX_LENGTH_OF_CONTEMT_LENGTH_CHARS :: nat where
  "MAX_LENGTH_OF_CONTEMT_LENGTH_CHARS = 9"

definition MAX_LENGTH_OF_PARSEABLE_STRING :: nat where
  "MAX_LENGTH_OF_PARSEABLE_STRING = 9"

definition KEY_NOT_FOUND :: int where
  "KEY_NOT_FOUND = - 3"

definition CRLF :: "byte list" where
  "CRLF = [CR, LF]"

definition HEADER_DELIM :: "byte list" where
  "HEADER_DELIM = [CR, LF, CR, LF]"

definition content_length_key :: "byte list" where
  "content_length_key = ''Content-Length:''"

datatype http_code =
    C_HTTP_SUCESS | C_HTTP_NULL_ARG | C_HTTP_HEADER_PARSING_ERR | C_HTTP_RECV_ERR
  | C_HTTP_BUFFER_ERR | C_HTTP_SOCKET_FD_ERR | C_HTTP_SOCKET_CLOSE | C_HTTP_KEY_NOT_FOUND

text \<open>\<open>_parse_str_to_int\<close>: spaces are skipped, anything else that is not a digit is an error.\<close>

fun parse_loop :: "byte list \<Rightarrow> nat \<Rightarrow> nat \<Rightarrow> size_t \<Rightarrow> int res" where
  "parse_loop str i 0 value = Inr (sint value)"
| "parse_loop str i (Suc k) value =
     bindE (byte_at str i) (\<lambda>c.
       if is_digit c then parse_loop str (Suc i) k (value * 10 + word_of_nat (digit_val c))
       else if c \<noteq> CHR '' '' then Inr (- 1)
       else parse_loop str (Suc i) k value)"

definition parse_str_to_int :: "byte list \<Rightarrow> size_t \<Rightarrow> int res" where
  "parse_str_to_int str sz =
     (if unat sz > MAX_LENGTH_OF_PARSEABLE_STRING then Inr (- 1)
      else parse_loop str 0 (unat sz) 0)"

text \<open>
  The scanning loop of \<open>_http_get_content_length_headder\<close> from position \<open>pos\<close>: \<open>None\<close> for the
  error returns, else the digits collected in the 9-byte array \<open>number_buf\<close> and their number.
\<close>

function content_length_loop ::
    "byte list \<Rightarrow> nat \<Rightarrow> nat \<Rightarrow> byte list \<Rightarrow> nat \<Rightarrow> (byte list \<times> nat) option res" where
  "content_length_loop mem pos iterations number_buf n =
     (if pos < length mem then
        let c = mem ! pos in
        if c = LF \<or> c = CR then Inr (Some (number_buf, n))
        else if iterations > MAX_ITERATIONS then Inr None
        else if n > MAX_LENGTH_OF_CONTEMT_LENGTH_CHARS then Inr None
        else if is_digit c then
          (if n < length number_buf
           then content_length_loop mem (Suc pos) iterations (number_buf[n := c]) (Suc n)
           else Inl (UB OutOfBounds))
        else content_length_loop mem (Suc pos) (Suc iterations) number_buf n
      else Inl (UB OutOfBounds))"
  by pat_completeness auto
termination
  by (relation "measure (\<lambda>(mem, pos, iterations, number_buf, n). length mem - pos)") auto

declare content_length_loop.simps [simp del]

definition http_get_content_length_headder :: "byte list \<Rightarrow> size_t \<Rightarrow> int res" where
  "http_get_content_length_headder buff len =
     bindE (c_u_str_find_pattern (Some content_length_key) (word_of_nat (length content_length_key))
              (Some buff) len) (\<lambda>heaader_index.
       if heaader_index = - 1 then Inr 0
       else bindE (content_length_loop buff (nat (heaader_index + 14)) 0
                     (replicate MAX_LENGTH_OF_CONTEMT_LENGTH_CHARS NUL) 0) (\<lambda>r. case r of
              None \<Rightarrow> Inr (- 1)
            | Some (number_buf, n) \<Rightarrow>
                if n = 0 then Inr 0
                else bindE (parse_str_to_int number_buf (word_of_nat n)) (\<lambda>parse_val.
                       if parse_val < 0 then Inr (- 1) else Inr parse_val)))"

text \<open>The key with its colon, in a variable-length array of \<open>key_size + 1\<close> bytes.\<close>

definition doted_key :: "byte list \<Rightarrow> size_t \<Rightarrow> byte list res" where
  "doted_key key key_size =
     (if unat key_size \<le> length key then Inr (take (unat key_size) key @ '':'')
      else Inl (UB OutOfBounds))"

text \<open>
  A read pointer advanced into its object: past its end there is nothing to read (\<open>drop\<close> gives
  the empty rest, so the first read stops with \<open>OutOfBounds\<close>).
\<close>

definition advance :: "byte list \<Rightarrow> int \<Rightarrow> byte list option" where
  "advance mem i = Some (drop (nat i) mem)"

text \<open>
  \<open>_c_http_get_key_value_range\<close>: the return code and the range (\<open>None\<close> when it was not set).
  The \<open>end\<close> of the range is the length of the value.
\<close>

record CmonUtilRange =
  range_start :: size_t
  range_end :: size_t

definition c_http_get_key_value_range ::
    "byte list option \<Rightarrow> size_t \<Rightarrow> byte list option \<Rightarrow> size_t \<Rightarrow> (int \<times> CmonUtilRange option) res" where
  "c_http_get_key_value_range header header_size key key_size =
     (case (header, key) of
        (Some hdr, Some ky) \<Rightarrow>
          if header_size = 0 \<or> key_size = 0 then Inr (- 2, None)
          else bindE (doted_key ky key_size) (\<lambda>dk.
               bindE (c_u_str_find_pattern (Some dk) (key_size + 1) (Some hdr) header_size) (\<lambda>offset.
               if offset = - 1 then Inr (KEY_NOT_FOUND, None)
               else let start_index = offset + uint key_size + 1 in
                 bindE (c_u_str_find_pattern (Some CRLF) 2 (advance hdr start_index)
                          (header_size - word_of_int start_index)) (\<lambda>header_value_size.
                 if header_value_size = - 1 then Inr (- 4, None)
                 else Inr (0, Some \<lparr>range_start = word_of_int start_index,
                                    range_end = word_of_int header_value_size\<rparr>))))
      | _ \<Rightarrow> Inr (- 1, None))"

definition INT_MAX :: int where
  "INT_MAX = 2147483647"

text \<open>\<open>c_http_get_header_field\<close>: the return value and the array \<open>buf\<close> after the call.\<close>

definition c_http_get_header_field ::
    "byte list option \<Rightarrow> size_t \<Rightarrow> byte list option \<Rightarrow> size_t \<Rightarrow> byte list option \<Rightarrow> size_t
     \<Rightarrow> (int \<times> byte list option) res" where
  "c_http_get_header_field header header_size key key_size buf buf_size =
     (case (header, buf, key) of
        (Some hdr, Some bf, Some ky) \<Rightarrow>
          if header_size = 0 \<or> buf_size = 0 \<or> key_size = 0 then Inr (- 2, buf)
          else bindE (doted_key ky key_size) (\<lambda>dk.
               bindE (c_u_str_find_pattern (Some dk) (key_size + 1) (Some hdr) header_size) (\<lambda>offset.
               if offset = - 1 then Inr (0, buf)
               else let start_index = offset + uint key_size + 1 in
                 bindE (c_u_str_find_pattern (Some CRLF) 2 (advance hdr start_index)
                          (header_size - word_of_int start_index)) (\<lambda>header_value_size.
                 if header_value_size = - 1 then Inr (- 3, buf)
                 else if header_value_size > INT_MAX then Inr (- 4, buf)
                 else if buf_size < word_of_int header_value_size then Inr (- 4, buf)
                 else let value = take (nat header_value_size) (drop (nat start_index) hdr) in
                   if length value < nat header_value_size \<or> length bf < nat header_value_size
                   then Inl (UB OutOfBounds)
                   else Inr (header_value_size, Some (blit bf 0 value)))))
      | _ \<Rightarrow> Inr (- 1, buf))"

definition c_http_find_header_field_key ::
    "byte list option \<Rightarrow> size_t \<Rightarrow> byte list option \<Rightarrow> size_t \<Rightarrow> int res" where
  "c_http_find_header_field_key header sz key key_size =
     (case (header, key) of
        (Some hdr, Some ky) \<Rightarrow>
          bindE (doted_key ky key_size) (\<lambda>dk.
          c_u_str_find_pattern (Some dk) (key_size + 1) (Some hdr) sz)
      | _ \<Rightarrow> Inr (- 1))"

text \<open>
  The macro \<open>_c_http_header_field_value_length\<close>: the text starts after the colon but the length
  passed is \<open>header_size - key_index\<close>, \<open>key_size + 1\<close> more than is left.
\<close>

definition header_field_value_length :: "byte list \<Rightarrow> size_t \<Rightarrow> int \<Rightarrow> size_t \<Rightarrow> int res" where
  "header_field_value_length header header_size key_index key_size =
     c_u_str_find_pattern (Some CRLF) 2 (advance header (key_index + uint key_size + 1))
       (header_size - word_of_int key_index)"

definition c_http_buf_get_header_value_view ::
    "buf_ptr \<Rightarrow> byte list option \<Rightarrow> size_t \<Rightarrow> 'z bheap_scheme
     \<Rightarrow> (http_code \<times> CmonBufferView option) res" where
  "c_http_buf_get_header_value_view header key key_size h = (case header of
      None \<Rightarrow> Inr (C_HTTP_NULL_ARG, None)
    | Some a \<Rightarrow> bindE (deref header h) (\<lambda>r.
        bindE (mem_from (b_buf r) h) (\<lambda>mem.
        bindE (c_http_find_header_field_key mem (b_len r) key key_size) (\<lambda>offset.
        if offset = - 1 then Inr (C_HTTP_KEY_NOT_FOUND, None)
        else bindE (header_field_value_length (the mem) (b_len r) offset key_size) (\<lambda>value_size.
          if value_size = - 1 then Inr (C_HTTP_HEADER_PARSING_ERR, None)
          else Inr (C_HTTP_SUCESS,
                    Some \<lparr>v_len = word_of_int value_size,
                          v_buf = ptr_add (b_buf r) (nat (offset + uint key_size + 1))\<rparr>))))))"

definition c_http_buf_get_header_field ::
    "buf_ptr \<Rightarrow> byte list option \<Rightarrow> size_t \<Rightarrow> buf_ptr \<Rightarrow> 'z bheap_scheme
     \<Rightarrow> (http_code \<times> 'z bheap_scheme) res" where
  "c_http_buf_get_header_field header key key_size buf h =
     (if header = None \<or> buf = None \<or> key = None then Inr (C_HTTP_NULL_ARG, h)
      else bindE (deref buf h) (\<lambda>br.
        if b_len br \<noteq> 0 then Inr (C_HTTP_BUFFER_ERR, h)
        else bindE (c_http_buf_get_header_value_view header key key_size h) (\<lambda>(rc, view).
          case view of
            None \<Rightarrow> Inr (rc, h)
          | Some v \<Rightarrow>
              bindE (c_u_buffer_append buf (v_buf v) (v_len v) h) (\<lambda>(rc1, h1).
              if rc1 \<noteq> 0 then Inr (C_HTTP_BUFFER_ERR, h1) else Inr (C_HTTP_SUCESS, h1)))))"

text \<open>
  \<open>c_http_set_headder\<close>: looks the field up and then does nothing with what it found (the length
  it computes is compared in an \<open>if\<close> with an empty body).
\<close>

definition c_http_set_headder ::
    "buf_ptr \<Rightarrow> byte list option \<Rightarrow> size_t \<Rightarrow> byte list option \<Rightarrow> size_t \<Rightarrow> 'z bheap_scheme
     \<Rightarrow> (int \<times> 'z bheap_scheme) res" where
  "c_http_set_headder header key key_size content content_size h =
     bindE (deref header h) (\<lambda>r.
     bindE (mem_from (b_buf r) h) (\<lambda>mem.
     bindE (c_http_get_key_value_range mem (b_len r) key key_size) (\<lambda>(rc, range).
     Inr (0, h))))"


section \<open>Decimal numbers\<close>

lemma unat_decimal_step:
  assumes "unat (v :: size_t) < 10 ^ 8" "d < 10"
  shows "unat (v * 10 + word_of_nat d) = unat v * 10 + d"
proof -
  have b: "unat v * 10 + d < 2 ^ 64" using assms by simp
  have "v * 10 + word_of_nat d = word_of_nat (unat v * 10 + d)" by simp
  with b show ?thesis by (simp only: unat_of_nat) simp
qed

lemma parse_loop_decimal:
  assumes "i + k \<le> length str" "\<forall>c\<in>set (take k (drop i str)). is_digit c \<or> c = CHR '' ''"
    "unat v < 10 ^ m" "m + k \<le> 9"
  shows "parse_loop str i k v =
     Inr (int (foldl (\<lambda>v c. v * 10 + digit_val c) (unat v) (filter is_digit (take k (drop i str)))))"
  using assms
proof (induction k arbitrary: i v m)
  case 0
  have "unat v < 2 ^ 63"
    using 0(3) power_increasing [of m 9 "10 :: nat"] 0(4) by simp
  then show ?case by (simp add: sint_small)
next
  case (Suc k)
  let ?c = "str ! i"
  have dr: "drop i str = ?c # drop (Suc i) str"
    using Suc.prems(1) by (simp add: Cons_nth_drop_Suc)
  have rest: "Suc i + k \<le> length str"
    "\<forall>c\<in>set (take k (drop (Suc i) str)). is_digit c \<or> c = CHR '' ''"
    using Suc.prems(1,2) dr by auto
  have c: "is_digit ?c \<or> ?c = CHR '' ''" using Suc.prems(2) dr by simp
  have rd: "byte_at str i = Inr ?c" using Suc.prems(1) by (simp add: byte_at_def)
  show ?case
  proof (cases "is_digit ?c")
    case True
    have "unat v < 10 ^ 8"
      using Suc.prems(3,4) power_increasing [of m 8 "10 :: nat"] by simp
    then have step: "unat (v * 10 + word_of_nat (digit_val ?c)) = unat v * 10 + digit_val ?c"
      using digit_val_lt [OF True] by (rule unat_decimal_step)
    have "unat v + 1 \<le> 10 ^ m" using Suc.prems(3) by simp
    then have "(unat v + 1) * 10 \<le> 10 ^ m * 10" by (rule mult_le_mono1)
    then have "unat (v * 10 + word_of_nat (digit_val ?c)) < 10 ^ Suc m"
      using step digit_val_lt [OF True] by simp
    from Suc.IH [OF rest this] Suc.prems(4) True rd dr step show ?thesis by simp
  next
    case False
    with c Suc.IH [OF rest Suc.prems(3)] Suc.prems(4) rd dr show ?thesis by simp
  qed
qed

lemma parse_str_to_int_decimal:
  assumes "unat sz \<le> length str" "unat sz \<le> 9"
    "\<forall>c\<in>set (take (unat sz) str). is_digit c \<or> c = CHR '' ''"
  shows "parse_str_to_int str sz = Inr (int (dec_value (filter is_digit (take (unat sz) str))))"
  using parse_loop_decimal [of 0 "unat sz" str 0 0] assms
  by (simp add: parse_str_to_int_def MAX_LENGTH_OF_PARSEABLE_STRING_def dec_value_def)

section \<open>The scan for the content length\<close>

lemma content_length_spaces:
  assumes "take j (drop pos mem) = replicate j (CHR '' '')" "it + j \<le> 21" "n \<le> 9"
    "pos + j \<le> length mem"
  shows "content_length_loop mem pos it nb n = content_length_loop mem (pos + j) (it + j) nb n"
  using assms
proof (induction j arbitrary: pos it)
  case 0
  then show ?case by simp
next
  case (Suc j)
  then have dr: "drop pos mem = mem ! pos # drop (Suc pos) mem" by (simp add: Cons_nth_drop_Suc)
  have "content_length_loop mem pos it nb n = content_length_loop mem (Suc pos) (Suc it) nb n"
    using Suc.prems dr
    by (subst content_length_loop.simps)
      (simp add: Let_def MAX_ITERATIONS_def MAX_LENGTH_OF_CONTEMT_LENGTH_CHARS_def CR_def LF_def)
  also have "\<dots> = content_length_loop mem (Suc pos + j) (Suc it + j) nb n"
    using Suc.prems dr by (intro Suc.IH) simp_all
  finally show ?case by simp
qed

lemma content_length_digits:
  assumes "take (length ds) (drop pos mem) = ds" "pos + length ds \<le> length mem"
    "\<forall>c\<in>set ds. is_digit c" "it \<le> 20" "n + length ds \<le> 9" "length nb = 9"
  shows "content_length_loop mem pos it nb n =
     content_length_loop mem (pos + length ds) it (blit nb n ds) (n + length ds)"
  using assms
proof (induction ds arbitrary: pos nb n)
  case Nil
  then show ?case by simp
next
  case (Cons d ds)
  then have dr: "drop pos mem = mem ! pos # drop (Suc pos) mem" by (simp add: Cons_nth_drop_Suc)
  with Cons.prems(1) have d: "mem ! pos = d" and tl: "take (length ds) (drop (Suc pos) mem) = ds"
    by simp_all
  have "d \<noteq> LF" "d \<noteq> CR" using Cons.prems(3) by auto
  with Cons.prems d
  have "content_length_loop mem pos it nb n = content_length_loop mem (Suc pos) it (nb[n := d]) (Suc n)"
    by (subst content_length_loop.simps)
      (simp add: Let_def MAX_ITERATIONS_def MAX_LENGTH_OF_CONTEMT_LENGTH_CHARS_def)
  also have "\<dots> = content_length_loop mem (Suc pos + length ds) it
      (blit (nb[n := d]) (Suc n) ds) (Suc n + length ds)"
    using Cons.prems tl by (intro Cons.IH) simp_all
  also have "blit (nb[n := d]) (Suc n) ds = blit nb n (d # ds)"
    using Cons.prems by (intro blit_upd) simp
  finally show ?case by simp
qed

lemma content_length_overflow:
  assumes "take (length ds) (drop pos mem) = ds" "pos + length ds \<le> length mem"
    "\<forall>c\<in>set ds. is_digit c" "it \<le> 20" "n \<le> 9" "10 \<le> n + length ds" "length nb = 9"
  shows "content_length_loop mem pos it nb n = Inl (UB OutOfBounds)"
  using assms
proof (induction ds arbitrary: pos nb n)
  case Nil
  then show ?case by simp
next
  case (Cons d ds)
  then have dr: "drop pos mem = mem ! pos # drop (Suc pos) mem" by (simp add: Cons_nth_drop_Suc)
  with Cons.prems(1) have d: "mem ! pos = d" and tl: "take (length ds) (drop (Suc pos) mem) = ds"
    by simp_all
  have dig: "d \<noteq> LF" "d \<noteq> CR" "is_digit d" using Cons.prems(3) by auto
  show ?case
  proof (cases "n = 9")
    case True
    with Cons.prems d dig show ?thesis
      by (subst content_length_loop.simps)
        (simp add: Let_def MAX_ITERATIONS_def MAX_LENGTH_OF_CONTEMT_LENGTH_CHARS_def)
  next
    case False
    with Cons.prems d dig
    have "content_length_loop mem pos it nb n =
        content_length_loop mem (Suc pos) it (nb[n := d]) (Suc n)"
      by (subst content_length_loop.simps)
        (simp add: Let_def MAX_ITERATIONS_def MAX_LENGTH_OF_CONTEMT_LENGTH_CHARS_def)
    with False Cons.prems tl Cons.IH [of "Suc pos" "Suc n" "nb[n := d]"] show ?thesis by simp
  qed
qed

text \<open>
  The scan from the colon of a Content-Length header whose value is \<open>j\<close> spaces and digits.
\<close>

lemma content_length_colon:
  assumes "drop pos mem = '':'' @ replicate j (CHR '' '') @ ds @ e # rest" "j \<le> 19"
  shows "content_length_loop mem pos 0 nb 0 = content_length_loop mem (Suc pos + j) (Suc j) nb 0"
    "drop (Suc pos + j) mem = ds @ e # rest"
proof -
  have len: "pos < length mem" using assms(1) by (metis append_Cons drop_all list.distinct(1) not_le)
  have dr: "drop pos mem = mem ! pos # drop (Suc pos) mem" using len by (simp add: Cons_nth_drop_Suc)
  then have colon: "mem ! pos = CHR '':''"
    and tl: "drop (Suc pos) mem = replicate j (CHR '' '') @ ds @ e # rest"
    using assms(1) by simp_all
  then have "length (drop (Suc pos) mem) = j + length ds + Suc (length rest)" by simp
  then have fits: "Suc pos + j \<le> length mem" by simp
  have "content_length_loop mem pos 0 nb 0 = content_length_loop mem (Suc pos) 1 nb 0"
    using len colon
    by (subst content_length_loop.simps)
      (simp add: Let_def MAX_ITERATIONS_def MAX_LENGTH_OF_CONTEMT_LENGTH_CHARS_def CR_def LF_def)
  also have "\<dots> = content_length_loop mem (Suc pos + j) (1 + j) nb 0"
    using tl fits assms(2) by (intro content_length_spaces) simp_all
  finally show "content_length_loop mem pos 0 nb 0 =
      content_length_loop mem (Suc pos + j) (Suc j) nb 0" by simp
  have "drop (Suc pos + j) mem = drop j (drop (Suc pos) mem)" by (simp add: add.commute)
  then show "drop (Suc pos + j) mem = ds @ e # rest" using tl by simp
qed

lemma content_length_end:
  assumes "drop pos mem = e # rest" "e = CR \<or> e = LF"
  shows "content_length_loop mem pos it nb n = Inr (Some (nb, n))"
proof -
  have "pos < length mem" using assms(1) by (metis drop_all list.distinct(1) not_le)
  moreover from this have "mem ! pos = e" using assms(1) by (metis hd_drop_conv_nth list.sel(1))
  ultimately show ?thesis using assms(2) by (subst content_length_loop.simps) (auto simp: Let_def)
qed

lemma content_length_value:
  assumes "drop pos mem = '':'' @ replicate j (CHR '' '') @ ds @ e # rest" "j \<le> 19"
    "\<forall>c\<in>set ds. is_digit c" "length ds \<le> 9" "e = CR \<or> e = LF"
  shows "content_length_loop mem pos 0 (replicate 9 NUL) 0 =
     Inr (Some (blit (replicate 9 NUL) 0 ds, length ds))"
proof -
  note c = content_length_colon [OF assms(1,2)]
  have "length (drop (Suc pos + j) mem) = length ds + Suc (length rest)"
    unfolding c(2) by simp
  then have fits: "Suc pos + j + length ds \<le> length mem" by simp
  have "drop (Suc pos + j + length ds) mem = drop (length ds) (drop (Suc pos + j) mem)"
    by (simp add: add.commute)
  then have "drop (Suc pos + j + length ds) mem = e # rest" unfolding c(2) by simp
  from content_length_end [OF this assms(5)] show ?thesis
    using content_length_digits [of ds "Suc pos + j" mem "Suc j" 0 "replicate 9 NUL"]
      c fits assms by simp
qed


text \<open>The search for the header name, shared by the theorems about the header's value.\<close>

definition content_length_header :: "nat \<Rightarrow> byte list \<Rightarrow> byte list" where
  "content_length_header j ds = content_length_key @ replicate j (CHR '' '') @ ds"

lemma content_length_found:
  assumes "buff = pre @ content_length_header j ds @ e # rest" "unat len \<le> length buff"
    "unat len < 2 ^ 63" "first_occ content_length_key (take (unat len) buff) = Some (length pre)"
  shows "c_u_str_find_pattern (Some content_length_key)
       (word_of_nat (length content_length_key)) (Some buff) len = Inr (int (length pre))"
    "drop (length pre + 14) buff = '':'' @ replicate j (CHR '' '') @ ds @ e # rest"
proof -
  have "length content_length_key \<le> unat len"
    using first_occ_bound [OF assms(4)] assms(2) by simp
  then show "c_u_str_find_pattern (Some content_length_key)
       (word_of_nat (length content_length_key)) (Some buff) len = Inr (int (length pre))"
    using fnd.find_whole [of content_length_key len buff] assms(2-4)
    by (simp add: content_length_key_def)
  show "drop (length pre + 14) buff = '':'' @ replicate j (CHR '' '') @ ds @ e # rest"
    by (simp add: assms(1) content_length_header_def content_length_key_def)
qed

lemma content_length_parsed:
  assumes "buff = pre @ content_length_header j ds @ e # rest" "unat len \<le> length buff"
    "unat len < 2 ^ 63" "first_occ content_length_key (take (unat len) buff) = Some (length pre)"
    "j \<le> 19" "\<forall>c\<in>set ds. is_digit c" "length ds \<le> 9" "e = CR \<or> e = LF"
  shows "http_get_content_length_headder buff len = Inr (int (dec_value ds))"
proof -
  note f = content_length_found [OF assms(1-4)]
  have loop: "content_length_loop buff (length pre + 14) 0 (replicate 9 NUL) 0 =
      Inr (Some (blit (replicate 9 NUL) 0 ds, length ds))"
    using content_length_value [OF f(2) assms(5-8)] .
  have idx: "nat (int (length pre) + 14) = length pre + 14" by simp
  have n: "unat (word_of_nat (length ds) :: size_t) = length ds"
    using assms(7) by (simp add: unat_of_nat)
  have tk: "take (length ds) (blit (replicate 9 NUL) 0 ds) = ds" by (simp add: blit_def)
  have "filter is_digit ds = ds" using assms(6) by (simp add: filter_id_conv)
  then have "parse_str_to_int (blit (replicate 9 NUL) 0 ds) (word_of_nat (length ds)) =
      Inr (int (dec_value ds))"
    using parse_str_to_int_decimal [of "word_of_nat (length ds)" "blit (replicate 9 NUL) 0 ds"]
      n tk assms(6,7) by simp
  then show ?thesis
    using f(1) loop idx
    by (cases ds) (simp_all add: http_get_content_length_headder_def
        MAX_LENGTH_OF_CONTEMT_LENGTH_CHARS_def)
qed

section \<open>Looking a field up\<close>

text \<open>
  A header in which the field \<open>key\<close> has the value \<open>v\<close>: the first place where the key and a colon
  stand, then the value up to the next CRLF.
\<close>

definition header_has :: "byte list \<Rightarrow> byte list \<Rightarrow> nat \<Rightarrow> byte list \<Rightarrow> bool" where
  "header_has txt key k v \<longleftrightarrow> first_occ (key @ '':'') txt = Some k \<and>
     first_occ CRLF (drop (k + length key + 1) txt) = Some (length v) \<and>
     v = take (length v) (drop (k + length key + 1) txt)"

text \<open>A header written as text has its fields.\<close>

lemma header_has_text:
  assumes "first_occ (key @ '':'') (pre @ key @ '':'' @ v @ CRLF @ rest) = Some (length pre)"
    "first_occ CRLF (v @ CRLF @ rest) = Some (length v)"
  shows "header_has (pre @ key @ '':'' @ v @ CRLF @ rest) key (length pre) v"
  using assms by (simp add: header_has_def)

lemma doted_key_ok: "unat key_size \<le> length key \<Longrightarrow>
    doted_key key key_size = Inr (take (unat key_size) key @ '':'')"
  by (simp add: doted_key_def)

lemma find_doted_key:
  assumes "unat key_size \<le> length key" "unat sz \<le> length hdr" "unat sz < 2 ^ 63"
    "unat key_size < unat sz"
  shows "c_u_str_find_pattern (Some (take (unat key_size) key @ '':'')) (key_size + 1) (Some hdr) sz =
     Inr (case first_occ (take (unat key_size) key @ '':'') (take (unat sz) hdr) of
            None \<Rightarrow> - 1 | Some k \<Rightarrow> int k)"
proof -
  let ?dk = "take (unat key_size) key @ '':''"
  have "length ?dk = unat key_size + 1" using assms(1) by simp
  moreover have "word_of_nat (unat key_size + 1) = key_size + 1" by simp
  ultimately show ?thesis
    using fnd.find_whole [of ?dk sz hdr] assms(2-4) by (simp add: add.commute)
qed

lemma find_value_end:
  assumes "unat n \<le> length rest" "unat n < 2 ^ 63" "2 \<le> unat n"
  shows "c_u_str_find_pattern (Some CRLF) 2 (Some rest) n =
     Inr (case first_occ CRLF (take (unat n) rest) of None \<Rightarrow> - 1 | Some k \<Rightarrow> int k)"
  using fnd.find_whole [of CRLF n rest] assms by (simp add: CRLF_def)

text \<open>
  The sizes that come up once the key is found at \<open>k\<close>: where the value starts and how much of
  the header is left there.
\<close>

lemma value_sizes:
  assumes "unat (sz :: size_t) < 2 ^ 63" "k + unat (key_size :: size_t) + 1 \<le> unat sz"
  shows "unat (sz - word_of_int (int k + uint key_size + 1)) = unat sz - (k + unat key_size + 1)"
    "unat (sz - word_of_int (int k)) = unat sz - k"
    "nat (int k + uint key_size + 1) = k + unat key_size + 1"
    "unat (word_of_int (int k + uint key_size + 1) :: size_t) = k + unat key_size + 1"
proof -
  have e: "int k + uint key_size + 1 = int (k + unat key_size + 1)" by simp
  show u: "unat (word_of_int (int k + uint key_size + 1) :: size_t) = k + unat key_size + 1"
    unfolding e using assms by (simp only: of_int_of_nat_eq unat_of_nat) simp
  show "nat (int k + uint key_size + 1) = k + unat key_size + 1" unfolding e by (simp only: nat_int)
  show "unat (sz - word_of_int (int k + uint key_size + 1)) = unat sz - (k + unat key_size + 1)"
    using u assms(2) by (subst unat_sub_no_wrap) (simp_all add: word_le_nat_alt)
  have "unat (word_of_int (int k) :: size_t) = k"
    using assms by (simp only: of_int_of_nat_eq unat_of_nat) simp
  then show "unat (sz - word_of_int (int k)) = unat sz - k"
    using assms(2) by (subst unat_sub_no_wrap) (simp_all add: word_le_nat_alt)
qed


text \<open>
  Both searches of a lookup on a header that has the field.
\<close>

lemma lookup_hits:
  assumes "header_has (take (unat sz) hdr) (take (unat key_size) key) k v"
    "unat key_size \<le> length key" "unat sz \<le> length hdr" "unat sz < 2 ^ 63"
  shows "c_u_str_find_pattern (Some (take (unat key_size) key @ '':'')) (key_size + 1) (Some hdr) sz
      = Inr (int k)"
    "c_u_str_find_pattern (Some CRLF) 2 (advance hdr (int k + uint key_size + 1))
       (sz - word_of_int (int k + uint key_size + 1)) = Inr (int (length v))"
    "c_u_str_find_pattern (Some CRLF) 2 (advance hdr (int k + uint key_size + 1))
       (sz - word_of_int (int k)) = Inr (int (length v))"
    "k + unat key_size + 1 + length v + 2 \<le> unat sz"
    "v = take (length v) (drop (k + unat key_size + 1) hdr)"
proof -
  let ?dk = "take (unat key_size) key @ '':''" and ?s = "k + unat key_size + 1"
  let ?txt = "take (unat sz) hdr"
  have lk: "length (take (unat key_size) key) = unat key_size" using assms(2) by simp
  from assms(1) lk have occ: "first_occ ?dk ?txt = Some k"
    "first_occ CRLF (drop ?s ?txt) = Some (length v)" "v = take (length v) (drop ?s ?txt)"
    by (simp_all add: header_has_def)
  from first_occ_bound [OF occ(1)] lk assms(3) have kb: "?s \<le> unat sz" by simp
  from first_occ_bound [OF occ(2)] assms(3) have vb: "length v + 2 \<le> unat sz - ?s"
    by (simp add: CRLF_def)
  then show "?s + length v + 2 \<le> unat sz" by simp
  show "c_u_str_find_pattern (Some ?dk) (key_size + 1) (Some hdr) sz = Inr (int k)"
    using find_doted_key [OF assms(2-4)] kb occ(1) by simp
  note vs = value_sizes [OF assms(4) kb]
  show "c_u_str_find_pattern (Some CRLF) 2 (advance hdr (int k + uint key_size + 1))
       (sz - word_of_int (int k + uint key_size + 1)) = Inr (int (length v))"
    using find_value_end [of "sz - word_of_int (int k + uint key_size + 1)" "drop ?s hdr"]
      vs kb vb assms(3,4) occ(2) by (simp add: advance_def drop_take)
  have tk: "take (length v) (drop ?s ?txt) = take (length v) (drop ?s hdr)"
    using vb by (simp add: drop_take min_def)
  then show "v = take (length v) (drop ?s hdr)" using occ(3) by simp
  have hit: "prefix CRLF (drop (length v) (drop ?s ?txt))"
    and no: "\<And>j. j < length v \<Longrightarrow> \<not> prefix CRLF (drop j (drop ?s ?txt))"
    using first_occ_SomeD [OF occ(2)] by blast+
  have sub: "prefix CRLF (drop j (drop ?s hdr)) = prefix CRLF (drop j (drop ?s ?txt))"
    if "j \<le> length v" for j
  proof -
    have "take 2 (drop j (drop ?s hdr)) = take 2 (drop j (drop ?s ?txt))"
      using that vb by (simp add: drop_take min_def)
    moreover have "prefix CRLF z \<longleftrightarrow> take 2 z = CRLF" for z :: "byte list"
      by (auto simp: prefix_def CRLF_def) (metis append_take_drop_id append_Cons append_Nil)
    ultimately show ?thesis by simp
  qed
  have "first_occ CRLF (drop ?s hdr) = Some (length v)"
    using hit no sub by (intro first_occI) (auto simp: CRLF_def)
  then show "c_u_str_find_pattern (Some CRLF) 2 (advance hdr (int k + uint key_size + 1))
       (sz - word_of_int (int k)) = Inr (int (length v))"
    using fnd.find_in_object [of 2 CRLF "sz - word_of_int (int k)" "drop ?s hdr" "length v"]
      vs kb vb assms(4) by (simp add: advance_def CRLF_def)
qed

text \<open>The two ways to fetch a field: into an array, and into an empty buffer.\<close>

lemma header_field_copied:
  assumes "header_has (take (unat sz) hdr) (take (unat key_size) key) k v"
    "unat key_size \<le> length key" "unat sz \<le> length hdr" "unat sz < 2 ^ 63" "key_size \<noteq> 0"
    "unat buf_size \<le> length buf" "buf_size \<noteq> 0"
  shows "c_http_get_header_field (Some hdr) sz (Some key) key_size (Some buf) buf_size =
     Inr (if length v \<le> unat buf_size \<and> int (length v) \<le> INT_MAX
          then (int (length v), Some (v @ drop (length v) buf)) else (- 4, Some buf))"
proof -
  note l = lookup_hits [OF assms(1-4)]
  note vs = value_sizes [OF assms(4), of k key_size]
  have "sz \<noteq> 0" using l(4) by auto
  moreover have "unat (word_of_nat (length v) :: size_t) = length v"
    using l(4) assms(4) by (simp add: unat_of_nat)
  then have "buf_size < word_of_int (int (length v)) \<longleftrightarrow> \<not> length v \<le> unat buf_size"
    by (simp add: word_less_nat_alt not_le)
  moreover have "length (take (length v) (drop (k + unat key_size + 1) hdr)) = length v"
    using l(5) by simp
  ultimately show ?thesis
    using l assms vs
    by (simp add: c_http_get_header_field_def doted_key_ok Let_def blit_def)
qed

text \<open>A field that is not there.\<close>

lemma header_field_absent:
  assumes "first_occ (take (unat key_size) key @ '':'') (take (unat sz) hdr) = None"
    "unat key_size \<le> length key" "unat sz \<le> length hdr" "unat sz < 2 ^ 63" "unat key_size < unat sz"
  shows "key_size \<noteq> 0 \<Longrightarrow> buf_size \<noteq> 0 \<Longrightarrow>
      c_http_get_header_field (Some hdr) sz (Some key) key_size (Some buf) buf_size = Inr (0, Some buf)"
    "c_http_find_header_field_key (Some hdr) sz (Some key) key_size = Inr (- 1)"
proof -
  have "sz \<noteq> 0" using assms(5) by auto
  then show "key_size \<noteq> 0 \<Longrightarrow> buf_size \<noteq> 0 \<Longrightarrow>
      c_http_get_header_field (Some hdr) sz (Some key) key_size (Some buf) buf_size = Inr (0, Some buf)"
    "c_http_find_header_field_key (Some hdr) sz (Some key) key_size = Inr (- 1)"
    using find_doted_key [OF assms(2-5)] assms(1,2)
    by (simp_all add: c_http_get_header_field_def c_http_find_header_field_key_def doted_key_ok)
qed

lemma header_field_appended:
  assumes "heap_ok h" "alloc_ok h" "buf_ok h a" "buf_ok h r" "contents h r = []"
    "buf_block h a \<noteq> buf_block h r" "header_has (contents h a) (take (unat key_size) key) k v"
    "unat key_size \<le> length key" "length (contents h a) < 2 ^ 62"
  shows "\<exists>h1. c_http_buf_get_header_field (Some a) (Some key) key_size (Some r) h =
       Inr (C_HTTP_SUCESS, h1) \<and> buf_ok h1 r \<and> contents h1 r = v \<and>
     contents h1 a = contents h a"
proof -
  from assms(3) obtain ra b bs where b: "cbufs h a = Some ra" "b_buf ra = Ptr b 0"
    "blocks h b = Some bs" "buf_block h a = Some b" "contents h a = take (unat (b_len ra)) bs"
    "unat (b_len ra) \<le> length bs" by (elim buf_okE)
  from assms(4) obtain rr where rr: "cbufs h r = Some rr" by (elim buf_okE)
  have len0: "b_len rr = 0" using length_contents [OF assms(4) rr] assms(5) by (simp add: unat_eq_0)
  have small: "unat (b_len ra) < 2 ^ 62" using assms(9) b(5,6) by simp
  have l: "c_u_str_find_pattern (Some (take (unat key_size) key @ '':'')) (key_size + 1)
      (Some bs) (b_len ra) = Inr (int k)"
    "c_u_str_find_pattern (Some CRLF) 2 (advance bs (int k + uint key_size + 1))
       (b_len ra - word_of_int (int k)) = Inr (int (length v))"
    "k + unat key_size + 1 + length v + 2 \<le> unat (b_len ra)"
    "v = take (length v) (drop (k + unat key_size + 1) bs)"
    using lookup_hits [of "b_len ra" bs key_size key k v] assms(7,8) b(5,6) small by simp_all
  let ?p = "Ptr b (k + unat key_size + 1)" and ?n = "word_of_nat (length v) :: size_t"
  have n: "unat ?n = length v" using l(3) small by (simp add: unat_of_nat)
  have "nat (int k + uint key_size + 1) = k + unat key_size + 1"
    using value_sizes [of "b_len ra" k key_size] small l(3) by simp
  then have view: "c_http_buf_get_header_value_view (Some a) (Some key) key_size h =
      Inr (C_HTTP_SUCESS, Some \<lparr>v_len = ?n, v_buf = ?p\<rparr>)"
    using b l assms(8)
    by (simp add: c_http_buf_get_header_value_view_def c_http_find_header_field_key_def
        doted_key_ok header_field_value_length_def)
  from app.append_to_empty [OF assms(1,2,4,5) b(3), of "k + unat key_size + 1" ?n] b assms(6) l(3) n small
  obtain h1 where h1: "c_u_buffer_append (Some r) ?p ?n h = Inr (0, h1)" "heap_ok h1" "buf_ok h1 r"
    "contents h1 r = take (length v) (drop (k + unat key_size + 1) bs)"
    "only_buf r (the (buf_block h r)) h h1"
    by auto
  have ne: "a \<noteq> r" using assms(6) by auto
  obtain c where c: "buf_block h r = Some c" using assms(4) by (elim buf_okE)
  have "blocks h1 b = Some bs" "cbufs h1 a = Some ra"
    using h1(5) b(1,3,4) c ne assms(6) heap_ok_fresh [OF assms(1) b(3)]
    by (auto simp: only_buf_def)
  then have "contents h1 a = contents h a"
    using b by (simp add: contents_def buf_block_def)
  with view h1 l(4) rr len0 show ?thesis
    by (simp add: c_http_buf_get_header_field_def)
qed

section \<open>Properties\<close>

text \<open>
  C16. Reading the Content-Length header gives back the number whose decimal notation the header
  holds, for every number of at most nine digits after at most nineteen spaces and before the end
  of the line, wherever in the header block the field stands.
\<close>

theorem content_length_roundtrip:
  assumes "buff = pre @ content_length_header j (show_dec n) @ e # rest" "unat len \<le> length buff"
    "unat len < 2 ^ 63" "first_occ content_length_key (take (unat len) buff) = Some (length pre)"
    "j \<le> 19" "n < 10 ^ 9" "e = CR \<or> e = LF"
  shows "http_get_content_length_headder buff len = Inr (int n)"
proof -
  have "length (show_dec n) \<le> 9" using assms(6) by (intro length_show_dec) simp_all
  then show ?thesis
    using content_length_parsed [OF assms(1-5) _ _ assms(7)] show_dec_digits by simp
qed

theorem content_length_roundtrip_witness:
  "http_get_content_length_headder
     (''a:b'' @ [CR, LF] @ content_length_header 1 (show_dec 42) @ CR # [LF, CR, LF]) 26 = Inr 42"
proof -
  have "show_dec 42 = ''42''" by code_simp
  then have "unat (26 :: size_t) \<le>
      length (''a:b'' @ [CR, LF] @ content_length_header 1 (show_dec 42) @ CR # [LF, CR, LF])"
    "first_occ content_length_key (take (unat (26 :: size_t))
      (''a:b'' @ [CR, LF] @ content_length_header 1 (show_dec 42) @ CR # [LF, CR, LF])) =
      Some (length (''a:b'' @ [CR, LF]))"
    by (simp_all add: content_length_header_def content_length_key_def CR_def LF_def)
  then show ?thesis
    using content_length_roundtrip [of _ "''a:b'' @ [CR, LF]" 1 42 CR "[LF, CR, LF]" 26] by simp
qed

text \<open>
  C31. A Content-Length of ten or more digits overflows the nine-byte digit buffer: the guard on the
  number of digits lets a tenth one through, and it is stored past the end of the array.
\<close>

theorem content_length_overflow_ub:
  assumes "buff = pre @ content_length_header j ds @ e # rest" "unat len \<le> length buff"
    "unat len < 2 ^ 63" "first_occ content_length_key (take (unat len) buff) = Some (length pre)"
    "j \<le> 19" "\<forall>c\<in>set ds. is_digit c" "10 \<le> length ds"
  shows "http_get_content_length_headder buff len = Inl (UB OutOfBounds)"
proof -
  note f = content_length_found [OF assms(1-4)]
  note c = content_length_colon [OF f(2) assms(5)]
  let ?p = "Suc (length pre + 14) + j"
  have "length (drop ?p buff) = length ds + Suc (length rest)" unfolding c(2) by simp
  then have "?p + length ds \<le> length buff" by simp
  moreover have "take (length ds) (drop ?p buff) = ds" unfolding c(2) by simp
  ultimately have "content_length_loop buff ?p (Suc j) (replicate 9 NUL) 0 = Inl (UB OutOfBounds)"
    using assms(5-7) by (intro content_length_overflow [of ds]) simp_all
  then have "content_length_loop buff (length pre + 14) 0 (replicate 9 NUL) 0 = Inl (UB OutOfBounds)"
    using c(1) by simp
  moreover have "nat (int (length pre) + 14) = length pre + 14" by simp
  ultimately show ?thesis
    using f(1) by (simp add: http_get_content_length_headder_def
        MAX_LENGTH_OF_CONTEMT_LENGTH_CHARS_def)
qed

theorem content_length_overflow_ub_witness:
  "http_get_content_length_headder
     ([] @ content_length_header 1 ''1234567890'' @ CR # [LF]) 28 = Inl (UB OutOfBounds)"
  by (rule content_length_overflow_ub [OF refl])
    (simp_all add: content_length_header_def content_length_key_def is_digit_code code_of_def)


text \<open>
  C22. For a header block that has the field, \<open>c_http_get_header_field\<close> copies exactly the field's
  value to the front of the caller's array, leaves the rest of the array alone and returns the
  value's length. A value that does not fit in the array or whose length is not an \<open>int\<close> is reported
  by -4, and the array stays as it was.
\<close>

theorem c_http_get_header_field_value:
  assumes "header_has (take (unat sz) hdr) (take (unat key_size) key) k v"
    "unat key_size \<le> length key" "unat sz \<le> length hdr" "unat sz < 2 ^ 63" "key_size \<noteq> 0"
    "unat buf_size \<le> length buf" "buf_size \<noteq> 0"
  shows "c_http_get_header_field (Some hdr) sz (Some key) key_size (Some buf) buf_size =
     Inr (if length v \<le> unat buf_size \<and> int (length v) \<le> INT_MAX
          then (int (length v), Some (v @ drop (length v) buf)) else (- 4, Some buf))"
  using assms by (rule header_field_copied)

definition over_read_heap :: bheap where
  "over_read_heap =
     \<lparr>blocks = [0 \<mapsto> ''Host: ab'' @ CRLF], next_blk = 6, allocs = [], junk = (\<lambda>_ _. NUL),
      cbufs = [5 \<mapsto> \<lparr>b_cap = 10, b_len = 8, b_avl = 2, b_buf = Ptr 0 0\<rparr>]\<rparr>"

definition sample_header :: "byte list" where
  "sample_header = ''GET / HTTP/1.1'' @ CRLF @ ''Accept: a/b'' @ CRLF @ CRLF"

theorem c_http_get_header_field_value_witness:
  "c_http_get_header_field (Some sample_header) 31 (Some ''Accept'') 6 (Some ''......'') 6 =
     Inr (4, Some ('' a/b'' @ ''..'')) \<and>
   c_http_get_header_field (Some sample_header) 31 (Some ''Accept'') 6 (Some ''......'') 3 = Inr (- 4, Some ''......'')"
proof -
  have "header_has (take (unat (31 :: size_t)) sample_header) (take (unat (6 :: size_t)) ''Accept'')
      16 '' a/b''" "length sample_header = 31"
    by (simp_all add: header_has_def sample_header_def CRLF_def CR_def LF_def)
  then show ?thesis
    using c_http_get_header_field_value [of 31 sample_header 6 "''Accept''" 16 "'' a/b''" 6 "''......''"]
      c_http_get_header_field_value [of 31 sample_header 6 "''Accept''" 16 "'' a/b''" 3 "''......''"]
    by (simp add: INT_MAX_def)
qed

text \<open>
  C21. The lookup into a \<open>CmonBuffer\<close> and the lookup into an array agree: on the same header block
  either both report that the field is missing, and change nothing, or the empty result buffer is
  filled with exactly the bytes that the other one copies to the front of the array, although the
  macro that measures the value lets the search run past the end of the header. The buffer grows,
  so it takes the values too that the array has no room for. The field is taken to end in CRLF.
\<close>

theorem c_http_buf_get_header_field_value:
  assumes "heap_ok h" "alloc_ok h" "buf_ok h a" "buf_ok h r" "contents h r = []"
    "buf_block h a \<noteq> buf_block h r" "hdr = contents h a" "length hdr < 2 ^ 62"
    "unat key_size \<le> length key" "key_size \<noteq> 0" "unat key_size < length hdr"
    "unat arr_size \<le> length arr" "arr_size \<noteq> 0"
    "first_occ (take (unat key_size) key @ '':'') hdr = None \<or> header_has hdr (take (unat key_size) key) k v"
  shows "if first_occ (take (unat key_size) key @ '':'') hdr = None
     then c_http_get_header_field (Some hdr) (word_of_nat (length hdr)) (Some key) key_size (Some arr) arr_size =
         Inr (0, Some arr) \<and>
       c_http_buf_get_header_field (Some a) (Some key) key_size (Some r) h = Inr (C_HTTP_KEY_NOT_FOUND, h)
     else \<exists>h1. c_http_buf_get_header_field (Some a) (Some key) key_size (Some r) h = Inr (C_HTTP_SUCESS, h1) \<and>
       c_http_get_header_field (Some hdr) (word_of_nat (length hdr)) (Some key) key_size (Some arr) arr_size =
         Inr (let val = contents h1 r in
              if length val \<le> unat arr_size \<and> int (length val) \<le> INT_MAX
              then (int (length val), Some (val @ drop (length val) arr)) else (- 4, Some arr)) \<and>
       buf_ok h1 r \<and> contents h1 r = v \<and> contents h1 a = hdr"
proof -
  have n: "unat (word_of_nat (length hdr) :: size_t) = length hdr" using assms(8) by (simp add: unat_of_nat)
  show ?thesis
  proof (cases "first_occ (take (unat key_size) key @ '':'') hdr = None")
    case True
    obtain ra b bs where b: "cbufs h a = Some ra" "b_buf ra = Ptr b 0" "blocks h b = Some bs"
      "contents h a = take (unat (b_len ra)) bs" "unat (b_len ra) \<le> length bs"
      using assms(3) by (elim buf_okE)
    obtain rr where rr: "cbufs h r = Some rr" using assms(4) by (elim buf_okE)
    have "b_len rr = 0" using length_contents [OF assms(4) rr] assms(5) by (simp add: unat_eq_0)
    moreover have "c_http_find_header_field_key (Some bs) (b_len ra) (Some key) key_size = Inr (- 1)"
      using b assms(7-9,11) True by (intro header_field_absent(2)) simp_all
    ultimately have "c_http_buf_get_header_field (Some a) (Some key) key_size (Some r) h = Inr (C_HTTP_KEY_NOT_FOUND, h)"
      using b(1-3) rr by (simp add: c_http_buf_get_header_field_def c_http_buf_get_header_value_view_def)
    moreover have "c_http_get_header_field (Some hdr) (word_of_nat (length hdr)) (Some key) key_size (Some arr) arr_size =
         Inr (0, Some arr)"
      using True n assms(8-11,13) by (intro header_field_absent(1)) simp_all
    ultimately show ?thesis using True by simp
  next
    case False
    have has: "header_has (contents h a) (take (unat key_size) key) k v" using False assms(14) assms(7) by metis
    obtain h1 where h1: "c_http_buf_get_header_field (Some a) (Some key) key_size (Some r) h = Inr (C_HTTP_SUCESS, h1)"
      "buf_ok h1 r" "contents h1 r = v" "contents h1 a = contents h a"
      using header_field_appended [OF assms(1-6) has assms(9)] assms(7,8) by blast
    then show ?thesis
      using False has n assms(7-13) header_field_copied [of "word_of_nat (length hdr)" hdr key_size key k v arr_size arr]
      by (simp add: Let_def)
  qed
qed

definition sample_http_heap :: bheap where
  "sample_http_heap = \<lparr>blocks = [0 \<mapsto> sample_header @ ''XYZ'', 2 \<mapsto> ''....''], next_blk = 8,
     allocs = [], junk = (\<lambda>_ _. NUL),
     cbufs = [5 \<mapsto> \<lparr>b_cap = 34, b_len = 31, b_avl = 3, b_buf = Ptr 0 0\<rparr>,
              7 \<mapsto> \<lparr>b_cap = 4, b_len = 0, b_avl = 4, b_buf = Ptr 2 0\<rparr>]\<rparr>"

theorem c_http_buf_get_header_field_value_witness:
  "(\<exists>h1. c_http_buf_get_header_field (Some 5) (Some ''Accept'') 6 (Some 7) sample_http_heap =
       Inr (C_HTTP_SUCESS, h1) \<and> contents h1 7 = '' a/b'') \<and>
   c_http_buf_get_header_field (Some 5) (Some ''Host'') 4 (Some 7) sample_http_heap =
     Inr (C_HTTP_KEY_NOT_FOUND, sample_http_heap)"
proof -
  let ?h = sample_http_heap
  have c: "contents ?h 5 = sample_header" "contents ?h 7 = []"
    "buf_block ?h 5 = Some 0" "buf_block ?h 7 = Some 2"
    by (simp_all add: sample_http_heap_def contents_def buf_block_def sample_header_def CRLF_def)
  have ok: "heap_ok ?h" "alloc_ok ?h" "buf_ok ?h 5" "buf_ok ?h 7"
    by (simp_all add: sample_http_heap_def heap_ok_def alloc_ok_def next_event_def buf_ok_def
        buf_block_def sample_header_def CRLF_def)
  have len: "length sample_header = 31" by (simp add: sample_header_def CRLF_def)
  have has: "header_has sample_header (take (unat (6 :: size_t)) ''Accept'') 16 '' a/b''"
    "first_occ (take (unat (6 :: size_t)) ''Accept'' @ '':'') sample_header \<noteq> None"
    "first_occ (take (unat (4 :: size_t)) ''Host'' @ '':'') sample_header = None"
    by (simp_all add: header_has_def sample_header_def CRLF_def CR_def LF_def)
  show ?thesis
    using c_http_buf_get_header_field_value [OF ok c(2) _ c(1) [symmetric], of 6 "''Accept''" 6 "''......''" 16 "'' a/b''"]
      c_http_buf_get_header_field_value [OF ok c(2) _ c(1) [symmetric], of 4 "''Host''" 6 "''......''" 16 "'' a/b''"]
      has len c by auto
qed

text \<open>
  C33. When the last line of the header has the key but no CRLF after it, the lookup into an array
  reports the missing CRLF (-3), while the view into a \<open>CmonBuffer\<close> succeeds with a value that
  reaches past the header's length, if a CRLF stands in the block within \<open>key_size + 1\<close> bytes of it.
\<close>

theorem c_http_value_view_over_reads:
  assumes "cbufs h a = Some r" "b_buf r = Ptr b 0" "blocks h b = Some bs"
    "unat (b_len r) \<le> length bs" "unat (b_len r) < 2 ^ 62" "unat key_size \<le> length key"
    "key_size \<noteq> 0" "first_occ (take (unat key_size) key @ '':'') (take (unat (b_len r)) bs) = Some k"
    "s = k + unat key_size + 1" "s + 2 \<le> unat (b_len r)"
    "first_occ CRLF (drop s (take (unat (b_len r)) bs)) = None"
    "first_occ CRLF (drop s bs) = Some m" "m + 2 \<le> unat (b_len r) - k"
    "buf_size \<noteq> 0"
  shows "c_http_get_header_field (Some bs) (b_len r) (Some key) key_size (Some arr) buf_size =
       Inr (- 3, Some arr) \<and>
     c_http_buf_get_header_value_view (Some a) (Some key) key_size h =
       Inr (C_HTTP_SUCESS, Some \<lparr>v_len = word_of_nat m, v_buf = Ptr b s\<rparr>) \<and>
     unat (b_len r) < s + m + 2"
proof (intro conjI)
  have kb: "k + unat key_size + 1 \<le> unat (b_len r)" using assms(9,10) by simp
  have small: "unat (b_len r) < 2 ^ 63" using assms(5) by simp
  note vs = value_sizes [OF small kb]
  have key_at: "c_u_str_find_pattern (Some (take (unat key_size) key @ '':'')) (key_size + 1)
      (Some bs) (b_len r) = Inr (int k)"
    using find_doted_key [OF assms(6,4) small] kb assms(8) by simp
  have "c_u_str_find_pattern (Some CRLF) 2 (advance bs (int k + uint key_size + 1))
       (b_len r - word_of_int (int k + uint key_size + 1)) = Inr (- 1)"
    using find_value_end [of "b_len r - word_of_int (int k + uint key_size + 1)" "drop s bs"]
      vs assms(4,9-11) small by (simp add: advance_def drop_take)
  moreover have "b_len r \<noteq> 0" using kb by auto
  ultimately show "c_http_get_header_field (Some bs) (b_len r) (Some key) key_size (Some arr) buf_size =
       Inr (- 3, Some arr)"
    using key_at assms(6,7,14) by (simp add: c_http_get_header_field_def doted_key_ok Let_def)
  have "c_u_str_find_pattern (Some CRLF) 2 (advance bs (int k + uint key_size + 1))
       (b_len r - word_of_int (int k)) = Inr (int m)"
    using fnd.find_in_object [of 2 CRLF "b_len r - word_of_int (int k)" "drop s bs" m]
      vs assms(9,12,13) small by (simp add: advance_def CRLF_def)
  then show "c_http_buf_get_header_value_view (Some a) (Some key) key_size h =
       Inr (C_HTTP_SUCESS, Some \<lparr>v_len = word_of_nat m, v_buf = Ptr b s\<rparr>)"
    using key_at assms(1-3,6,9) vs(3)
    by (simp add: c_http_buf_get_header_value_view_def c_http_find_header_field_key_def
        doted_key_ok header_field_value_length_def)
  show "unat (b_len r) < s + m + 2"
  proof (rule ccontr)
    assume far: "\<not> unat (b_len r) < s + m + 2"
    have "take 2 (drop m (drop s bs)) = CRLF"
      using first_occ_SomeD [OF assms(12)] by (auto simp: prefix_def CRLF_def)
    moreover have "take 2 (drop m (drop s (take (unat (b_len r)) bs))) = take 2 (drop m (drop s bs))"
      using far by (simp add: drop_take min_def)
    ultimately have "prefix CRLF (drop m (drop s (take (unat (b_len r)) bs)))"
      by (metis take_is_prefix)
    with first_occ_NoneD [OF assms(11)] show False by blast
  qed
qed

theorem c_http_value_view_over_reads_witness:
  "c_http_buf_get_header_value_view (Some 5) (Some ''Host'') 4 over_read_heap =
     Inr (C_HTTP_SUCESS, Some \<lparr>v_len = 3, v_buf = Ptr 0 5\<rparr>)"
proof -
  let ?r = "\<lparr>b_cap = 10, b_len = 8, b_avl = 2, b_buf = Ptr 0 0\<rparr>"
  let ?bs = "''Host: ab'' @ CRLF"
  have h: "cbufs over_read_heap 5 = Some ?r" "blocks over_read_heap 0 = Some ?bs"
    by (simp_all add: over_read_heap_def)
  have p: "b_buf ?r = Ptr 0 0" by simp
  have l: "unat (b_len ?r) \<le> length ?bs" "unat (b_len ?r) < 2 ^ 62"
    "unat (4 :: size_t) \<le> length ''Host''" "(4 :: size_t) \<noteq> 0" "(1 :: size_t) \<noteq> 0"
    "5 = 0 + unat (4 :: size_t) + 1" "5 + 2 \<le> unat (b_len ?r)" "3 + 2 \<le> unat (b_len ?r) - 0"
    by (simp_all add: CRLF_def)
  have u: "unat (b_len ?r) = 8" "unat (4 :: size_t) = 4" by simp_all
  have f: "first_occ (take (unat (4 :: size_t)) ''Host'' @ '':'') (take (unat (b_len ?r)) ?bs) = Some 0"
    "first_occ CRLF (drop 5 (take (unat (b_len ?r)) ?bs)) = None"
    "first_occ CRLF (drop 5 ?bs) = Some 3"
    unfolding u by (code_simp, code_simp, code_simp)
  have n: "(word_of_nat 3 :: size_t) = 3" by simp
  from c_http_value_view_over_reads [OF h(1) p h(2) l(1-4) f(1) l(6,7) f(2,3) l(8,5)]
  show ?thesis unfolding n by blast
qed

text \<open>
  A header block that is shorter than the key and its colon makes the lookup undefined: the
  search wraps its bound and runs off the end of the block, instead of reporting that the key is
  absent.
\<close>

theorem c_http_get_header_field_short_header:
  assumes "unat sz \<le> unat key_size" "sz \<noteq> 0" "unat key_size = length key"
    "length key + length hdr + 1 < 2 ^ 64" "first_occ (key @ '':'') hdr = None" "buf_size \<noteq> 0"
  shows "c_http_get_header_field (Some hdr) sz (Some key) key_size (Some buf) buf_size =
     Inl (UB OutOfBounds)"
proof -
  have ks: "unat (key_size + 1) = unat key_size + 1"
    using assms(3,4) unat_add_no_wrap [of key_size 1] by simp
  have "key_size \<noteq> 0" using assms(1,2) by (auto simp: unat_eq_0)
  moreover have "unat (sz - (key_size + 1)) = 2 ^ 64 + unat sz - unat (key_size + 1)"
    using ks assms(1) by (intro find_pattern_wrapped_limit) simp
  then have "length hdr \<le> unat (sz - (key_size + 1))" using ks assms(3,4) by simp
  then have "c_u_str_find_pattern (Some (key @ '':'')) (key_size + 1) (Some hdr) sz =
      Inl (UB OutOfBounds)"
    using search_loop_runs_off [of "unat (key_size + 1)" "key @ '':''" hdr] ks assms(3-5)
      first_occ_NoneD [OF assms(5)]
    by (simp add: c_u_str_find_pattern_def)
  ultimately show ?thesis
    using assms(2,3,6) by (simp add: c_http_get_header_field_def doted_key_ok)
qed

theorem c_http_get_header_field_short_header_witness:
  "c_http_get_header_field (Some ''GET /'') 5 (Some ''Accept'') 6 (Some ''....'') 4 =
     Inl (UB OutOfBounds)"
  by (rule c_http_get_header_field_short_header) simp_all

text \<open>
  \<open>c_http_set_headder\<close> never sets anything: whenever it returns, it returns 0 and the heap, and
  with it the header, is as before, whatever the key and the content.
\<close>

theorem c_http_set_headder_no_effect:
  assumes "c_http_set_headder header key key_size content content_size h = Inr (rc, h1)"
  shows "rc = 0 \<and> h1 = h"
  using assms by (auto simp: c_http_set_headder_def bindE_eq_Inr)

theorem c_http_set_headder_no_effect_witness:
  "\<exists>rc h1. c_http_set_headder (Some 5) (Some ''Accept'') 6 (Some ''x'') 1 sample_http_heap =
     Inr (rc, h1) \<and> rc = 0 \<and> h1 = sample_http_heap"
proof -
  have "c_http_set_headder (Some 5) (Some ''Accept'') 6 (Some ''x'') 1 sample_http_heap \<noteq> Inl e" for e
  proof -
    have "header_has (take (unat (31 :: size_t)) (sample_header @ ''XYZ''))
        (take (unat (6 :: size_t)) ''Accept'') 16 '' a/b''" "length sample_header = 31"
      by (simp_all add: header_has_def sample_header_def CRLF_def CR_def LF_def)
    note l = lookup_hits [OF this(1), unfolded length_append this(2)]
    show ?thesis using l(1,2)
      by (simp add: c_http_set_headder_def sample_http_heap_def c_http_get_key_value_range_def
          doted_key_def)
  qed
  then obtain rc h1 where
    r: "c_http_set_headder (Some 5) (Some ''Accept'') 6 (Some ''x'') 1 sample_http_heap = Inr (rc, h1)"
    by (cases "c_http_set_headder (Some 5) (Some ''Accept'') 6 (Some ''x'') 1 sample_http_heap") auto
  from c_http_set_headder_no_effect [OF r] r show ?thesis by simp
qed

end
