(* ===== verification/Posix_Io.thy ===== *)
theory Posix_Io
  imports Cmon_Prelude
begin

text \<open>
  The file descriptors the code reads and writes: for every open descriptor the stream that is
  still to arrive and the bytes written to it so far. What the peer and the kernel decide is a
  script: the arrivals come in chunks (a \<open>read\<close> returns at most one chunk, and the rest of a
  chunk that is longer than the buffer stays), a read or a write may fail, a write may accept
  only a part of its bytes, and the end of the script is the end of the stream. A script of
  writes that has run out accepts everything. A theorem about every script is a theorem about
  every peer.
\<close>

section \<open>Descriptors\<close>

datatype in_event = Arrive "byte list" | In_Err

datatype out_event = Take nat | Out_Err

record conn =
  incoming :: "in_event list"
  outgoing :: "byte list"
  out_script :: "out_event list"

type_synonym net = "int \<Rightarrow> conn option"

fun take_in :: "nat \<Rightarrow> in_event list \<Rightarrow> byte list option \<times> in_event list" where
  "take_in n [] = (Some [], [])"
| "take_in n (In_Err # es) = (None, es)"
| "take_in n (Arrive bs # es) =
     (if bs = [] then take_in n es
      else if n = 0 then (Some [], Arrive bs # es)
      else (Some (take n bs), if length bs \<le> n then es else Arrive (drop n bs) # es))"

text \<open>\<open>read\<close> and \<open>recv\<close>: \<open>None\<close> is a return of -1, an empty list a return of 0.\<close>

definition sys_read :: "int \<Rightarrow> nat \<Rightarrow> net \<Rightarrow> byte list option \<times> net" where
  "sys_read fd n w = (case w fd of
      None \<Rightarrow> (None, w)
    | Some c \<Rightarrow> (case take_in n (incoming c) of
        (r, es) \<Rightarrow> (r, w(fd \<mapsto> c\<lparr>incoming := es\<rparr>))))"

text \<open>\<open>recv\<close> with \<open>MSG_PEEK\<close>: the same data, left in the stream; an error is consumed.\<close>

definition sys_peek :: "int \<Rightarrow> nat \<Rightarrow> net \<Rightarrow> byte list option \<times> net" where
  "sys_peek fd n w = (case sys_read fd n w of
      (None, w1) \<Rightarrow> (None, w1)
    | (Some bs, w1) \<Rightarrow> (Some bs, w))"

definition sys_write :: "int \<Rightarrow> byte list \<Rightarrow> net \<Rightarrow> int \<times> net" where
  "sys_write fd bs w = (case w fd of
      None \<Rightarrow> (- 1, w)
    | Some c \<Rightarrow> (case out_script c of
        [] \<Rightarrow> (int (length bs), w(fd \<mapsto> c\<lparr>outgoing := outgoing c @ bs\<rparr>))
      | Out_Err # es \<Rightarrow> (- 1, w(fd \<mapsto> c\<lparr>out_script := es\<rparr>))
      | Take k # es \<Rightarrow> (int (min k (length bs)),
          w(fd \<mapsto> c\<lparr>outgoing := outgoing c @ take k bs, out_script := es\<rparr>))))"

text \<open>\<open>close\<close>: the connection as it is left, with all that was written to it, and the other descriptors.\<close>

definition sys_close :: "int \<Rightarrow> net \<Rightarrow> conn option \<times> net" where
  "sys_close fd w = (w fd, w(fd := None))"

section \<open>What a read delivers\<close>

text \<open>The bytes of a stream, up to its first error.\<close>

fun stream :: "in_event list \<Rightarrow> byte list" where
  "stream [] = []"
| "stream (In_Err # es) = []"
| "stream (Arrive bs # es) = bs @ stream es"

lemma take_in_length: "take_in n es = (Some bs, es1) \<Longrightarrow> length bs \<le> n"
  by (induction n es rule: take_in.induct) (auto split: if_splits)

lemma take_in_stream: "take_in n es = (Some bs, es1) \<Longrightarrow> stream es = bs @ stream es1"
  by (induction n es rule: take_in.induct) (auto split: if_splits)

lemma sys_read_length: "sys_read fd n w = (Some bs, w1) \<Longrightarrow> length bs \<le> n"
  by (auto simp: sys_read_def split: option.splits prod.splits dest: take_in_length)

lemma sys_read_chunk:
  assumes "w fd = Some c" "incoming c = Arrive bs # es" "bs \<noteq> []" "length bs \<le> n"
  shows "sys_read fd n w = (Some bs, w(fd \<mapsto> c\<lparr>incoming := es\<rparr>))"
  using assms by (cases bs) (auto simp: sys_read_def)

lemma sys_read_eof:
  assumes "w fd = Some c" "incoming c = []"
  shows "sys_read fd n w = (Some [], w(fd \<mapsto> c\<lparr>incoming := []\<rparr>))"
  using assms by (simp add: sys_read_def)

lemma sys_read_frame:
  "sys_read fd n w = (r, w1) \<Longrightarrow> fd' \<noteq> fd \<Longrightarrow> w1 fd' = w fd'"
  by (auto simp: sys_read_def split: option.splits prod.splits)

text \<open>A read moves bytes from the stream to the reader and loses none.\<close>

lemma sys_read_stream:
  assumes "w fd = Some c" "sys_read fd n w = (Some bs, w1)"
  obtains c1 where "w1 = w(fd \<mapsto> c1)" "stream (incoming c) = bs @ stream (incoming c1)"
    "outgoing c1 = outgoing c" "out_script c1 = out_script c"
proof -
  obtain es where "take_in n (incoming c) = (Some bs, es)" "w1 = w(fd \<mapsto> c\<lparr>incoming := es\<rparr>)"
    using assms by (auto simp: sys_read_def split: prod.splits)
  then show thesis using take_in_stream [of n "incoming c" bs es]
    by (intro that [of "c\<lparr>incoming := es\<rparr>"]) simp_all
qed

lemma sys_peek_keeps: "sys_peek fd n w = (Some bs, w1) \<Longrightarrow> w1 = w"
  by (auto simp: sys_peek_def split: prod.splits option.splits)

lemma sys_write_all:
  assumes "w fd = Some c" "out_script c = []"
  shows "sys_write fd bs w = (int (length bs), w(fd \<mapsto> c\<lparr>outgoing := outgoing c @ bs\<rparr>))"
  using assms by (simp add: sys_write_def)

lemma sys_write_le: "sys_write fd bs w = (n, w1) \<Longrightarrow> n \<le> int (length bs)"
  by (auto simp: sys_write_def split: option.splits list.splits out_event.splits)

text \<open>Every read that delivers something shortens what is still to arrive.\<close>

fun in_size :: "in_event list \<Rightarrow> nat" where
  "in_size [] = 0"
| "in_size (In_Err # es) = Suc (in_size es)"
| "in_size (Arrive bs # es) = Suc (length bs + in_size es)"

lemma take_in_progress: "take_in n es = (Some bs, es1) \<Longrightarrow> bs \<noteq> [] \<Longrightarrow> in_size es1 < in_size es"
  by (induction n es rule: take_in.induct) (auto split: if_splits)

lemma take_in_errors: "take_in n es = (r, es1) \<Longrightarrow> In_Err \<notin> set es \<Longrightarrow> r \<noteq> None \<and> In_Err \<notin> set es1"
  by (induction n es rule: take_in.induct) (auto split: if_splits)

lemma take_in_end: "take_in n es = (Some [], es1) \<Longrightarrow> 0 < n \<Longrightarrow> stream es = []"
  by (induction n es rule: take_in.induct) (auto split: if_splits)

end
