(* ===== verification/Http_Message.thy ===== *)
theory Http_Message
  imports Http_Header Posix_Io
begin

text \<open>
  The part of \<open>src/src/cmon_proxy/cmon_http.c\<close> that receives and sends messages: a header block
  read until its delimiter (\<open>c_http_recv_header\<close>, into a fixed array, and
  \<open>c_http_c_buf_recv_header\<close>, into a \<open>CmonBuffer\<close>), the message structure with the body bytes
  that came with the header (\<open>c_http_get_message\<close>), and the transfer of header and body chunks.

  The state is the heap of the buffers extended by the open descriptors and by the live
  \<open>CmonHttpMessage\<close> structures. The array \<open>headders_buff\<close> inside a message is a byte list of
  8192 bytes, its \<open>body_chunk\<close> a pointer to a block.
\<close>

section \<open>Messages\<close>

definition HTTP_MAX_HEADDER_SIZE :: nat where
  "HTTP_MAX_HEADDER_SIZE = 8192"

definition C_HTTP_MAX_BODY_CHUNK :: nat where
  "C_HTTP_MAX_BODY_CHUNK = 8192"

definition C_HTTP_FLUSH_BODY_BUF :: int where
  "C_HTTP_FLUSH_BODY_BUF = 0"

definition C_HTTP_CONNECTION_CLOSED :: int where
  "C_HTTP_CONNECTION_CLOSED = - 2"

definition C_HTTP_BODY_CHUNK_BUFFER_FULL :: int where
  "C_HTTP_BODY_CHUNK_BUFFER_FULL = - 3"

definition C_HTTP_REQUEST_FULLY_RECEV :: int where
  "C_HTTP_REQUEST_FULLY_RECEV = - 4"

record CmonHttpMessage =
  headders_buff :: "byte list"
  body_chunk :: ptr
  m_fd :: int
  headders_size :: int
  cur_body_size :: int
  content_length :: size_t
  total_msg_size :: size_t
  remaining_data :: size_t

record mheap = bheap +
  conns :: net
  msgs :: "nat \<Rightarrow> CmonHttpMessage option"

type_synonym msg_ptr = "nat option"

definition LFLF :: "byte list" where
  "LFLF = [LF, LF]"

section \<open>Receiving a header block\<close>

text \<open>What a read into the room left takes from it.\<close>

lemma room_after:
  assumes "sys_read fd (unat (buff_len :: size_t)) w = (Some bs, w1)"
  shows "unat (buff_len - word_of_nat (length bs)) = unat buff_len - length bs"
proof -
  have le: "length bs \<le> unat buff_len" using sys_read_length [OF assms] .
  then have "unat (word_of_nat (length bs) :: size_t) = length bs"
    using unat_size_t_bound [of buff_len] by (simp add: unat_of_nat)
  with le show ?thesis by (simp add: unat_sub word_le_nat_alt)
qed

lemma room_shrinks:
  assumes "(Some bs, w1) = sys_read fd (unat (buff_len :: size_t)) w" "bs \<noteq> []"
  shows "unat (buff_len - word_of_nat (length bs)) < unat buff_len"
  using room_after [OF assms(1) [symmetric]] sys_read_length [OF assms(1) [symmetric]] assms(2)
  by (cases bs) auto

text \<open>
  The loop of \<open>c_http_recv_header\<close>: \<open>buff\<close> the array, \<open>buff_len\<close> the room left in it, \<open>tot\<close> the
  bytes read so far. The result is the return value, what was stored through \<open>read_len\<close> (if
  anything was), the array and the descriptors.
\<close>

function recv_header_loop ::
    "int \<Rightarrow> byte list \<Rightarrow> size_t \<Rightarrow> nat \<Rightarrow> net \<Rightarrow> (int \<times> int option \<times> byte list \<times> net) res" where
  "recv_header_loop fd buff buff_len tot w =
     (if buff_len = 0 then Inr (- 1, None, buff, w)
      else (case sys_read fd (unat buff_len) w of
          (None, w1) \<Rightarrow> Inr (- 1, None, buff, w1)
        | (Some bs, w1) \<Rightarrow>
            if bs = [] then Inr (0, Some (int tot), buff, w1)
            else if length buff < tot + length bs then Inl (UB OutOfBounds)
            else bindE (c_u_str_find_pattern (Some HEADER_DELIM) 4 (Some (blit buff tot bs))
                          (word_of_nat (tot + length bs))) (\<lambda>p.
              if p \<noteq> - 1 then Inr (p + 4, Some (int (tot + length bs)), blit buff tot bs, w1)
              else bindE (c_u_str_find_pattern (Some LFLF) 2 (Some (blit buff tot bs))
                          (word_of_nat (tot + length bs))) (\<lambda>q.
                if q \<noteq> - 1 then Inr (q + 4, Some (int (tot + length bs)), blit buff tot bs, w1)
                else recv_header_loop fd (blit buff tot bs) (buff_len - word_of_nat (length bs))
                       (tot + length bs) w1))))"
  by pat_completeness auto
termination
  by (relation "measure (\<lambda>(fd, buff, buff_len, tot, w). unat buff_len)")
    (simp, simp only: in_measure split_conv, rule room_shrinks, assumption+)

declare recv_header_loop.simps [simp del]

definition c_http_recv_header ::
    "int \<Rightarrow> byte list \<Rightarrow> size_t \<Rightarrow> net \<Rightarrow> (int \<times> int option \<times> byte list \<times> net) res" where
  "c_http_recv_header fd buff buff_len w = recv_header_loop fd buff buff_len 0 w"

text \<open>
  \<open>recv\<close> into memory: the bytes read are put where the pointer points to. A null pointer makes the
  call fail (\<open>EFAULT\<close>) with the stream as it was.
\<close>

definition recv_into ::
    "int \<Rightarrow> ptr \<Rightarrow> nat \<Rightarrow> 'z mheap_scheme \<Rightarrow> (int \<times> 'z mheap_scheme) res" where
  "recv_into fd p n h = (case sys_read fd n (conns h) of
      (None, w1) \<Rightarrow> Inr (- 1, h\<lparr>conns := w1\<rparr>)
    | (Some bs, w1) \<Rightarrow>
        if bs = [] then Inr (0, h\<lparr>conns := w1\<rparr>)
        else (case p of
            Null \<Rightarrow> Inr (- 1, h)
          | Wild \<Rightarrow> Inl (UB OutOfBounds)
          | Ptr b i \<Rightarrow> (case blocks h b of
              None \<Rightarrow> Inl (UB UseAfterFree)
            | Some ds \<Rightarrow>
                if length ds < i + length bs then Inl (UB OutOfBounds)
                else Inr (int (length bs), upd_block b (blit ds i bs) (h\<lparr>conns := w1\<rparr>)))))"

text \<open>\<open>c_http_c_buf_recv_header\<close>: look at what has arrived, then take exactly the header.\<close>

definition c_http_c_buf_recv_header ::
    "int \<Rightarrow> buf_ptr \<Rightarrow> 'z mheap_scheme \<Rightarrow> (http_code \<times> 'z mheap_scheme) res" where
  "c_http_c_buf_recv_header fd buf h = (case buf of
      None \<Rightarrow> Inr (C_HTTP_BUFFER_ERR, h)
    | Some a \<Rightarrow> bindE (deref buf h) (\<lambda>r.
        if b_cap r = 0 \<or> b_len r \<noteq> 0 then Inr (C_HTTP_BUFFER_ERR, h)
        else if fd < 0 then Inr (C_HTTP_SOCKET_FD_ERR, h)
        else (case sys_peek fd HTTP_MAX_HEADDER_SIZE (conns h) of
            (None, w1) \<Rightarrow> Inr (C_HTTP_RECV_ERR, h\<lparr>conns := w1\<rparr>)
          | (Some bs, w1) \<Rightarrow>
              if bs = [] then Inr (C_HTTP_SOCKET_CLOSE, h\<lparr>conns := w1\<rparr>)
              else bindE (c_u_str_find_pattern (Some HEADER_DELIM) 4
                     (Some (blit (replicate HTTP_MAX_HEADDER_SIZE NUL) 0 bs))
                     (word_of_nat (length bs))) (\<lambda>off.
                if off = - 1 then Inr (C_HTTP_HEADER_PARSING_ERR, h\<lparr>conns := w1\<rparr>)
                else (let expect = word_of_int off + 4 in
                  bindE (if b_cap r < expect then c_u_buffer_set_capacity buf expect (h\<lparr>conns := w1\<rparr>)
                         else Inr (0, h\<lparr>conns := w1\<rparr>)) (\<lambda>(rc, h1).
                  if rc \<noteq> 0 then Inr (C_HTTP_BUFFER_ERR, h1)
                  else bindE (deref buf h1) (\<lambda>r1.
                       bindE (recv_into fd (b_buf r1) (unat expect) h1) (\<lambda>(n, h2).
                       if n = - 1 \<or> word_of_int n \<noteq> expect then Inr (C_HTTP_RECV_ERR, h2)
                       else if n = 0 then Inr (C_HTTP_SOCKET_CLOSE, h2)
                       else bindE (c_u_buffer_set_len buf (word_of_int n) h2) (\<lambda>(l, h3).
                         if l = - 1 then Inr (C_HTTP_BUFFER_ERR, h3)
                         else Inr (C_HTTP_SUCESS, h3))))))))))"

section \<open>Message structures\<close>

definition msg_at :: "msg_ptr \<Rightarrow> 'z mheap_scheme \<Rightarrow> CmonHttpMessage res" where
  "msg_at m h = (case m of
      None \<Rightarrow> Inl (UB NullDeref)
    | Some a \<Rightarrow> (case msgs h a of None \<Rightarrow> Inl (UB UseAfterFree) | Some r \<Rightarrow> Inr r))"

definition set_msg :: "nat \<Rightarrow> CmonHttpMessage \<Rightarrow> 'z mheap_scheme \<Rightarrow> 'z mheap_scheme" where
  "set_msg a r h = h\<lparr>msgs := (msgs h)(a \<mapsto> r)\<rparr>"

text \<open>\<open>free\<close> of the structure alone.\<close>

definition free_msg :: "nat \<Rightarrow> 'z mheap_scheme \<Rightarrow> 'z mheap_scheme" where
  "free_msg a h = h\<lparr>msgs := (msgs h)(a := None)\<rparr>"

text \<open>The loop that moves the bytes read past the header into the body chunk.\<close>

fun body_loop :: "ptr \<Rightarrow> byte list \<Rightarrow> nat \<Rightarrow> nat \<Rightarrow> nat \<Rightarrow> 'z heap_scheme \<Rightarrow> 'z heap_scheme res" where
  "body_loop p buff hs i 0 h = Inr h"
| "body_loop p buff hs i (Suc k) h =
     bindE (byte_at buff (hs + i)) (\<lambda>c.
     bindE (store (ptr_add p i) c h) (\<lambda>h1. body_loop p buff hs (Suc i) k h1))"

text \<open>
  \<open>c_http_get_message\<close>. The array and the fields of a new structure hold what the allocator left
  there until they are written.
\<close>

definition c_http_get_message :: "int \<Rightarrow> 'z mheap_scheme \<Rightarrow> (msg_ptr \<times> 'z mheap_scheme) res" where
  "c_http_get_message fd h =
     (if fd < 0 then Inr (None, h)
      else (case next_event h of (e, h1) \<Rightarrow>
        if e = Fail then Inr (None, h1)
        else (let m = next_blk h1; h2 = h1\<lparr>next_blk := Suc m\<rparr> in
          (case malloc C_HTTP_MAX_BODY_CHUNK h2 of (chunk, h3) \<Rightarrow>
            if chunk = Null then Inr (None, h3)
            else bindE (c_http_recv_header fd (map (junk h m) [0..<HTTP_MAX_HEADDER_SIZE])
                          (word_of_nat HTTP_MAX_HEADDER_SIZE) (conns h3)) (\<lambda>(hs, tot, buff, w1).
              let h4 = h3\<lparr>conns := w1\<rparr> in
              if hs \<le> 0 then Inr (None, h4)
              else bindE (body_loop chunk buff (nat hs) 0 (nat (the tot - hs)) h4) (\<lambda>h5.
                   bindE (http_get_content_length_headder buff (word_of_int hs)) (\<lambda>cl.
                   if cl < 0 then Inr (None, h5)
                   else (let total = word_of_int hs + word_of_int cl in
                     Inr (Some m, set_msg m
                       \<lparr>headders_buff = buff, body_chunk = chunk, m_fd = fd, headders_size = hs,
                        cur_body_size = the tot - hs, content_length = word_of_int cl,
                        total_msg_size = total,
                        remaining_data = total - word_of_int (the tot)\<rparr> h5)))))))))"

section \<open>Sending and receiving\<close>

text \<open>
  \<open>write\<close> from an object of the program: reading past the object is out of bounds.
\<close>

definition write_from ::
    "int \<Rightarrow> byte list option \<Rightarrow> size_t \<Rightarrow> 'z mheap_scheme \<Rightarrow> (int \<times> 'z mheap_scheme) res" where
  "write_from fd src n h = (case src of
      None \<Rightarrow> Inr (if n = 0 then 0 else - 1, h)
    | Some bs \<Rightarrow>
        if length bs < unat n then Inl (UB OutOfBounds)
        else (case sys_write fd (take (unat n) bs) (conns h) of
          (k, w1) \<Rightarrow> Inr (k, h\<lparr>conns := w1\<rparr>)))"

definition c_http_send_headers ::
    "msg_ptr \<Rightarrow> int \<Rightarrow> 'z mheap_scheme \<Rightarrow> (int \<times> 'z mheap_scheme) res" where
  "c_http_send_headers m fd h =
     (if m = None then Inr (- 1, h)
      else bindE (msg_at m h) (\<lambda>r.
           bindE (write_from fd (Some (headders_buff r)) (word_of_int (headders_size r)) h)
             (\<lambda>(n, h1). if n < 0 then Inr (- 1, h1)
                else if n \<noteq> headders_size r then Inr (- 1, h1)
                else Inr (n, h1))))"

definition c_http_send_body_chunk ::
    "msg_ptr \<Rightarrow> int \<Rightarrow> int \<Rightarrow> 'z mheap_scheme \<Rightarrow> (int \<times> 'z mheap_scheme) res" where
  "c_http_send_body_chunk m recever opt h = (case m of
      None \<Rightarrow> Inr (- 1, h)
    | Some a \<Rightarrow>
        if recever < 0 then Inr (- 1, h)
        else bindE (msg_at m h) (\<lambda>r.
             bindE (mem_from (body_chunk r) h) (\<lambda>src.
             bindE (write_from recever src (word_of_int (cur_body_size r)) h) (\<lambda>(n, h1).
             if n < 0 then Inr (- 1, h1)
             else if n \<noteq> cur_body_size r then Inr (- 1, h1)
             else if opt = C_HTTP_FLUSH_BODY_BUF
                  then Inr (n, set_msg a (r\<lparr>cur_body_size := 0\<rparr>) h1)
                  else Inr (n, h1)))))"

definition c_http_recv_body_chunk :: "msg_ptr \<Rightarrow> 'z mheap_scheme \<Rightarrow> (int \<times> 'z mheap_scheme) res" where
  "c_http_recv_body_chunk m h = (case m of
      None \<Rightarrow> Inr (- 1, h)
    | Some a \<Rightarrow> bindE (msg_at m h) (\<lambda>r.
        if m_fd r < 0 then Inr (C_HTTP_CONNECTION_CLOSED, h)
        else if int C_HTTP_MAX_BODY_CHUNK \<le> cur_body_size r
          then Inr (C_HTTP_BODY_CHUNK_BUFFER_FULL, h)
        else if remaining_data r = 0 then Inr (C_HTTP_REQUEST_FULLY_RECEV, h)
        else if cur_body_size r < 0 then Inl (UB OutOfBounds)
        else bindE (recv_into (m_fd r) (ptr_add (body_chunk r) (nat (cur_body_size r)))
                      (nat (int C_HTTP_MAX_BODY_CHUNK - cur_body_size r)) h) (\<lambda>(n, h1).
             if n < 0 then Inr (- 1, h1)
             else Inr (n, set_msg a (r\<lparr>remaining_data := remaining_data r - word_of_int n,
                                      cur_body_size := cur_body_size r + n\<rparr>) h1))))"

definition c_http_free_message :: "msg_ptr \<Rightarrow> 'z mheap_scheme \<Rightarrow> 'z mheap_scheme res" where
  "c_http_free_message m h = (case m of
      None \<Rightarrow> Inr h
    | Some a \<Rightarrow> bindE (msg_at m h) (\<lambda>r.
        bindE (if body_chunk r \<noteq> Null then c_free (body_chunk r) h else Inr h) (\<lambda>h1.
        Inr (free_msg a h1))))"

section \<open>Receiving in chunks\<close>

lemma blit_at_start: "length pre \<le> length ds \<Longrightarrow> take (length pre) (blit ds 0 pre) = pre"
  by (simp add: blit_def)

lemma find_in_received:
  assumes "p \<noteq> []" "length p \<le> length txt" "length txt \<le> length ds" "length txt < 2 ^ 63"
    "unat (n :: size_t) = length p"
  shows "c_u_str_find_pattern (Some p) n (Some (blit ds 0 txt)) (word_of_nat (length txt)) =
     Inr (case first_occ p txt of None \<Rightarrow> - 1 | Some k \<Rightarrow> int k)"
proof -
  have "unat (word_of_nat (length txt) :: size_t) = length txt"
    using assms(4) by (simp add: unat_of_nat)
  with assms show ?thesis by (simp add: fnd.find_first blit_at_start)
qed

lemma HEADER_DELIM_facts [simp]: "HEADER_DELIM \<noteq> []" "length HEADER_DELIM = 4"
  by (simp_all add: HEADER_DELIM_def)

lemma LFLF_facts [simp]: "LFLF \<noteq> []" "length LFLF = 2"
  by (simp_all add: LFLF_def)

lemma recv_header_loop_chunks:
  assumes "w fd = Some c" "incoming c = map Arrive (x # xs) @ rest" "\<forall>y\<in>set (x # xs). y \<noteq> []"
    "4 \<le> length (pre @ x)" "length (pre @ concat (x # xs)) \<le> length ds"
    "length ds < 2 ^ 63" "length (concat (x # xs)) \<le> unat buff_len"
    "first_occ HEADER_DELIM (pre @ concat (butlast (x # xs))) = None"
    "first_occ LFLF (pre @ concat (butlast (x # xs))) = None"
    "first_occ HEADER_DELIM (pre @ concat (x # xs)) = Some k"
  shows "recv_header_loop fd (blit ds 0 pre) buff_len (length pre) w =
     Inr (int k + 4, Some (int (length (pre @ concat (x # xs)))), blit ds 0 (pre @ concat (x # xs)),
          w(fd \<mapsto> c\<lparr>incoming := rest\<rparr>))"
  using assms
proof (induction xs arbitrary: x pre buff_len w c)
  case Nil
  have rd: "sys_read fd (unat buff_len) w = (Some x, w(fd \<mapsto> c\<lparr>incoming := rest\<rparr>))"
    using Nil.prems by (intro sys_read_chunk) simp_all
  have bl: "blit (blit ds 0 pre) (length pre) x = blit ds 0 (pre @ x)"
    using Nil.prems(5) blit_blit [of 0 pre x ds] by simp
  have f: "c_u_str_find_pattern (Some HEADER_DELIM) 4 (Some (blit ds 0 (pre @ x)))
      (word_of_nat (length pre + length x)) = Inr (int k)"
    using find_in_received [of HEADER_DELIM "pre @ x" ds 4] Nil.prems by simp
  have "buff_len \<noteq> 0" using Nil.prems(3,7) by auto
  then show ?case
    using Nil.prems rd bl f by (subst recv_header_loop.simps) simp
next
  case (Cons y ys)
  let ?c1 = "c\<lparr>incoming := map Arrive (y # ys) @ rest\<rparr>"
  have rd: "sys_read fd (unat buff_len) w = (Some x, w(fd \<mapsto> ?c1))"
    using Cons.prems by (intro sys_read_chunk) simp_all
  have bl: "blit (blit ds 0 pre) (length pre) x = blit ds 0 (pre @ x)"
    using Cons.prems(5) blit_blit [of 0 pre x ds] by simp
  have none: "first_occ HEADER_DELIM (pre @ x) = None" "first_occ LFLF (pre @ x) = None"
    using Cons.prems(8,9) first_occ_append_left_None [of _ "pre @ x" "concat (butlast (y # ys))"]
    by simp_all
  have f: "c_u_str_find_pattern (Some HEADER_DELIM) 4 (Some (blit ds 0 (pre @ x)))
      (word_of_nat (length pre + length x)) = Inr (- 1)"
    "c_u_str_find_pattern (Some LFLF) 2 (Some (blit ds 0 (pre @ x)))
      (word_of_nat (length pre + length x)) = Inr (- 1)"
    using find_in_received [of HEADER_DELIM "pre @ x" ds 4] find_in_received [of LFLF "pre @ x" ds 2]
      Cons.prems none by simp_all
  have "unat (buff_len - word_of_nat (length x)) = unat buff_len - length x"
    using room_after [OF rd] .
  then have "recv_header_loop fd (blit ds 0 (pre @ x)) (buff_len - word_of_nat (length x))
      (length (pre @ x)) (w(fd \<mapsto> ?c1)) =
      Inr (int k + 4, Some (int (length ((pre @ x) @ concat (y # ys)))),
        blit ds 0 ((pre @ x) @ concat (y # ys)), (w(fd \<mapsto> ?c1))(fd \<mapsto> ?c1\<lparr>incoming := rest\<rparr>))"
    using Cons.prems by (intro Cons.IH) simp_all
  moreover have "buff_len \<noteq> 0" using Cons.prems(3,7) by auto
  ultimately show ?case
    using Cons.prems rd bl f by (subst recv_header_loop.simps) simp
qed

section \<open>Receiving a message\<close>

lemma body_loop_blit:
  assumes "hs + i + k \<le> length buff" "i + k \<le> length ds"
    "blocks h b = Some (blit ds 0 (take i (drop hs buff)))"
  shows "body_loop (Ptr b 0) buff hs i k h =
     Inr (upd_block b (blit ds 0 (take (i + k) (drop hs buff))) h)"
  using assms
proof (induction k arbitrary: i h)
  case 0
  then show ?case by (simp add: upd_block_same)
next
  case (Suc k)
  let ?h1 = "upd_block b (blit ds 0 (take (Suc i) (drop hs buff))) h"
  have len: "length (take i (drop hs buff)) = i" using Suc.prems(1) by simp
  have "(blit ds 0 (take i (drop hs buff)))[i := buff ! (hs + i)] =
      blit ds 0 (take (Suc i) (drop hs buff))"
    using blit_snoc [of 0 "take i (drop hs buff)" ds "buff ! (hs + i)"] len Suc.prems(1,2)
    by (simp add: take_Suc_drop)
  moreover have "length (blit ds 0 (take i (drop hs buff))) = length ds"
    using len Suc.prems(2) by simp
  ultimately have "store (Ptr b i) (buff ! (hs + i)) h = Inr ?h1"
    using Suc.prems(2,3) by (simp add: store_Ptr)
  moreover have "body_loop (Ptr b 0) buff hs (Suc i) k ?h1 =
      Inr (upd_block b (blit ds 0 (take (Suc i + k) (drop hs buff))) ?h1)"
    using Suc.prems by (intro Suc.IH) simp_all
  ultimately show ?case
    using Suc.prems(1) by (simp add: byte_at_def del: store.simps)
qed

lemma mheap_more:
  "heap.more h1 = heap.more h \<Longrightarrow> conns h1 = conns h \<and> msgs h1 = msgs h \<and> cbufs h1 = cbufs h"
  by (cases h; cases h1) simp

lemma upd_block_mheap [simp]:
  "conns (upd_block b bs h) = conns h" "msgs (upd_block b bs h) = msgs h"
  by (simp_all add: upd_block_def)

lemma set_cbuf_mheap [simp]:
  "conns (set_cbuf a r h) = conns h" "msgs (set_cbuf a r h) = msgs h"
  by (simp_all add: set_cbuf_def)

lemma msg_at_Some [simp]: "msgs h a = Some r \<Longrightarrow> msg_at (Some a) h = Inr r"
  by (simp add: msg_at_def)

lemma set_msg_fields [simp]:
  "blocks (set_msg m r h) = blocks h" "conns (set_msg m r h) = conns h"
  "msgs (set_msg m r h) = (msgs h)(m \<mapsto> r)" "next_blk (set_msg m r h) = next_blk h"
  by (simp_all add: set_msg_def)

text \<open>
  The first steps of \<open>c_http_get_message\<close>: the two allocations succeed, and what follows runs with
  the new structure \<open>m\<close> and the new block \<open>b\<close>.
\<close>

lemma get_message_allocs:
  assumes "0 \<le> fd" "Fail \<notin> set (allocs h)"
  obtains m b h3 junk8 ds where "blocks h3 = (blocks h)(b \<mapsto> ds)" "conns h3 = conns h"
    "length ds = C_HTTP_MAX_BODY_CHUNK" "length junk8 = HTTP_MAX_HEADDER_SIZE"
    "m = next_blk h" "b = Suc m" "msgs h3 = msgs h" "next_blk h3 = Suc b"
    "c_http_get_message fd h =
       bindE (c_http_recv_header fd junk8 (word_of_nat HTTP_MAX_HEADDER_SIZE) (conns h3))
         (\<lambda>(hs, tot, buff, w1).
            let h4 = h3\<lparr>conns := w1\<rparr> in
            if hs \<le> 0 then Inr (None, h4)
            else bindE (body_loop (Ptr b 0) buff (nat hs) 0 (nat (the tot - hs)) h4) (\<lambda>h5.
                 bindE (http_get_content_length_headder buff (word_of_int hs)) (\<lambda>cl.
                 if cl < 0 then Inr (None, h5)
                 else (let total = word_of_int hs + word_of_int cl in
                   Inr (Some m, set_msg m
                     \<lparr>headders_buff = buff, body_chunk = Ptr b 0, m_fd = fd, headders_size = hs,
                      cur_body_size = the tot - hs, content_length = word_of_int cl,
                      total_msg_size = total,
                      remaining_data = total - word_of_int (the tot)\<rparr> h5)))))"
proof -
  obtain e h1 where e: "next_event h = (e, h1)" by (cases "next_event h")
  note f = next_event_fields [OF e]
  have ne: "e \<noteq> Fail" using next_event_all_ok [OF assms(2) e] .
  have al: "set (allocs h1) \<subseteq> set (allocs h)"
    using e by (auto simp: next_event_def split: list.splits)
  let ?h2 = "h1\<lparr>next_blk := Suc (next_blk h1)\<rparr>"
  have nf: "Fail \<notin> set (allocs ?h2)" using al assms(2) by auto
  show thesis
  proof (cases rule: malloc_cases [of C_HTTP_MAX_BODY_CHUNK ?h2])
    case fail
    with nf show thesis by simp
  next
    case (ok h3 ds)
    have m: "conns h3 = conns h" "msgs h3 = msgs h"
      using mheap_more [of h3 ?h2] mheap_more [of h1 h] ok(6) f(4) by simp_all
    show thesis
      by (rule that [of h3 "Suc (next_blk h)" ds "map (junk h (next_blk h)) [0..<HTTP_MAX_HEADDER_SIZE]"
            "next_blk h"])
        (use ok m f e ne assms(1) in \<open>simp_all add: c_http_get_message_def Let_def cong: if_cong\<close>)
  qed
qed


text \<open>A message that holds a header block, the body bytes received, and the sizes that belong to them.\<close>

definition message_holds ::
    "'z mheap_scheme \<Rightarrow> CmonHttpMessage \<Rightarrow> byte list \<Rightarrow> byte list \<Rightarrow> nat \<Rightarrow> bool" where
  "message_holds h r hdr body n \<longleftrightarrow>
     length (headders_buff r) = HTTP_MAX_HEADDER_SIZE \<and>
     take (length hdr) (headders_buff r) = hdr \<and> headders_size r = int (length hdr) \<and>
     (\<exists>b ds. body_chunk r = Ptr b 0 \<and> blocks h b = Some ds \<and> length ds = C_HTTP_MAX_BODY_CHUNK \<and>
        take (length body) ds = body) \<and>
     cur_body_size r = int (length body) \<and> content_length r = word_of_nat n \<and>
     total_msg_size r = word_of_nat (length hdr + n) \<and>
     remaining_data r = word_of_nat n - word_of_nat (length body)"

lemma get_message_body:
  assumes "0 \<le> fd" "Fail \<notin> set (allocs h)" "conns h fd = Some c"
    "incoming c = map Arrive (x # xs) @ rest" "\<forall>y\<in>set xs. y \<noteq> []" "4 \<le> length x"
    "concat (x # xs) = hdr @ body" "length (hdr @ body) \<le> 8192"
    "first_occ HEADER_DELIM (concat (butlast (x # xs))) = None"
    "first_occ LFLF (concat (butlast (x # xs))) = None"
    "first_occ HEADER_DELIM (hdr @ body) = Some k" "length hdr = k + 4"
    "\<And>more. http_get_content_length_headder (hdr @ more) (word_of_nat (length hdr)) = Inr (int n)"
  shows "\<exists>m h1 r. c_http_get_message fd h = Inr (Some m, h1) \<and> msgs h1 m = Some r \<and> m_fd r = fd \<and>
     message_holds h1 r hdr body n \<and> conns h1 = (conns h)(fd \<mapsto> c\<lparr>incoming := rest\<rparr>) \<and>
     (heap_ok h \<longrightarrow> heap_ok h1)"
proof -
  obtain m b h3 junk8 ds where a: "blocks h3 = (blocks h)(b \<mapsto> ds)" "conns h3 = conns h"
    "length ds = C_HTTP_MAX_BODY_CHUNK" "length junk8 = HTTP_MAX_HEADDER_SIZE"
    "b = Suc (next_blk h)" "next_blk h3 = Suc b"
    "c_http_get_message fd h =
       bindE (c_http_recv_header fd junk8 (word_of_nat HTTP_MAX_HEADDER_SIZE) (conns h3))
         (\<lambda>(hs, tot, buff, w1).
            let h4 = h3\<lparr>conns := w1\<rparr> in
            if hs \<le> 0 then Inr (None, h4)
            else bindE (body_loop (Ptr b 0) buff (nat hs) 0 (nat (the tot - hs)) h4) (\<lambda>h5.
                 bindE (http_get_content_length_headder buff (word_of_int hs)) (\<lambda>cl.
                 if cl < 0 then Inr (None, h5)
                 else (let total = word_of_int hs + word_of_int cl in
                   Inr (Some m, set_msg m
                     \<lparr>headders_buff = buff, body_chunk = Ptr b 0, m_fd = fd, headders_size = hs,
                      cur_body_size = the tot - hs, content_length = word_of_int cl,
                      total_msg_size = total,
                      remaining_data = total - word_of_int (the tot)\<rparr> h5)))))"
    by (rule get_message_allocs [OF assms(1,2)]) blast
  let ?t = "hdr @ body" let ?buff = "blit junk8 0 ?t" let ?w1 = "(conns h)(fd \<mapsto> c\<lparr>incoming := rest\<rparr>)"
  have rl: "recv_header_loop fd (blit junk8 0 []) (word_of_nat HTTP_MAX_HEADDER_SIZE) (length ([] :: byte list))
      (conns h3) = Inr (int k + 4, Some (int (length ([] @ concat (x # xs)))),
      blit junk8 0 ([] @ concat (x # xs)), (conns h3)(fd \<mapsto> c\<lparr>incoming := rest\<rparr>))"
    by (rule recv_header_loop_chunks)
      (use a assms in \<open>auto simp: HTTP_MAX_HEADDER_SIZE_def simp del: concat.simps butlast.simps\<close>)
  then have rv: "c_http_recv_header fd junk8 (word_of_nat HTTP_MAX_HEADDER_SIZE) (conns h3) =
      Inr (int k + 4, Some (int (length ?t)), ?buff, ?w1)"
    using a(2) assms(7) by (simp add: c_http_recv_header_def del: concat.simps)
  have lb: "length ?buff = HTTP_MAX_HEADDER_SIZE"
    using a(4) assms(8) by (simp add: HTTP_MAX_HEADDER_SIZE_def)
  have db: "take (length body) (drop (length hdr) ?buff) = body" by (simp add: blit_def)
  let ?h4 = "h3\<lparr>conns := ?w1\<rparr>"
  have bl: "body_loop (Ptr b 0) ?buff (length hdr) 0 (length body) ?h4 =
      Inr (upd_block b (blit ds 0 body) ?h4)"
    using body_loop_blit [of "length hdr" 0 "length body" ?buff ds ?h4 b] db lb a(1,3) assms(8)
    by (simp add: HTTP_MAX_HEADDER_SIZE_def C_HTTP_MAX_BODY_CHUNK_def)
  have cl: "http_get_content_length_headder ?buff (word_of_nat (length hdr)) = Inr (int n)"
    using assms(13) [of "body @ drop (length ?t) junk8"] by (simp add: blit_def)
  have hs: "int k + 4 = int (length hdr)" using assms(12) by simp
  have pos: "\<not> int (length hdr) \<le> 0" using assms(12) by simp
  have nn: "nat (int (length ?t) - int (length hdr)) = length body" by simp
  let ?r = "\<lparr>headders_buff = ?buff, body_chunk = Ptr b 0, m_fd = fd,
       headders_size = int (length hdr), cur_body_size = int (length body),
       content_length = word_of_nat n, total_msg_size = word_of_nat (length hdr + n),
       remaining_data = word_of_nat n - word_of_nat (length body)\<rparr>"
  let ?h1 = "set_msg m ?r (upd_block b (blit ds 0 body) ?h4)"
  have res: "c_http_get_message fd h = Inr (Some m, ?h1)"
    unfolding a(7) rv hs bindE_Inr split_conv Let_def option.sel if_not_P [OF pos] nat_int nn bl
    using cl by simp
  have "take (length hdr) ?buff = hdr" "take (length body) (blit ds 0 body) = body"
    "length (blit ds 0 body) = C_HTTP_MAX_BODY_CHUNK"
    using a(3) assms(8) by (simp_all add: blit_def C_HTTP_MAX_BODY_CHUNK_def)
  then have "message_holds ?h1 ?r hdr body n" using lb by (simp add: message_holds_def)
  moreover have "msgs ?h1 m = Some ?r" "conns ?h1 = ?w1" using a(2) by simp_all
  moreover have "m_fd ?r = fd" by simp
  moreover have "heap_ok h \<longrightarrow> heap_ok ?h1" using a(1,5,6) by (simp add: heap_ok_def)
  ultimately show ?thesis using res by blast
qed

text \<open>A header without the field counts as a length of 0; a closed stream gives no message.\<close>

lemma content_length_absent:
  assumes "first_occ content_length_key hdr = None" "15 \<le> length hdr" "length hdr < 2 ^ 63"
  shows "http_get_content_length_headder (hdr @ suf) (word_of_nat (length hdr)) = Inr 0"
proof -
  have "unat (word_of_nat (length hdr) :: size_t) = length hdr" using assms(3) by (simp add: unat_of_nat)
  then show ?thesis
    using fnd.find_whole [of content_length_key "word_of_nat (length hdr)" "hdr @ suf"] assms
    by (simp add: http_get_content_length_headder_def content_length_key_def)
qed

lemma get_message_closed:
  assumes "conns h fd = Some c" "incoming c = []"
  shows "\<exists>h1. c_http_get_message fd h = Inr (None, h1) \<and>
     (conns h1 = conns h \<or> conns h1 = (conns h)(fd \<mapsto> c\<lparr>incoming := []\<rparr>))"
proof -
  have rv: "c_http_recv_header fd buff (word_of_nat HTTP_MAX_HEADDER_SIZE) (conns h) =
      Inr (0, Some 0, buff, (conns h)(fd \<mapsto> c\<lparr>incoming := []\<rparr>))" for buff
    using sys_read_eof [of "conns h" fd c] assms
    by (simp add: c_http_recv_header_def recv_header_loop.simps HTTP_MAX_HEADDER_SIZE_def)
  obtain e h1 where e: "next_event h = (e, h1)" by (cases "next_event h")
  let ?h2 = "h1\<lparr>next_blk := Suc (next_blk h1)\<rparr>"
  obtain p h3 where p: "malloc C_HTTP_MAX_BODY_CHUNK ?h2 = (p, h3)"
    by (cases "malloc C_HTTP_MAX_BODY_CHUNK ?h2")
  have "heap.more h3 = heap.more ?h2"
    by (cases rule: malloc_cases [of C_HTTP_MAX_BODY_CHUNK ?h2]) (use p in auto)
  then have "conns h3 = conns h1" using mheap_more by force
  moreover have "conns h1 = conns h" using mheap_more [OF next_event_fields(4) [OF e]] by blast
  ultimately show ?thesis
    unfolding c_http_get_message_def e Let_def prod.case p by (simp add: rv)
qed

definition sample_conn :: conn where
  "sample_conn = \<lparr>incoming = [Arrive (''GET /'' @ [CR]), Arrive [LF, CR], Arrive (LF # ''body'')],
     outgoing = [], out_script = []\<rparr>"

section \<open>Properties\<close>

text \<open>
  C10. The header block is recognised in the same place however the stream is cut into chunks: if
  the delimiter first occurs at \<open>k\<close> in the bytes of the chunks \<open>x # xs\<close> and not yet before the last
  of them, \<open>c_http_recv_header\<close> returns \<open>k + 4\<close>, stores the number of bytes read, leaves exactly
  those bytes at the front of the array, and has taken exactly these chunks from the stream. The
  first chunk must have at least four bytes.
\<close>

theorem c_http_recv_header_chunks:
  assumes "w fd = Some c" "incoming c = map Arrive (x # xs) @ rest" "\<forall>y\<in>set xs. y \<noteq> []"
    "4 \<le> length x" "length (concat (x # xs)) \<le> unat buff_len" "unat buff_len \<le> length buff"
    "length buff < 2 ^ 63"
    "first_occ HEADER_DELIM (concat (butlast (x # xs))) = None"
    "first_occ LFLF (concat (butlast (x # xs))) = None"
    "first_occ HEADER_DELIM (concat (x # xs)) = Some k"
  shows "c_http_recv_header fd buff buff_len w =
     Inr (int k + 4, Some (int (length (concat (x # xs)))), blit buff 0 (concat (x # xs)),
          w(fd \<mapsto> c\<lparr>incoming := rest\<rparr>))"
proof -
  have "\<forall>y\<in>set (x # xs). y \<noteq> []" using assms(3,4) by auto
  then show ?thesis
    using recv_header_loop_chunks [where pre = "[]" and ds = buff, of w fd c x xs rest buff_len k]
      assms by (simp add: c_http_recv_header_def)
qed

theorem c_http_recv_header_chunks_witness:
  "c_http_recv_header 7 (replicate 20 NUL) 20 [7 \<mapsto> sample_conn] =
     Inr (9, Some 13, blit (replicate 20 NUL) 0 (''GET /'' @ HEADER_DELIM @ ''body''),
          [7 \<mapsto> sample_conn\<lparr>incoming := []\<rparr>])"
proof -
  have "first_occ HEADER_DELIM (concat (butlast [''GET /'' @ [CR], [LF, CR], LF # ''body''])) = None"
    "first_occ LFLF (concat (butlast [''GET /'' @ [CR], [LF, CR], LF # ''body''])) = None"
    "first_occ HEADER_DELIM (concat [''GET /'' @ [CR], [LF, CR], LF # ''body'']) = Some 5"
    by code_simp+
  then show ?thesis
    using c_http_recv_header_chunks [of "[7 \<mapsto> sample_conn]" 7 sample_conn "''GET /'' @ [CR]"
        "[[LF, CR], LF # ''body'']" "[]" 20 "replicate 20 NUL" 5]
    by (simp add: sample_conn_def HEADER_DELIM_def CR_def LF_def)
qed

text \<open>
  A first read of fewer than four bytes makes the search for the delimiter run over the whole
  array, whatever is in it, and off its end: the shortness of the text wraps the search bound.
\<close>

theorem c_http_recv_header_short_read:
  assumes "w fd = Some c" "incoming c = Arrive x # es" "x \<noteq> []" "length x < 4"
    "length x \<le> unat buff_len" "unat buff_len \<le> length buff" "length buff < 2 ^ 63"
    "first_occ HEADER_DELIM (blit buff 0 x) = None"
  shows "c_http_recv_header fd buff buff_len w = Inl (UB OutOfBounds)"
proof -
  have rd: "sys_read fd (unat buff_len) w = (Some x, w(fd \<mapsto> c\<lparr>incoming := es\<rparr>))"
    using assms by (intro sys_read_chunk)
  have ln: "unat (word_of_nat (length x) :: size_t) = length x"
    using assms(4) by (simp add: unat_of_nat)
  have "unat (word_of_nat (length x) - 4 :: size_t) = 2 ^ 64 + length x - 4"
    using find_pattern_wrapped_limit [of "word_of_nat (length x)" 4] ln assms(4) by simp
  moreover have "length (blit buff 0 x) = length buff" using assms(5,6) by simp
  ultimately have "c_u_str_find_pattern (Some HEADER_DELIM) 4 (Some (blit buff 0 x))
      (word_of_nat (length x)) = Inl (UB OutOfBounds)"
    using search_loop_runs_off [of 4 HEADER_DELIM "blit buff 0 x"] assms(7)
      first_occ_NoneD [OF assms(8)] by (simp add: c_u_str_find_pattern_def)
  moreover have "buff_len \<noteq> 0" using assms(3,5) by auto
  ultimately show ?thesis
    using rd assms(3,5,6) unfolding c_http_recv_header_def
    by (subst recv_header_loop.simps) simp
qed

theorem c_http_recv_header_short_read_witness:
  "c_http_recv_header 7 (replicate 20 NUL) 20
     [7 \<mapsto> \<lparr>incoming = [Arrive ''GE'', Arrive ''T /''], outgoing = [], out_script = []\<rparr>] =
     Inl (UB OutOfBounds)"
proof -
  have "first_occ HEADER_DELIM (blit (replicate 20 NUL) 0 ''GE'') = None" by code_simp
  then show ?thesis
    using c_http_recv_header_short_read [of "[7 \<mapsto> \<lparr>incoming = [Arrive ''GE'', Arrive ''T /''],
        outgoing = [], out_script = []\<rparr>]" 7 _ "''GE''" "[Arrive ''T /'']" 20 "replicate 20 NUL"]
    by simp
qed

text \<open>
  A header block that ends in an empty line of bare line feeds is given a length two bytes
  longer than what was read: the length of the four-byte delimiter is added to the position of
  the two-byte one.
\<close>

theorem c_http_recv_header_bare_lf:
  assumes "w fd = Some c" "incoming c = Arrive (t @ LFLF) # es" "2 \<le> length t"
    "length t + 2 \<le> unat buff_len" "unat buff_len \<le> length buff" "length buff < 2 ^ 63"
    "first_occ HEADER_DELIM (t @ LFLF) = None" "first_occ LFLF (t @ LFLF) = Some (length t)"
  shows "\<exists>n m b1 w1. c_http_recv_header fd buff buff_len w = Inr (n, Some m, b1, w1) \<and> n = m + 2"
proof -
  let ?x = "t @ LFLF"
  have "?x \<noteq> []" by simp
  then have rd: "sys_read fd (unat buff_len) w = (Some ?x, w(fd \<mapsto> c\<lparr>incoming := es\<rparr>))"
    using assms by (intro sys_read_chunk) simp_all
  have "c_u_str_find_pattern (Some HEADER_DELIM) 4 (Some (blit buff 0 ?x))
      (word_of_nat (length ?x)) = Inr (- 1)"
    "c_u_str_find_pattern (Some LFLF) 2 (Some (blit buff 0 ?x))
      (word_of_nat (length ?x)) = Inr (int (length t))"
    using find_in_received [of HEADER_DELIM ?x buff 4] find_in_received [of LFLF ?x buff 2]
      assms(3-8) by simp_all
  moreover have "buff_len \<noteq> 0" using assms(4) by auto
  ultimately show ?thesis
    using rd assms(4,5) unfolding c_http_recv_header_def
    by (subst recv_header_loop.simps) simp
qed

theorem c_http_recv_header_bare_lf_witness:
  "\<exists>n m b1 w1. c_http_recv_header 7 (replicate 20 NUL) 20
     [7 \<mapsto> \<lparr>incoming = [Arrive (''GET /'' @ LFLF)], outgoing = [], out_script = []\<rparr>] =
     Inr (n, Some m, b1, w1) \<and> n = m + 2"
proof -
  have "first_occ HEADER_DELIM (''GET /'' @ LFLF) = None"
    "first_occ LFLF (''GET /'' @ LFLF) = Some (length ''GET /'')" by code_simp+
  then show ?thesis
    using c_http_recv_header_bare_lf [of "[7 \<mapsto> \<lparr>incoming = [Arrive (''GET /'' @ LFLF)],
        outgoing = [], out_script = []\<rparr>]" 7 _ "''GET /''" "[]" 20 "replicate 20 NUL"]
    by simp
qed
text \<open>
  C9. A message that arrives in chunks, with a Content-Length of \<open>n\<close>, becomes a structure that holds
  it completely: the header block in \<open>headders_buff\<close>, the body bytes that came with it at the front
  of an 8192-byte body chunk, their number in \<open>cur_body_size\<close>, header plus \<open>n\<close> in
  \<open>total_msg_size\<close>, and \<open>n\<close> less the body bytes already there in \<open>remaining_data\<close>.
\<close>

theorem c_http_get_message_complete:
  assumes "0 \<le> fd" "Fail \<notin> set (allocs h)" "conns h fd = Some c"
    "incoming c = map Arrive (x # xs) @ rest" "\<forall>y\<in>set xs. y \<noteq> []" "4 \<le> length x"
    "concat (x # xs) = hdr @ body" "length (hdr @ body) \<le> 8192"
    "first_occ HEADER_DELIM (concat (butlast (x # xs))) = None"
    "first_occ LFLF (concat (butlast (x # xs))) = None"
    "first_occ HEADER_DELIM (hdr @ body) = Some k" "length hdr = k + 4"
    "hdr = pre @ content_length_header j (show_dec n) @ CR # post"
    "first_occ content_length_key hdr = Some (length pre)" "j \<le> 19" "n < 10 ^ 9"
  shows "\<exists>m h1 r. c_http_get_message fd h = Inr (Some m, h1) \<and> msgs h1 m = Some r \<and> m_fd r = fd \<and>
     message_holds h1 r hdr body n \<and> conns h1 = (conns h)(fd \<mapsto> c\<lparr>incoming := rest\<rparr>)"
proof -
  have l: "unat (word_of_nat (length hdr) :: size_t) = length hdr"
    using assms(8) by (simp add: unat_of_nat)
  have "http_get_content_length_headder (hdr @ more) (word_of_nat (length hdr)) = Inr (int n)" for more
  proof -
    have "length (show_dec n) \<le> 9" using assms(16) by (intro length_show_dec) simp_all
    then show ?thesis
      using content_length_parsed [of "hdr @ more" pre j "show_dec n" CR "post @ more"
          "word_of_nat (length hdr)"] l assms(8,13-15) show_dec_digits by simp
  qed
  then show ?thesis using get_message_body [OF assms(1-12)] by blast
qed

definition sample_request :: "byte list" where
  "sample_request = ''POST /'' @ CRLF @ content_length_header 1 (show_dec 6) @ CR # [LF, CR, LF]"

definition sample_net :: net where
  "sample_net = [7 \<mapsto> \<lparr>incoming = [Arrive (take 9 sample_request),
     Arrive (drop 9 sample_request @ ''abcd'')], outgoing = [], out_script = []\<rparr>]"

definition sample_mheap :: mheap where
  "sample_mheap = \<lparr>blocks = (\<lambda>_. None), next_blk = 0, allocs = [], junk = (\<lambda>_ _. NUL),
     cbufs = (\<lambda>_. None), conns = sample_net, msgs = (\<lambda>_. None)\<rparr>"

theorem c_http_get_message_complete_witness:
  "\<exists>m h1 r. c_http_get_message 7 sample_mheap = Inr (Some m, h1) \<and> msgs h1 m = Some r \<and>
     message_holds h1 r sample_request ''abcd'' 6"
proof -
  let ?x = "take 9 sample_request" and ?y = "drop 9 sample_request @ ''abcd''"
  let ?c = "\<lparr>incoming = [Arrive ?x, Arrive ?y], outgoing = [], out_script = []\<rparr>"
  have len: "length sample_request = 29" by code_simp
  have c: "conns sample_mheap 7 = Some ?c" "Fail \<notin> set (allocs sample_mheap)"
    by (simp_all add: sample_mheap_def sample_net_def)
  have cc: "concat [?x, ?y] = sample_request @ ''abcd''" by simp
  have f: "first_occ HEADER_DELIM (concat (butlast [?x, ?y])) = None"
    "first_occ LFLF (concat (butlast [?x, ?y])) = None"
    "first_occ HEADER_DELIM (sample_request @ ''abcd'') = Some 25"
    "first_occ content_length_key sample_request = Some (length (''POST /'' @ CRLF))"
    by code_simp+
  have "\<exists>m h1 r. c_http_get_message 7 sample_mheap = Inr (Some m, h1) \<and> msgs h1 m = Some r \<and>
     m_fd r = 7 \<and> message_holds h1 r sample_request ''abcd'' 6 \<and>
     conns h1 = (conns sample_mheap)(7 \<mapsto> ?c\<lparr>incoming := []\<rparr>)"
    by (rule c_http_get_message_complete [OF _ c(2,1) _ _ _ cc _ f(1-3) _ _ f(4)])
      (simp_all add: len, simp add: sample_request_def, simp)
  then show ?thesis by blast
qed

lemma recv_header_fits:
  assumes "buf_ok h a" "contents h a = []" "0 \<le> fd" "conns h fd = Some c"
    "incoming c = Arrive txt # es" "length txt \<le> 8192" "first_occ HEADER_DELIM txt = Some k"
    "k + 4 \<le> unat (b_cap (the (cbufs h a)))"
  shows "\<exists>h1. c_http_c_buf_recv_header fd (Some a) h = Inr (C_HTTP_SUCESS, h1) \<and> buf_ok h1 a \<and>
     contents h1 a = take (k + 4) txt \<and> conns h1 = (conns h)(fd \<mapsto> c\<lparr>incoming :=
       (if length txt = k + 4 then es else Arrive (drop (k + 4) txt) # es)\<rparr>)"
proof -
  from assms(1) obtain r b bs where b: "cbufs h a = Some r" "b_buf r = Ptr b 0"
    "blocks h b = Some bs" "length bs = unat (b_cap r)" "b_len r \<le> b_cap r"
    "contents h a = take (unat (b_len r)) bs" "unat (b_len r) \<le> length bs" by (elim buf_okE)
  have cap: "k + 4 \<le> unat (b_cap r)" using assms(8) b(1) by simp
  then have "b_cap r \<noteq> 0" by auto
  have "b_len r = 0" using b(6,7) assms(2) cap b(4) by (auto simp: unat_eq_zero)
  have kt: "k + 4 \<le> length txt" using first_occ_bound [OF assms(7)] by simp
  then have ne: "txt \<noteq> []" by auto
  have pk: "sys_peek fd HTTP_MAX_HEADDER_SIZE (conns h) = (Some txt, conns h)"
    using sys_read_chunk [of "conns h" fd c "txt" es HTTP_MAX_HEADDER_SIZE] assms(4-6) ne
    by (simp add: sys_peek_def HTTP_MAX_HEADDER_SIZE_def)
  have fd: "c_u_str_find_pattern (Some HEADER_DELIM) 4
      (Some (blit (replicate HTTP_MAX_HEADDER_SIZE NUL) 0 txt)) (word_of_nat (length txt)) = Inr (int k)"
    using find_in_received [of HEADER_DELIM "txt" "replicate HTTP_MAX_HEADDER_SIZE NUL" 4] assms(6,7) kt
    by (simp add: HTTP_MAX_HEADDER_SIZE_def)
  let ?e = "word_of_int (int k) + 4 :: size_t"
  have ew: "?e = word_of_nat (k + 4)" by simp
  have eu: "unat ?e = k + 4" unfolding ew using kt assms(6) by (simp only: unat_of_nat) simp
  have le: "\<not> b_cap r < ?e" using cap eu by (simp add: word_less_nat_alt)
  let ?es = "if length txt = k + 4 then es else Arrive (drop (k + 4) txt) # es"
  let ?w1 = "(conns h)(fd \<mapsto> c\<lparr>incoming := ?es\<rparr>)"
  have "sys_read fd (unat ?e) (conns h) = (Some (take (k + 4) txt), ?w1)"
    unfolding eu using assms(4,5) ne kt by (auto simp: sys_read_def)
  then have rv: "recv_into fd (Ptr b 0) (unat ?e) h = Inr (int (k + 4),
      upd_block b (blit bs 0 (take (k + 4) txt)) (h\<lparr>conns := ?w1\<rparr>))"
    using ne kt cap b(3,4) by (simp add: recv_into_def)
  let ?h1 = "upd_block b (blit bs 0 (take (k + 4) txt)) (h\<lparr>conns := ?w1\<rparr>)"
  let ?h2 = "set_cbuf a (r\<lparr>b_len := ?e\<rparr>) ?h1"
  have sl: "c_u_buffer_set_len (Some a) (word_of_int (int (k + 4))) ?h1 = Inr (0, ?h2)"
    using b(1) le \<open>b_len r = 0\<close> by (simp add: c_u_buffer_set_len_def)
  have ne1: "int (k + 4) \<noteq> - 1" "word_of_int (int (k + 4)) = ?e" "int (k + 4) \<noteq> 0" by simp_all
  have "c_http_c_buf_recv_header fd (Some a) h = Inr (C_HTTP_SUCESS, ?h2)"
    using b(1,2) \<open>b_cap r \<noteq> 0\<close> \<open>b_len r = 0\<close> assms(3) pk ne fd le rv sl ne1
    by (simp add: c_http_c_buf_recv_header_def Let_def del: of_nat_add)
  moreover have "buf_ok ?h2 a" "contents ?h2 a = take (k + 4) txt"
    using buf_okI [of ?h2 a "r\<lparr>b_len := ?e\<rparr>" b "blit bs 0 (take (k + 4) txt)"] b cap eu kt
    by (simp_all add: word_le_nat_alt blit_def min_def)
  ultimately show ?thesis by auto
qed



text \<open>
  A body chunk that holds the bytes \<open>body\<close>: they are at the front of its block of 8192 bytes, and
  \<open>cur_body_size\<close> is their number.
\<close>

definition chunk_holds :: "'z mheap_scheme \<Rightarrow> CmonHttpMessage \<Rightarrow> byte list \<Rightarrow> bool" where
  "chunk_holds h r body \<longleftrightarrow> cur_body_size r = int (length body) \<and>
     length body \<le> C_HTTP_MAX_BODY_CHUNK \<and>
     (\<exists>b ds. body_chunk r = Ptr b 0 \<and> blocks h b = Some ds \<and> length ds = C_HTTP_MAX_BODY_CHUNK \<and>
        take (length body) ds = body)"

lemma message_holds_chunk: "message_holds h r hdr body n \<Longrightarrow> length body \<le> 8192 \<Longrightarrow> chunk_holds h r body"
  by (auto simp: message_holds_def chunk_holds_def C_HTTP_MAX_BODY_CHUNK_def)

lemma recv_body_chunk_reads:
  assumes "msgs h a = Some r" "chunk_holds h r body" "0 \<le> m_fd r" "conns h (m_fd r) = Some c"
    "length body < C_HTTP_MAX_BODY_CHUNK" "remaining_data r \<noteq> 0"
  shows "(\<exists>h1. c_http_recv_body_chunk (Some a) h = Inr (- 1, h1) \<and> msgs h1 = msgs h \<and>
       blocks h1 = blocks h) \<or>
     (\<exists>bs h1 r1 c1. c_http_recv_body_chunk (Some a) h = Inr (int (length bs), h1) \<and>
       msgs h1 a = Some r1 \<and> chunk_holds h1 r1 (body @ bs) \<and> m_fd r1 = m_fd r \<and>
       remaining_data r1 = remaining_data r - word_of_nat (length bs) \<and>
       conns h1 (m_fd r) = Some c1 \<and> stream (incoming c) = bs @ stream (incoming c1) \<and>
       body_chunk r1 = body_chunk r \<and> total_msg_size r1 = total_msg_size r \<and>
       (\<forall>b. body_chunk r \<noteq> Ptr b 0 \<longrightarrow> blocks h1 b = blocks h b))"
proof -
  from assms(2) obtain b ds where ds: "body_chunk r = Ptr b 0" "blocks h b = Some ds"
    "length ds = C_HTTP_MAX_BODY_CHUNK" "take (length body) ds = body"
    "cur_body_size r = int (length body)" by (auto simp: chunk_holds_def)
  let ?n = "C_HTTP_MAX_BODY_CHUNK - length body"
  have n: "nat (int C_HTTP_MAX_BODY_CHUNK - cur_body_size r) = ?n"
    "\<not> int C_HTTP_MAX_BODY_CHUNK \<le> cur_body_size r" using assms(5) ds(5) by simp_all
  obtain res w1 where rd: "sys_read (m_fd r) ?n (conns h) = (res, w1)"
    by (cases "sys_read (m_fd r) ?n (conns h)")
  have start: "c_http_recv_body_chunk (Some a) h =
      bindE (recv_into (m_fd r) (Ptr b (length body)) ?n h) (\<lambda>(n, h1).
        if n < 0 then Inr (- 1, h1)
        else Inr (n, set_msg a (r\<lparr>remaining_data := remaining_data r - word_of_int n,
                                 cur_body_size := cur_body_size r + n\<rparr>) h1))"
    using assms(1,3,6) ds(1,5) n by (simp add: c_http_recv_body_chunk_def)
  show ?thesis
  proof (cases res)
    case None
    then show ?thesis using start rd by (simp add: recv_into_def)
  next
    case (Some bs)
    have lb: "length bs \<le> ?n" using sys_read_length rd Some by blast
    obtain c1 where c1: "w1 = (conns h)(m_fd r \<mapsto> c1)" "stream (incoming c) = bs @ stream (incoming c1)"
      by (rule sys_read_stream [where w = "conns h" and fd = "m_fd r" and c = c])
        (use assms(4) rd Some in auto)
    let ?ds = "blit ds (length body) bs"
    let ?r1 = "r\<lparr>remaining_data := remaining_data r - word_of_nat (length bs),
      cur_body_size := int (length body) + int (length bs)\<rparr>"
    have "upd_block b ?ds (h\<lparr>conns := w1\<rparr>) = h\<lparr>conns := w1\<rparr>" if "bs = []"
      using that ds(2) by (simp add: upd_block_same)
    then have "recv_into (m_fd r) (Ptr b (length body)) ?n h =
        Inr (int (length bs), upd_block b ?ds (h\<lparr>conns := w1\<rparr>))"
      using rd Some ds(2,3) lb assms(5) by (auto simp: recv_into_def)
    then have "c_http_recv_body_chunk (Some a) h =
        Inr (int (length bs), set_msg a ?r1 (upd_block b ?ds (h\<lparr>conns := w1\<rparr>)))"
      unfolding start using ds(5) by simp
    moreover have "take (length body + length bs) ?ds = body @ bs" "length ?ds = C_HTTP_MAX_BODY_CHUNK"
      using take_blit_all [of "length body" ds bs] ds(3,4) assms(5) lb by simp_all
    then have "chunk_holds (set_msg a ?r1 (upd_block b ?ds (h\<lparr>conns := w1\<rparr>))) ?r1 (body @ bs)"
      using ds(1) lb assms(5) by (simp add: chunk_holds_def)
    moreover have "conns (set_msg a ?r1 (upd_block b ?ds (h\<lparr>conns := w1\<rparr>))) (m_fd r) = Some c1"
      using c1(1) by simp
    ultimately show ?thesis using c1(2) ds(1)
      by (intro disjI2 exI [of _ bs] exI [of _ ?r1] exI [of _ c1]
          exI [of _ "set_msg a ?r1 (upd_block b ?ds (h\<lparr>conns := w1\<rparr>))"] conjI) simp_all
  qed
qed

definition sample_recv_heap :: "size_t \<Rightarrow> mheap" where
  "sample_recv_heap cap = \<lparr>blocks = [0 \<mapsto> replicate (unat cap) NUL], next_blk = 6, allocs = [],
     junk = (\<lambda>_ _. NUL), cbufs = [4 \<mapsto> \<lparr>b_cap = cap, b_len = 0, b_avl = cap, b_buf = Ptr 0 0\<rparr>],
     conns = [7 \<mapsto> \<lparr>incoming = [Arrive (''GET /'' @ HEADER_DELIM @ ''rest'')], outgoing = [],
                 out_script = []\<rparr>], msgs = (\<lambda>_. None)\<rparr>"

lemma sample_recv_heap_ok:
  "heap_ok (sample_recv_heap cap)" "buf_ok (sample_recv_heap cap) 4"
  "contents (sample_recv_heap cap) 4 = []"
  "the (cbufs (sample_recv_heap cap) 4) = \<lparr>b_cap = cap, b_len = 0, b_avl = cap, b_buf = Ptr 0 0\<rparr>"
  by (simp_all add: sample_recv_heap_def heap_ok_def buf_ok_def buf_block_def contents_def)


text \<open>
  When the header is larger than the buffer, \<open>c_http_c_buf_recv_header\<close> never succeeds: growing
  the buffer frees the block twice, or leaves the buffer with a freed block that is then written
  to, and only a failing \<open>realloc\<close> is reported as an error. The buffer of a connection has 500
  bytes.
\<close>

theorem c_http_c_buf_recv_header_large_header:
  assumes "heap_ok h" "buf_ok h a" "contents h a = []" "0 \<le> fd" "conns h fd = Some c"
    "incoming c = Arrive txt # es" "length txt \<le> 8192" "first_occ HEADER_DELIM txt = Some k"
    "0 < b_cap (the (cbufs h a))" "unat (b_cap (the (cbufs h a))) < k + 4"
  shows "c_http_c_buf_recv_header fd (Some a) h \<in>
       {Inl (UB DoubleFree), Inl (UB UseAfterFree)} \<union> {Inr (C_HTTP_BUFFER_ERR, h1) |h1. True}"
proof -
  from assms(2) obtain r b bs where b: "cbufs h a = Some r" "b_buf r = Ptr b 0"
    "blocks h b = Some bs" "length bs = unat (b_cap r)" "b_len r \<le> b_cap r"
    "contents h a = take (unat (b_len r)) bs" "unat (b_len r) \<le> length bs" by (elim buf_okE)
  have cap: "unat (b_cap r) < k + 4" "b_cap r \<noteq> 0" using assms(9,10) b(1) by auto
  have "b_len r = 0" using b(4,6,7) assms(3) cap(2) by (auto simp: unat_eq_zero)
  have kt: "k + 4 \<le> length txt" using first_occ_bound [OF assms(8)] by simp
  then have ne: "txt \<noteq> []" by auto
  have pk: "sys_peek fd HTTP_MAX_HEADDER_SIZE (conns h) = (Some txt, conns h)"
    using sys_read_chunk [of "conns h" fd c "txt" es HTTP_MAX_HEADDER_SIZE] assms(5-7) ne
    by (simp add: sys_peek_def HTTP_MAX_HEADDER_SIZE_def)
  have fnd: "c_u_str_find_pattern (Some HEADER_DELIM) 4
      (Some (blit (replicate HTTP_MAX_HEADDER_SIZE NUL) 0 txt)) (word_of_nat (length txt)) = Inr (int k)"
    using find_in_received [of HEADER_DELIM "txt" "replicate HTTP_MAX_HEADDER_SIZE NUL" 4] assms(7,8) kt
    by (simp add: HTTP_MAX_HEADDER_SIZE_def)
  let ?e = "word_of_int (int k) + 4 :: size_t"
  have "?e = word_of_nat (k + 4)" by simp
  then have eu: "unat ?e = k + 4" using kt assms(7) by (simp only: unat_of_nat) simp
  then have lt: "b_cap r < ?e" using cap(1) by (simp add: word_less_nat_alt)
  obtain e h1 where e: "next_event h = (e, h1)" by (cases "next_event h")
  note f = next_event_fields [OF e]
  have cn: "conns h1 = conns h" "cbufs h1 = cbufs h" using mheap_more [OF f(4)] by simp_all
  have bnb: "b \<noteq> next_blk h" using fresh_neq assms(1) b(3) by blast
  have rd: "\<exists>w1. sys_read fd (unat ?e) (conns h) = (Some (take (k + 4) txt), w1)"
    unfolding eu using assms(5,6) ne kt by (auto simp: sys_read_def)
  have start: "c_http_c_buf_recv_header fd (Some a) h =
      bindE (c_u_buffer_set_capacity (Some a) ?e h) (\<lambda>(rc, h1).
        if rc \<noteq> 0 then Inr (C_HTTP_BUFFER_ERR, h1)
        else bindE (deref (Some a) h1) (\<lambda>r1.
             bindE (recv_into fd (b_buf r1) (unat ?e) h1) (\<lambda>(n, h2).
             if n = - 1 \<or> word_of_int n \<noteq> ?e then Inr (C_HTTP_RECV_ERR, h2)
             else if n = 0 then Inr (C_HTTP_SOCKET_CLOSE, h2)
             else bindE (c_u_buffer_set_len (Some a) (word_of_int n) h2) (\<lambda>(l, h3).
               if l = - 1 then Inr (C_HTTP_BUFFER_ERR, h3)
               else Inr (C_HTTP_SUCESS, h3)))))"
    using b(1,2) cap(2) \<open>b_len r = 0\<close> assms(4) pk ne fnd lt
    by (simp add: c_http_c_buf_recv_header_def Let_def cong: if_cong)
  show ?thesis
  proof (cases e)
    case Fail
    then have "c_u_buffer_set_capacity (Some a) ?e h = Inr (- 2, h1)"
      using b e lt by (simp add: c_u_buffer_set_capacity_def realloc_def not_le)
    then show ?thesis unfolding start by simp
  next
    case Fresh
    then have "c_u_buffer_set_capacity (Some a) ?e h = Inl (UB DoubleFree)"
      using b e lt f bnb by (simp add: c_u_buffer_set_capacity_def realloc_def new_block_def not_le)
    then show ?thesis unfolding start by simp
  next
    case InPlace
    let ?h2 = "set_cbuf a (r\<lparr>b_buf := Ptr b 0, b_cap := ?e\<rparr>)
      (h1\<lparr>blocks := (blocks h1)(b := None)\<rparr>)"
    have "c_u_buffer_set_capacity (Some a) ?e h = Inr (0, ?h2)"
      using InPlace b e lt f cn
      by (simp add: c_u_buffer_set_capacity_def realloc_def not_le upd_block_def)
    moreover have "recv_into fd (Ptr b 0) (unat ?e) ?h2 = Inl (UB UseAfterFree)"
      using rd ne cn by (auto simp: recv_into_def)
    ultimately show ?thesis unfolding start by simp
  qed
qed

theorem c_http_c_buf_recv_header_large_header_witness:
  "c_http_c_buf_recv_header 7 (Some 4) (sample_recv_heap 5) \<in>
     {Inl (UB DoubleFree), Inl (UB UseAfterFree)} \<union> {Inr (C_HTTP_BUFFER_ERR, h1) |h1. True}"
proof -
  let ?t = "''GET /'' @ HEADER_DELIM @ ''rest''"
  let ?c = "\<lparr>incoming = [Arrive ?t], outgoing = [], out_script = []\<rparr>"
  have c: "conns (sample_recv_heap 5) 7 = Some ?c" "incoming ?c = [Arrive ?t]"
    by (simp_all add: sample_recv_heap_def)
  have f: "first_occ HEADER_DELIM ?t = Some 5" by code_simp
  show ?thesis
    by (rule c_http_c_buf_recv_header_large_header [OF sample_recv_heap_ok(1-3) _ c _ f])
      (simp_all add: sample_recv_heap_ok(4))
qed

section \<open>Bodies\<close>

text \<open>
  The two operations on the body of a message, used in turn as the sender of messages uses them: a
  chunk is received, sent on and dropped, \<open>k\<close> times or until one of them fails. The result is what
  was received each time.
\<close>

fun relay_chunks :: "nat \<Rightarrow> nat \<Rightarrow> int \<Rightarrow> 'z mheap_scheme \<Rightarrow> (int list \<times> 'z mheap_scheme) res" where
  "relay_chunks 0 a recever h = Inr ([], h)"
| "relay_chunks (Suc k) a recever h =
     bindE (c_http_recv_body_chunk (Some a) h) (\<lambda>(read_size, h1).
       if read_size < 0 then Inr ([read_size], h1)
       else bindE (c_http_send_body_chunk (Some a) recever C_HTTP_FLUSH_BODY_BUF h1) (\<lambda>(write_size, h2).
         if write_size < 0 then Inr ([read_size], h2)
         else bindE (relay_chunks k a recever h2) (\<lambda>(ns, h3). Inr (read_size # ns, h3))))"

lemma recv_body_chunk_piece:
  assumes "msgs h a = Some r" "chunk_holds h r []" "0 \<le> m_fd r" "remaining_data r \<noteq> 0"
    "conns h (m_fd r) = Some c" "incoming c = Arrive p # es" "p \<noteq> []" "length p \<le> 8192"
  shows "\<exists>h1 r1. c_http_recv_body_chunk (Some a) h = Inr (int (length p), h1) \<and> msgs h1 a = Some r1 \<and>
     chunk_holds h1 r1 p \<and> m_fd r1 = m_fd r \<and>
     remaining_data r1 = remaining_data r - word_of_nat (length p) \<and>
     conns h1 = (conns h)(m_fd r \<mapsto> c\<lparr>incoming := es\<rparr>)"
proof -
  from assms(2) obtain b ds where ds: "body_chunk r = Ptr b 0" "blocks h b = Some ds"
    "length ds = C_HTTP_MAX_BODY_CHUNK" "cur_body_size r = 0" by (auto simp: chunk_holds_def)
  let ?w1 = "(conns h)(m_fd r \<mapsto> c\<lparr>incoming := es\<rparr>)"
  let ?ds = "blit ds 0 p"
  let ?r1 = "r\<lparr>remaining_data := remaining_data r - word_of_nat (length p), cur_body_size := int (length p)\<rparr>"
  have len: "length p \<le> length ds" using ds(3) assms(8) by (simp add: C_HTTP_MAX_BODY_CHUNK_def)
  have "sys_read (m_fd r) C_HTTP_MAX_BODY_CHUNK (conns h) = (Some p, ?w1)"
    using sys_read_chunk [where w = "conns h" and fd = "m_fd r", OF assms(5,6,7)] assms(8) by (simp add: C_HTTP_MAX_BODY_CHUNK_def)
  then have "c_http_recv_body_chunk (Some a) h =
      Inr (int (length p), set_msg a ?r1 (upd_block b ?ds (h\<lparr>conns := ?w1\<rparr>)))"
    using assms(1,3,4,7) ds len by (simp add: c_http_recv_body_chunk_def recv_into_def C_HTTP_MAX_BODY_CHUNK_def)
  moreover have "chunk_holds (set_msg a ?r1 (upd_block b ?ds (h\<lparr>conns := ?w1\<rparr>))) ?r1 p"
    using ds(1,3) len blit_at_start [OF len] by (simp add: chunk_holds_def)
  ultimately show ?thesis by simp
qed

lemma send_body_chunk_all:
  assumes "msgs h a = Some r" "chunk_holds h r body" "0 \<le> recever" "conns h recever = Some d" "out_script d = []"
  shows "\<exists>h1 r1. c_http_send_body_chunk (Some a) recever C_HTTP_FLUSH_BODY_BUF h = Inr (int (length body), h1) \<and>
     msgs h1 a = Some r1 \<and> chunk_holds h1 r1 [] \<and> m_fd r1 = m_fd r \<and> remaining_data r1 = remaining_data r \<and>
     conns h1 = (conns h)(recever \<mapsto> d\<lparr>outgoing := outgoing d @ body\<rparr>)"
proof -
  from assms(2) obtain b ds where ds: "body_chunk r = Ptr b 0" "blocks h b = Some ds"
    "length ds = C_HTTP_MAX_BODY_CHUNK" "take (length body) ds = body" "cur_body_size r = int (length body)"
    "length body \<le> C_HTTP_MAX_BODY_CHUNK" by (auto simp: chunk_holds_def)
  let ?h1 = "h\<lparr>conns := (conns h)(recever \<mapsto> d\<lparr>outgoing := outgoing d @ body\<rparr>)\<rparr>"
  have n: "unat (word_of_nat (length body) :: size_t) = length body"
    using ds(6) by (simp add: unat_of_nat C_HTTP_MAX_BODY_CHUNK_def)
  have "sys_write recever body (conns h) = (int (length body), conns ?h1)"
    using sys_write_all [where w = "conns h" and fd = recever, OF assms(4,5)] by simp
  then have "write_from recever (Some ds) (word_of_nat (length body)) h = Inr (int (length body), ?h1)"
    using n ds(3,4,6) by (simp add: write_from_def)
  then have "c_http_send_body_chunk (Some a) recever C_HTTP_FLUSH_BODY_BUF h =
      Inr (int (length body), set_msg a (r\<lparr>cur_body_size := 0\<rparr>) ?h1)"
    using assms(1,3) ds(1,2,5) by (simp add: c_http_send_body_chunk_def)
  moreover have "chunk_holds (set_msg a (r\<lparr>cur_body_size := 0\<rparr>) ?h1) (r\<lparr>cur_body_size := 0\<rparr>) []"
    using ds(1-3) by (simp add: chunk_holds_def)
  ultimately show ?thesis by simp
qed

lemma relay_chunks_runs:
  assumes "\<forall>p\<in>set ps. p \<noteq> [] \<and> length p \<le> 8192" "length (concat ps) \<le> n" "n < 2 ^ 63" "0 \<le> recever"
    "msgs h a = Some r" "chunk_holds h r []" "0 \<le> m_fd r" "m_fd r \<noteq> recever" "remaining_data r = word_of_nat n"
    "conns h (m_fd r) = Some c" "incoming c = map Arrive ps @ es" "conns h recever = Some d" "out_script d = []"
  shows "\<exists>h1 r1. relay_chunks (length ps) a recever h = Inr (map (\<lambda>p. int (length p)) ps, h1) \<and>
     msgs h1 a = Some r1 \<and> chunk_holds h1 r1 [] \<and> m_fd r1 = m_fd r \<and>
     remaining_data r1 = word_of_nat (n - length (concat ps)) \<and>
     conns h1 = (conns h)(m_fd r \<mapsto> c\<lparr>incoming := es\<rparr>, recever \<mapsto> d\<lparr>outgoing := outgoing d @ concat ps\<rparr>)"
  using assms(1-3,5-)
proof (induction ps arbitrary: n h r c d)
  case Nil
  then show ?case by (auto simp: fun_upd_idem)
next
  case (Cons p ps)
  have p: "p \<noteq> []" "length p \<le> 8192" "length p \<le> n" using Cons.prems(1,2) by simp_all
  then have ne: "remaining_data r \<noteq> 0"
    using size_t_eq_0 [of n] Cons.prems(3,8) by auto
  obtain h1 r1 where 1: "c_http_recv_body_chunk (Some a) h = Inr (int (length p), h1)" "msgs h1 a = Some r1"
    "chunk_holds h1 r1 p" "m_fd r1 = m_fd r" "remaining_data r1 = remaining_data r - word_of_nat (length p)"
    "conns h1 = (conns h)(m_fd r \<mapsto> c\<lparr>incoming := map Arrive ps @ es\<rparr>)"
    using recv_body_chunk_piece [OF Cons.prems(4,5,6) ne Cons.prems(9) _ p(1,2), of "map Arrive ps @ es"] Cons.prems(10)
    by auto
  have d1: "conns h1 recever = Some d" using 1(6) Cons.prems(7,11) by simp
  let ?d = "d\<lparr>outgoing := outgoing d @ p\<rparr>"
  obtain h2 r2 where 2: "c_http_send_body_chunk (Some a) recever C_HTTP_FLUSH_BODY_BUF h1 = Inr (int (length p), h2)"
    "msgs h2 a = Some r2" "chunk_holds h2 r2 []" "m_fd r2 = m_fd r1" "remaining_data r2 = remaining_data r1"
    "conns h2 = (conns h1)(recever \<mapsto> ?d)"
    using send_body_chunk_all [OF 1(2,3) assms(4) d1 Cons.prems(12)] by blast
  let ?c = "c\<lparr>incoming := map Arrive ps @ es\<rparr>"
  have rest: "remaining_data r2 = word_of_nat (n - length p)" using 1(5) 2(5) Cons.prems(8) p(3) by simp
  obtain h3 r3 where 3: "relay_chunks (length ps) a recever h2 = Inr (map (\<lambda>p. int (length p)) ps, h3)"
    "msgs h3 a = Some r3" "chunk_holds h3 r3 []" "m_fd r3 = m_fd r2"
    "remaining_data r3 = word_of_nat (n - length p - length (concat ps))"
    "conns h3 = (conns h2)(m_fd r2 \<mapsto> ?c\<lparr>incoming := es\<rparr>, recever \<mapsto> ?d\<lparr>outgoing := outgoing ?d @ concat ps\<rparr>)"
    using Cons.IH [OF _ _ _ 2(2,3) _ _ rest, of ?c ?d] Cons.prems 1(4,6) 2(4,6) by fastforce
  show ?case
    using 1 2 3 Cons.prems(7) by (intro exI [of _ h3] exI [of _ r3]) (auto simp: fun_upd_def)
qed

text \<open>
  C11. Receiving and sending in turn, a body arrives at the receiver as it was sent, however the stream
  cuts it into pieces, and no byte twice. After the last byte a further call says that the message
  is complete; when the sender closes before that, every call returns 0, which is not the code
  documented for a closed connection.
\<close>

theorem c_http_body_chunks_relay:
  assumes "\<forall>p\<in>set ps. p \<noteq> [] \<and> length p \<le> 8192" "length (concat ps) \<le> n" "n < 2 ^ 63" "0 \<le> recever"
    "msgs h a = Some r" "chunk_holds h r []" "0 \<le> m_fd r" "m_fd r \<noteq> recever" "remaining_data r = word_of_nat n"
    "conns h (m_fd r) = Some c" "incoming c = map Arrive ps" "conns h recever = Some d" "out_script d = []"
  shows "\<exists>h1. relay_chunks (length ps) a recever h = Inr (map (\<lambda>p. int (length p)) ps, h1) \<and>
     conns h1 recever = Some (d\<lparr>outgoing := outgoing d @ concat ps\<rparr>) \<and>
     map_sum id fst (c_http_recv_body_chunk (Some a) h1) =
       Inr (if length (concat ps) = n then C_HTTP_REQUEST_FULLY_RECEV else 0)"
proof -
  obtain h1 r1 where 1: "relay_chunks (length ps) a recever h = Inr (map (\<lambda>p. int (length p)) ps, h1)"
    "msgs h1 a = Some r1" "chunk_holds h1 r1 []" "m_fd r1 = m_fd r"
    "remaining_data r1 = word_of_nat (n - length (concat ps))"
    "conns h1 = (conns h)(m_fd r \<mapsto> c\<lparr>incoming := []\<rparr>, recever \<mapsto> d\<lparr>outgoing := outgoing d @ concat ps\<rparr>)"
    using relay_chunks_runs [OF assms(1-10) _ assms(12,13), of "[]"] assms(11) by auto
  have "sys_read (m_fd r1) C_HTTP_MAX_BODY_CHUNK (conns h1) = (Some [], conns h1)"
    using sys_read_eof [of "conns h1" "m_fd r1" "c\<lparr>incoming := []\<rparr>"] 1(4,6) assms(8)
    by (simp add: fun_upd_idem)
  moreover have "remaining_data r1 = 0 \<longleftrightarrow> length (concat ps) = n"
    unfolding 1(5) using assms(2,3) size_t_eq_0 [of "n - length (concat ps)"] by auto
  moreover have "cur_body_size r1 = 0" using 1(3) by (simp add: chunk_holds_def)
  ultimately show ?thesis
    using 1 assms(7,8) by (simp add: c_http_recv_body_chunk_def recv_into_def C_HTTP_MAX_BODY_CHUNK_def)
qed

definition sample_body_message :: CmonHttpMessage where
  "sample_body_message = \<lparr>headders_buff = [], body_chunk = Ptr 0 0, m_fd = 7, headders_size = 0,
     cur_body_size = 0, content_length = 6, total_msg_size = 6, remaining_data = 6\<rparr>"

definition sample_body_heap :: mheap where
  "sample_body_heap = \<lparr>blocks = [0 \<mapsto> replicate 8192 NUL], next_blk = 6, allocs = [], junk = (\<lambda>_ _. NUL),
     cbufs = (\<lambda>_. None),
     conns = [7 \<mapsto> \<lparr>incoming = map Arrive [''ab'', ''cde''], outgoing = [], out_script = []\<rparr>,
              8 \<mapsto> \<lparr>incoming = [], outgoing = ''x'', out_script = []\<rparr>],
     msgs = [5 \<mapsto> sample_body_message]\<rparr>"

theorem c_http_body_chunks_relay_witness:
  "\<exists>h1. relay_chunks 2 5 8 sample_body_heap = Inr ([2, 3], h1) \<and>
     conns h1 8 = Some \<lparr>incoming = [], outgoing = ''xabcde'', out_script = []\<rparr> \<and>
     map_sum id fst (c_http_recv_body_chunk (Some 5) h1) = Inr 0"
proof -
  have m: "msgs sample_body_heap 5 = Some sample_body_message" "m_fd sample_body_message = 7"
    "remaining_data sample_body_message = word_of_nat 6"
    by (simp_all add: sample_body_heap_def sample_body_message_def)
  have c: "conns sample_body_heap (m_fd sample_body_message) =
      Some \<lparr>incoming = map Arrive [''ab'', ''cde''], outgoing = [], out_script = []\<rparr>"
    "conns sample_body_heap 8 = Some \<lparr>incoming = [], outgoing = ''x'', out_script = []\<rparr>"
    by (simp_all add: sample_body_heap_def sample_body_message_def)
  have "chunk_holds sample_body_heap sample_body_message []"
    by (simp add: chunk_holds_def sample_body_heap_def sample_body_message_def C_HTTP_MAX_BODY_CHUNK_def)
  moreover have "(6 :: nat) < 2 ^ 63" by simp
  ultimately have "\<exists>h1. relay_chunks (length [''ab'', ''cde'']) 5 8 sample_body_heap = Inr ([2, 3], h1) \<and>
     conns h1 8 = Some \<lparr>incoming = [], outgoing = ''xabcde'', out_script = []\<rparr> \<and>
     map_sum id fst (c_http_recv_body_chunk (Some 5) h1) = Inr 0"
    using c_http_body_chunks_relay [of "[''ab'', ''cde'']" 6 8, OF _ _ _ _ m(1) _ _ _ m(3) c(1) _ c(2)] m(2)
    by (simp del: relay_chunks.simps power_Suc)
  then show ?thesis by (simp del: relay_chunks.simps add: numeral_2_eq_2)
qed

end
