(* ===== verification/Sockets.thy ===== *)
theory Sockets
  imports Text_Utils
begin

text \<open>
  \<open>src/src/cmon_proxy/cmon_sockets.c\<close>: the listening socket and the connection to the server. What
  the kernel answers to \<open>socket\<close>, \<open>bind\<close>, \<open>listen\<close> and \<open>connect\<close> is an argument; the descriptors
  that were opened and closed are part of the result. A connection is retried until it succeeds:
  the answers to the successive attempts are a list, and when the list has run out every further
  attempt is refused, so the loop is never left.
\<close>

section \<open>Addresses\<close>

record sockaddr_in =
  sin_family :: int
  sin_addr :: "byte list"
  sin_port :: "byte list"

definition AF_INET :: int where
  "AF_INET = 2"

text \<open>\<open>htons\<close>: the two bytes of a port in network order.\<close>

definition htons :: "16 word \<Rightarrow> byte list" where
  "htons port = [char_of (unat (drop_bit 8 port)), char_of (unat (take_bit 8 port))]"

text \<open>\<open>htonl (INADDR_ANY)\<close>, which is also what \<open>bzero\<close> leaves.\<close>

definition INADDR_ANY :: "byte list" where
  "INADDR_ANY = [NUL, NUL, NUL, NUL]"

text \<open>
  \<open>inet_pton\<close> of the C library for \<open>AF_INET\<close>: four numbers up to 255 with points between them and
  no leading zeros. \<open>None\<close> is an address that is not valid; the destination is then not written.
\<close>

fun pton_loop :: "byte list \<Rightarrow> nat option \<Rightarrow> nat list \<Rightarrow> byte list option" where
  "pton_loop [] cur done = (case cur of
      None \<Rightarrow> None
    | Some v \<Rightarrow> if length done = 3 then Some (map char_of (done @ [v])) else None)"
| "pton_loop (c # s) cur done =
     (if is_digit c then (case cur of
          None \<Rightarrow> pton_loop s (Some (digit_val c)) done
        | Some v \<Rightarrow> if v = 0 \<or> 255 < v * 10 + digit_val c then None
                    else pton_loop s (Some (v * 10 + digit_val c)) done)
      else if c = CHR ''.'' then (case cur of
          None \<Rightarrow> None
        | Some v \<Rightarrow> if length done = 3 then None else pton_loop s None (done @ [v]))
      else None)"

definition inet_pton :: "byte list \<Rightarrow> byte list option" where
  "inet_pton text = pton_loop text None []"

text \<open>The usual notation of an address.\<close>

definition dotted :: "nat \<Rightarrow> nat \<Rightarrow> nat \<Rightarrow> nat \<Rightarrow> byte list" where
  "dotted a b c d = show_dec a @ ''.'' @ show_dec b @ ''.'' @ show_dec c @ ''.'' @ show_dec d"

lemma pton_number:
  "n \<le> 255 \<Longrightarrow> pton_loop (show_dec n @ s) None done = pton_loop s (Some n) done"
proof (induction n arbitrary: s rule: show_dec.induct)
  case (1 n)
  show ?case
  proof (cases "n < 10")
    case True
    then show ?thesis by (subst show_dec.simps) simp
  next
    case False
    have "n div 10 * 10 + n mod 10 = n" by simp
    moreover have "pton_loop (show_dec (n div 10) @ digit_char (n mod 10) # s) None done =
        pton_loop (digit_char (n mod 10) # s) (Some (n div 10)) done"
      using 1 False by simp
    moreover have "n div 10 \<noteq> 0" using False by simp
    ultimately show ?thesis using 1(2) False by (subst show_dec.simps) simp
  qed
qed

lemma inet_pton_dotted:
  assumes "a \<le> 255" "b \<le> 255" "c \<le> 255" "d \<le> 255"
  shows "inet_pton (dotted a b c d) = Some (map char_of [a, b, c, d])"
proof -
  have "\<not> is_digit CHR ''.''" by code_simp
  then show ?thesis
    using assms pton_number [of d "[]"] by (simp add: inet_pton_def dotted_def pton_number)
qed

lemma htons_big_endian:
  "of_char (htons port ! 0) * 256 + of_char (htons port ! 1) = unat port"
proof -
  have "unat port < 256 * 256" using unsigned_less [of port, where 'a = nat] by simp
  then have "unat port div 256 < 256" by (rule less_mult_imp_div_less)
  then show ?thesis
    by (simp add: htons_def unsigned_drop_bit_eq unsigned_take_bit_eq drop_bit_eq_div take_bit_eq_mod
        unat_div_distrib unat_mod_distrib)
qed

section \<open>The listening socket\<close>

text \<open>
  The result is the return value, the address bound, and the descriptors left open.
\<close>

definition c_sockets_get_listening_socket ::
    "16 word \<Rightarrow> int \<Rightarrow> int \<Rightarrow> int \<Rightarrow> int \<times> sockaddr_in option \<times> int list" where
  "c_sockets_get_listening_socket port socket_rc bind_rc listen_rc =
     (if socket_rc < 0 then (- 1, None, [])
      else (let addr = \<lparr>sin_family = AF_INET, sin_addr = INADDR_ANY, sin_port = htons port\<rparr> in
        if bind_rc \<noteq> 0 then (- 1, Some addr, [socket_rc])
        else if listen_rc < 0 then (- 2, Some addr, [socket_rc])
        else (socket_rc, Some addr, [socket_rc])))"

section \<open>The connection to the server\<close>

text \<open>
  \<open>_try_connect\<close>: each attempt is the descriptor \<open>socket\<close> gives and the code \<open>connect\<close> gives. The
  result is the return value, the descriptors closed on the way and the attempts not used.
\<close>

type_synonym attempt = "int \<times> int"

fun try_connect :: "attempt list \<Rightarrow> (int \<times> int list \<times> attempt list) res" where
  "try_connect [] = Inl Diverge"
| "try_connect ((sock_fd, rc) # as) =
     (if sock_fd < 0 then Inr (- 1, [], as)
      else if rc = 0 then Inr (sock_fd, [], as)
      else bindE (try_connect as) (\<lambda>(r, closed, bs). Inr (r, sock_fd # closed, bs)))"

definition c_sockets_get_server_connection ::
    "16 word \<Rightarrow> byte list option \<Rightarrow> attempt list \<Rightarrow> (int \<times> sockaddr_in \<times> int list \<times> attempt list) res" where
  "c_sockets_get_server_connection port addr as =
     (let ip_addr = (case addr of None \<Rightarrow> ''127.0.0.1'' | Some a \<Rightarrow> a);
          server_addr = \<lparr>sin_family = AF_INET,
            sin_addr = (case inet_pton ip_addr of None \<Rightarrow> INADDR_ANY | Some ip \<Rightarrow> ip), sin_port = htons port\<rparr>
      in bindE (try_connect as) (\<lambda>(sock_fd, closed, bs).
           if sock_fd < 0 then Inr (- 1, server_addr, closed, bs)
           else Inr (sock_fd, server_addr, closed, bs)))"

section \<open>Facts\<close>

lemma try_connect_retries:
  assumes "\<forall>(fd, rc)\<in>set as. 0 \<le> fd \<and> rc \<noteq> 0" "0 \<le> fd"
  shows "try_connect (as @ (fd, 0) # bs) = Inr (fd, map fst as, bs)"
  using assms by (induction as) auto

lemma try_connect_refused:
  "\<forall>(fd, rc)\<in>set as. 0 \<le> fd \<and> rc \<noteq> 0 \<Longrightarrow> try_connect as = Inl Diverge"
  by (induction as) auto

section \<open>Properties\<close>

text \<open>
  C36. The connection is retried as often as it is refused, and every socket of a refused attempt
  is closed: the descriptor returned is the one of the first accepted attempt, and the others are
  exactly the ones closed. While every attempt is refused the call does not return. The address
  connected to is the one that is written out, or 127.0.0.1 without one, and a text that is no
  address is taken for 0.0.0.0 without an error.
\<close>

theorem c_sockets_get_server_connection_retries:
  assumes "\<forall>(fd, rc)\<in>set as. 0 \<le> fd \<and> rc \<noteq> 0" "0 \<le> fd" "a \<le> 255" "b \<le> 255" "c \<le> 255" "d \<le> 255"
    "inet_pton bad = None"
  shows "c_sockets_get_server_connection port (Some (dotted a b c d)) (as @ (fd, 0) # bs) =
       Inr (fd, \<lparr>sin_family = AF_INET, sin_addr = map char_of [a, b, c, d], sin_port = htons port\<rparr>, map fst as, bs) \<and>
     c_sockets_get_server_connection port None (as @ (fd, 0) # bs) =
       c_sockets_get_server_connection port (Some (dotted 127 0 0 1)) (as @ (fd, 0) # bs) \<and>
     c_sockets_get_server_connection port (Some bad) (as @ (fd, 0) # bs) =
       c_sockets_get_server_connection port (Some (dotted 0 0 0 0)) (as @ (fd, 0) # bs) \<and>
     c_sockets_get_server_connection port addr as = Inl Diverge"
proof -
  have "inet_pton ''127.0.0.1'' = inet_pton (dotted 127 0 0 1)" by code_simp
  moreover have "map char_of [0, 0, 0, 0 :: nat] = INADDR_ANY" by code_simp
  ultimately show ?thesis
    using try_connect_retries [OF assms(1,2)] try_connect_refused [OF assms(1)] assms(2)
      inet_pton_dotted [OF assms(3-6)] inet_pton_dotted [of 0 0 0 0] assms(7)
    by (simp add: c_sockets_get_server_connection_def)
qed

theorem c_sockets_get_server_connection_retries_witness:
  "c_sockets_get_server_connection 3000 (Some (dotted 10 0 0 255)) ([(4, - 1), (5, - 1)] @ (6, 0) # []) =
     Inr (6, \<lparr>sin_family = AF_INET, sin_addr = map char_of [10, 0, 0, 255 :: nat], sin_port = htons 3000\<rparr>, [4, 5], [])"
proof -
  have "inet_pton ''10.0.256.1'' = None" by code_simp
  then show ?thesis
    using c_sockets_get_server_connection_retries [of "[(4, - 1), (5, - 1)]" 6 10 0 0 255 "''10.0.256.1''" 3000 "[]"] by auto
qed

end
