(* ===== verification/Proxy.thy ===== *)
theory Proxy
  imports Http_Message Sockets
begin

text \<open>
  \<open>src/src/cmon_proxy/cmon_proxy.c\<close>: forwarding a message with the reload script injected before
  \<open></body>\<close> (\<open>c_proxy_send_message\<close>), the request/response loop over one connection
  (\<open>c_proxy_handle_client\<close>), the state machine that is meant to replace it
  (\<open>c_proxy_communication_manager\<close>), and the accept loop that starts one thread per connection
  (\<open>c_proxy_start\<close>). A loop that may run forever is a \<open>partial_function\<close>, so that not returning is
  \<open>None\<close>; the state machine and the accept loop are step relations.
\<close>

section \<open>Constants and structures\<close>

definition SERVER_PORT :: "16 word" where
  "SERVER_PORT = 3000"

definition PROXY_PORT :: "16 word" where
  "PROXY_PORT = 7000"

datatype comm_state = CONNECTING | END | WAITING_HEADER | PROCESING_HEADER

definition CMON_SSE_PAYLOAD :: "byte list" where
  \<open>CMON_SSE_PAYLOAD = ''<script>'' @ [LF] @
     ''  const es = new EventSource("/events");'' @ [LF] @
     ''  es.onmessage = () => location.reload();'' @ [LF] @ ''</script>'' @ [LF]\<close>

definition serch_tag :: "byte list" where
  "serch_tag = ''</body>''"

text \<open>\<open>strnlen(CMON_SSE_PAYLOAD, 100)\<close>.\<close>

definition payload_size :: size_t where
  "payload_size = word_of_nat (min 100 (length CMON_SSE_PAYLOAD))"

record CmonProxyCommManager =
  c_state :: comm_state
  c_sender :: int
  c_receiver :: int
  c_data_send_size :: size_t
  c_content_length :: size_t
  c_header :: buf_ptr

record CmonProxyInjectionManager =
  i_payload :: ptr
  i_payload_size :: size_t
  i_inject_key :: ptr
  i_inject_key_size :: size_t

definition c_proxy_injection_manager_add ::
    "CmonProxyCommManager \<Rightarrow> ptr \<Rightarrow> size_t \<Rightarrow> ptr \<Rightarrow> size_t \<Rightarrow> int \<times> CmonProxyCommManager" where
  "c_proxy_injection_manager_add m payload psize key key_size = (0, m)"

section \<open>Sending a message\<close>

text \<open>\<open>strncpy\<close> from a string constant: the bytes are stored one by one.\<close>

fun store_bytes :: "ptr \<Rightarrow> nat \<Rightarrow> byte list \<Rightarrow> 'z heap_scheme \<Rightarrow> 'z heap_scheme res" where
  "store_bytes p i [] h = Inr h"
| "store_bytes p i (c # cs) h = bindE (store (ptr_add p i) c h) (store_bytes p (Suc i) cs)"

definition strncpy_const :: "ptr \<Rightarrow> byte list \<Rightarrow> size_t \<Rightarrow> 'z heap_scheme \<Rightarrow> 'z heap_scheme res" where
  "strncpy_const dst str n h = store_bytes dst 0 (strncpy_bytes (unat n) (str @ [NUL])) h"

text \<open>
  The injection of the payload at index \<open>rc\<close> of the body chunk, into a new block that replaces it.
\<close>

definition inject_payload :: "nat \<Rightarrow> int \<Rightarrow> 'z mheap_scheme \<Rightarrow> 'z mheap_scheme res" where
  "inject_payload a rc h =
     bindE (msg_at (Some a) h) (\<lambda>r.
       case malloc (unat (word_of_int (cur_body_size r) + payload_size)) h of (new, h1) \<Rightarrow>
       bindE (strncpy new (body_chunk r) (word_of_int (rc - 1)) h1) (\<lambda>h2.
       bindE (strncpy_const (ptr_add new (nat rc)) CMON_SSE_PAYLOAD payload_size h2) (\<lambda>h3.
       bindE (strncpy (ptr_add new (nat rc + 1 + unat payload_size)) (ptr_add (body_chunk r) (nat rc))
                (word_of_int (cur_body_size r - rc)) h3) (\<lambda>h4.
       bindE (c_free (body_chunk r) h4) (\<lambda>h5.
       Inr (set_msg a (r\<lparr>body_chunk := new\<rparr>) h5))))))"

text \<open>
  The search for the tag in the chunk, else in the last bytes of the previous chunk joined with the
  first ones of this, and the saving of the last bytes for the next time. \<open>buff\<close> has 12 bytes.
\<close>

definition search_and_inject :: "nat \<Rightarrow> ptr \<Rightarrow> 'z mheap_scheme \<Rightarrow> (bool \<times> 'z mheap_scheme) res" where
  "search_and_inject a buff h =
     bindE (msg_at (Some a) h) (\<lambda>r.
     bindE (mem_from (body_chunk r) h) (\<lambda>chunk.
     bindE (c_u_str_find_pattern (Some serch_tag) 7 chunk (word_of_int (cur_body_size r))) (\<lambda>rc.
     bindE (if rc = - 1 then
              bindE (strncpy (ptr_add buff 7) (body_chunk r) 6 h) (\<lambda>h1.
              bindE (mem_from buff h1) (\<lambda>joined.
              bindE (c_u_str_find_pattern (Some serch_tag) 7 joined 12) (\<lambda>rc1.
                if 0 < rc1 then bindE (inject_payload a rc1 h1) (\<lambda>h2. Inr (True, h2))
                else Inr (False, h1))))
            else bindE (inject_payload a rc h) (\<lambda>h2. Inr (True, h2))) (\<lambda>(done, h3).
     bindE (msg_at (Some a) h3) (\<lambda>r3.
     bindE (strncpy buff (ptr_add (body_chunk r3) (unat (word_of_int (cur_body_size r3) - 7 - 1 :: size_t)))
              6 h3) (\<lambda>h4.
     Inr (done, h4)))))))"

text \<open>
  One pass of the sending loop: it returns from the function (with what was stored through
  \<open>send_size\<close>, if anything was) or goes on with a new total.
\<close>

datatype send_pass = Returned int "size_t option" | Again bool size_t

definition send_step ::
    "nat \<Rightarrow> int \<Rightarrow> ptr \<Rightarrow> bool \<Rightarrow> size_t \<Rightarrow> 'z mheap_scheme \<Rightarrow> (send_pass \<times> 'z mheap_scheme) res" where
  "send_step a recever buff inyect tot h =
     bindE (c_http_recv_body_chunk (Some a) h) (\<lambda>(read_size, h1).
       if read_size = - 1 then Inr (Returned (- 1) (Some tot), h1)
       else if read_size = C_HTTP_CONNECTION_CLOSED
         then Inr (Returned C_HTTP_CONNECTION_CLOSED (Some tot), h1)
       else bindE (if inyect then Inr (True, h1) else search_and_inject a buff h1) (\<lambda>(inyect1, h2).
            bindE (msg_at (Some a) h2) (\<lambda>r.
            bindE (store (ptr_add (body_chunk r) (unat (word_of_int (cur_body_size r) :: size_t))) NUL h2)
              (\<lambda>h3.
            bindE (c_http_send_body_chunk (Some a) recever C_HTTP_FLUSH_BODY_BUF h3) (\<lambda>(write_size, h4).
              if write_size = - 1 then Inr (Returned (- 1) None, h4)
              else Inr (Again inyect1 (tot + word_of_int write_size), h4))))))"

partial_function (option) send_loop ::
    "nat \<Rightarrow> int \<Rightarrow> ptr \<Rightarrow> bool \<Rightarrow> size_t \<Rightarrow> mheap \<Rightarrow> (int \<times> size_t option \<times> mheap) res option" where
  "send_loop a recever buff inyect tot h =
     (case msg_at (Some a) h of
        Inl e \<Rightarrow> Some (Inl e)
      | Inr r \<Rightarrow>
          if tot < total_msg_size r then
            (case send_step a recever buff inyect tot h of
               Inl e \<Rightarrow> Some (Inl e)
             | Inr (Returned rc s, h1) \<Rightarrow> Some (Inr (rc, s, h1))
             | Inr (Again inyect1 total1, h1) \<Rightarrow> send_loop a recever buff inyect1 total1 h1)
          else if tot = total_msg_size r then Some (Inr (sint (ucast tot :: 32 word), Some tot, h))
          else Some (Inr (- 1, None, h)))"

text \<open>
  \<open>c_proxy_send_message\<close>: the return value, what was stored through \<open>send_size\<close>, and the state.
\<close>

definition c_proxy_send_message ::
    "msg_ptr \<Rightarrow> int \<Rightarrow> mheap \<Rightarrow> (int \<times> size_t option \<times> mheap) res option" where
  "c_proxy_send_message m recever h = (case malloc 12 h of (buff, h1) \<Rightarrow>
     (case m of
        None \<Rightarrow> Some (Inr (- 1, Some 0, h1))
      | Some a \<Rightarrow>
          if recever < 0 then Some (Inr (- 1, Some 0, h1))
          else (case c_http_send_headers m recever h1 of
              Inl e \<Rightarrow> Some (Inl e)
            | Inr (write_size, h2) \<Rightarrow>
                if write_size = - 1 then Some (Inr (- 1, Some 0, h2))
                else send_loop a recever buff False (word_of_int write_size) h2)))"

section \<open>The request/response loop\<close>

text \<open>
  Both connections as they are left, the client's first: what was written to a peer is seen there.
\<close>

type_synonym left_conns = "conn option \<times> conn option \<times> mheap"

definition close_both :: "int \<Rightarrow> int \<Rightarrow> mheap \<Rightarrow> left_conns" where
  "close_both client_fd server_fd h =
     (case sys_close client_fd (conns h) of (c, w1) \<Rightarrow>
      case sys_close server_fd w1 of (d, w2) \<Rightarrow> (c, d, h\<lparr>conns := w2\<rparr>))"

definition close_and_free :: "int \<Rightarrow> int \<Rightarrow> nat \<Rightarrow> mheap \<Rightarrow> left_conns" where
  "close_and_free client_fd server_fd a h =
     (case close_both client_fd server_fd h of (c, d, h1) \<Rightarrow> (c, d, free_msg a h1))"

text \<open>
  The loop of \<open>c_proxy_handle_client\<close>: a request from the client to the server, then a response
  back. The request is checked for \<open>NULL\<close>; the response is not, its \<open>headders_size\<close> is read at once.
  The function returns nothing; the model returns the two connections as the loop has left them.
\<close>

partial_function (option) handle_loop :: "int \<Rightarrow> int \<Rightarrow> mheap \<Rightarrow> left_conns res option" where
  "handle_loop client_fd server_fd h =
     (case c_http_get_message client_fd h of
        Inl e \<Rightarrow> Some (Inl e)
      | Inr (None, h1) \<Rightarrow> Some (Inr (close_both client_fd server_fd h1))
      | Inr (Some a, h1) \<Rightarrow>
          Option.bind (c_proxy_send_message (Some a) server_fd h1) (\<lambda>req. (case req of
             Inl e \<Rightarrow> Some (Inl e)
           | Inr (data_send, s, h2) \<Rightarrow>
               if data_send = - 1 \<or> data_send = C_HTTP_CONNECTION_CLOSED
               then Some (Inr (close_and_free client_fd server_fd a h2))
               else (case c_http_get_message server_fd (free_msg a h2) of
                  Inl e \<Rightarrow> Some (Inl e)
                | Inr (m, h3) \<Rightarrow> (case msg_at m h3 of
                    Inl e \<Rightarrow> Some (Inl e)
                  | Inr r \<Rightarrow>
                      if headders_size r = 0 then Some (Inr (close_both client_fd server_fd h3))
                      else Option.bind (c_proxy_send_message m client_fd h3) (\<lambda>res. (case res of
                         Inl e \<Rightarrow> Some (Inl e)
                       | Inr (sent, s1, h4) \<Rightarrow>
                           if sent = C_HTTP_CONNECTION_CLOSED \<or> sent = - 1
                           then Some (Inr (close_and_free client_fd server_fd (the m) h4))
                           else handle_loop client_fd server_fd (free_msg (the m) h4))))))))"

definition c_proxy_handle_client :: "int \<Rightarrow> attempt list \<Rightarrow> mheap \<Rightarrow> left_conns res option" where
  "c_proxy_handle_client fd as h =
     (case c_sockets_get_server_connection SERVER_PORT None as of
        Inl e \<Rightarrow> Some (Inl e)
      | Inr (server_fd, addr, closed, bs) \<Rightarrow> handle_loop fd server_fd h)"

section \<open>The communication state machine\<close>

text \<open>
  \<open>_c_proxy_might_inject\<close> looks the content type up into a zeroed buffer on the stack (\<open>a\<close> is the
  stack buffer's place); it has no return statement, so its value is indeterminate.
\<close>

definition c_proxy_might_inject :: "CmonProxyCommManager \<Rightarrow> nat \<Rightarrow> mheap \<Rightarrow> mheap res" where
  "c_proxy_might_inject com a h =
     bindE (c_http_buf_get_header_field (c_header com) (Some ''Content-Type'') 12 (Some a)
              (set_cbuf a \<lparr>b_cap = 0, b_len = 0, b_avl = 0, b_buf = Null\<rparr> h)) (\<lambda>(rc, h1). Inr h1)"

definition c_proxy_handle_waiting_header_state ::
    "CmonProxyCommManager \<Rightarrow> mheap \<Rightarrow> (int \<times> CmonProxyCommManager \<times> mheap) res" where
  "c_proxy_handle_waiting_header_state com h =
     bindE (c_u_buffer_empty 500 h) (\<lambda>(header, h1).
     bindE (c_http_c_buf_recv_header (c_sender com) header h1) (\<lambda>(rc, h2).
       if rc \<noteq> C_HTTP_SUCESS then Inr (- 1, com, h2)
       else Inr (0, com\<lparr>c_header := header, c_state := PROCESING_HEADER\<rparr>, h2)))"

definition c_proxy_handle_proecessing_header :: "CmonProxyCommManager \<Rightarrow> int" where
  "c_proxy_handle_proecessing_header com = 0"

definition comm_init :: "int \<Rightarrow> int \<Rightarrow> size_t \<Rightarrow> buf_ptr \<Rightarrow> CmonProxyCommManager" where
  "comm_init client_fd server_fd sz hdr =
     \<lparr>c_state = WAITING_HEADER, c_sender = client_fd, c_receiver = server_fd,
      c_data_send_size = sz, c_content_length = 0, c_header = hdr\<rparr>"

text \<open>One turn of the endless loop of \<open>c_proxy_communication_manager\<close>.\<close>

definition comm_turn :: "CmonProxyCommManager \<Rightarrow> mheap \<Rightarrow> (CmonProxyCommManager \<times> mheap) res" where
  "comm_turn com h = (case c_state com of
      WAITING_HEADER \<Rightarrow>
        bindE (c_proxy_handle_waiting_header_state com h) (\<lambda>(rc, com1, h1). Inr (com1, h1))
    | PROCESING_HEADER \<Rightarrow> Inl (Exit 0)
    | _ \<Rightarrow> Inr (com, h))"

inductive comm_reach ::
    "CmonProxyCommManager \<times> mheap \<Rightarrow> nat \<Rightarrow> CmonProxyCommManager \<times> mheap \<Rightarrow> bool" for s where
  comm_start: "comm_reach s 0 s"
| comm_next: "comm_reach s n (com, h) \<Longrightarrow> comm_turn com h = Inr (com1, h1) \<Longrightarrow>
    comm_reach s (Suc n) (com1, h1)"

inductive_cases comm_reach_0E: "comm_reach s 0 t"
inductive_cases comm_reach_SucE: "comm_reach s (Suc n) t"

section \<open>The accept loop\<close>

text \<open>
  \<open>c_proxy_start\<close> hands every thread the address of the one variable \<open>rc\<close> that the next
  \<open>accept\<close> overwrites. The state: the variable, the results \<open>accept\<close> is still to give, how many it
  has given, the threads that have not read their descriptor yet, and the descriptors read. A
  thread is named by the number of the \<open>accept\<close> it was created after. A step is an \<open>accept\<close> of the
  main thread, with a new thread unless it failed or \<open>pthread_create\<close> fails, or the read of a
  waiting thread.
\<close>

record accept_state =
  a_rc :: int
  a_results :: "int list"
  a_count :: nat
  a_waiting :: "nat set"
  a_client :: "nat \<Rightarrow> int option"

definition accept_init :: "int list \<Rightarrow> accept_state" where
  "accept_init rs = \<lparr>a_rc = 0, a_results = rs, a_count = 0, a_waiting = {}, a_client = (\<lambda>_. None)\<rparr>"

inductive accept_step :: "accept_state \<Rightarrow> accept_state \<Rightarrow> bool" where
  accept_fails: "a_results s = - 1 # rs \<Longrightarrow>
    accept_step s (s\<lparr>a_rc := - 1, a_results := rs, a_count := Suc (a_count s)\<rparr>)"
| accept_starts: "a_results s = r # rs \<Longrightarrow> r \<noteq> - 1 \<Longrightarrow>
    accept_step s (s\<lparr>a_rc := r, a_results := rs, a_count := Suc (a_count s),
                     a_waiting := insert (a_count s) (a_waiting s)\<rparr>)"
| accept_no_thread: "a_results s = r # rs \<Longrightarrow> r \<noteq> - 1 \<Longrightarrow>
    accept_step s (s\<lparr>a_rc := r, a_results := rs, a_count := Suc (a_count s)\<rparr>)"
| thread_reads: "t \<in> a_waiting s \<Longrightarrow>
    accept_step s (s\<lparr>a_waiting := a_waiting s - {t}, a_client := (a_client s)(t \<mapsto> a_rc s)\<rparr>)"

inductive accept_reach :: "accept_state \<Rightarrow> accept_state \<Rightarrow> bool" for s where
  accept_start: "accept_reach s s"
| accept_next: "accept_reach s t \<Longrightarrow> accept_step t u \<Longrightarrow> accept_reach s u"

definition c_proxy_start :: "int \<Rightarrow> int \<Rightarrow> int \<Rightarrow> int list \<Rightarrow> int + accept_state" where
  "c_proxy_start socket_rc bind_rc listen_rc rs =
     (case c_sockets_get_listening_socket PROXY_PORT socket_rc bind_rc listen_rc of
        (listening_fd, addr, opened) \<Rightarrow>
          if listening_fd < 0 then Inl (- 1) else Inr (accept_init rs))"

section \<open>Overflowing copies\<close>

definition is_ub :: "'a res \<Rightarrow> bool" where
  "is_ub r \<longleftrightarrow> (\<exists>u. r = Inl (UB u))"

lemma is_ub_Inl [simp]: "is_ub (Inl e) = (\<exists>u. e = UB u)" and is_ub_Inr [simp]: "\<not> is_ub (Inr x)"
  by (simp_all add: is_ub_def)

lemma is_ub_bindE [intro]: "is_ub m \<Longrightarrow> is_ub (bindE m f)"
  by (auto simp: is_ub_def)

lemma is_ub_bindE_cases:
  assumes "is_ub m \<or> (\<exists>x. m = Inr x)" "\<And>x. m = Inr x \<Longrightarrow> is_ub (f x)"
  shows "is_ub (bindE m f)"
  using assms by auto

lemma or_ub_bindE:
  assumes "is_ub m \<or> (\<exists>x. m = Inr x)" "\<And>x. is_ub (f x) \<or> (\<exists>y. f x = Inr y)"
  shows "is_ub (bindE m f) \<or> (\<exists>y. bindE m f = Inr y)"
  using assms(1)
proof (elim disjE exE)
  fix x assume "m = Inr x"
  then show ?thesis using assms(2) [of x] by auto
qed auto

text \<open>Two heaps with the same blocks, of the same sizes.\<close>

definition same_sizes :: "'z heap_scheme \<Rightarrow> 'z heap_scheme \<Rightarrow> bool" where
  "same_sizes h h1 \<longleftrightarrow> (\<forall>b. map_option length (blocks h1 b) = map_option length (blocks h b))"

lemma same_sizes_refl [simp]: "same_sizes h h"
  by (simp add: same_sizes_def)

lemma same_sizes_trans: "same_sizes h h1 \<Longrightarrow> same_sizes h1 h2 \<Longrightarrow> same_sizes h h2"
  by (simp add: same_sizes_def)

lemma same_sizesD:
  assumes "same_sizes h h1" "blocks h b = Some ds"
  obtains ds1 where "blocks h1 b = Some ds1" "length ds1 = length ds"
proof -
  have "map_option length (blocks h1 b) = Some (length ds)"
    using assms by (simp add: same_sizes_def)
  then show thesis using that by (cases "blocks h1 b") auto
qed

lemma load_or_ub: "is_ub (load p h) \<or> (\<exists>c. load p h = Inr c)"
  by (cases p) (auto split: option.splits)

lemma store_or_ub: "is_ub (store p c h) \<or> (\<exists>h1. store p c h = Inr h1)"
  by (cases p) (auto split: option.splits)

lemma store_same_sizes: "store p c h = Inr h1 \<Longrightarrow> same_sizes h h1"
  by (cases p) (auto simp: same_sizes_def split: option.splits if_splits)

lemma strncpy_loop_sizes:
  "strncpy_loop dst src e i k h = Inr h1 \<Longrightarrow> same_sizes h h1"
proof (induction dst src e i k h rule: strncpy_loop.induct)
  case (2 dst src ended i k h)
  then show ?case
    by (auto simp: bindE_eq_Inr split: if_splits intro: same_sizes_trans [OF store_same_sizes])
qed simp

lemma strncpy_loop_or_ub:
  "is_ub (strncpy_loop dst src e i k h) \<or> (\<exists>h1. strncpy_loop dst src e i k h = Inr h1)"
proof (induction dst src e i k h rule: strncpy_loop.induct)
  case (2 dst src ended i k h)
  show ?case
  proof (cases ended)
    case True
    then show ?thesis using 2(1) store_or_ub [of "ptr_add dst i" NUL h] by auto
  next
    case False
    consider "is_ub (load (ptr_add src i) h)" | c where "load (ptr_add src i) h = Inr c"
      using load_or_ub by blast
    then show ?thesis
    proof cases
      case 1
      with False show ?thesis by auto
    next
      case (2 c)
      with False "2.IH"(2) show ?thesis using store_or_ub [of "ptr_add dst i" c h] by fastforce
    qed
  qed
qed simp

text \<open>A copy that does not fit into the block of its destination is undefined.\<close>

lemma strncpy_loop_overflow:
  "blocks h d = Some ds \<Longrightarrow> length ds < dofs + i + k \<Longrightarrow> 0 < k \<Longrightarrow>
   is_ub (strncpy_loop (Ptr d dofs) src e i k h)"
proof (induction k arbitrary: i e h ds)
  case (Suc k)
  have rest: "is_ub (bindE (store (ptr_add (Ptr d dofs) i) c h)
      (\<lambda>h1. strncpy_loop (Ptr d dofs) src e1 (Suc i) k h1))" for c e1
  proof (cases "dofs + i < length ds")
    case True
    with Suc.prems have "store (ptr_add (Ptr d dofs) i) c h = Inr (upd_block d (ds[dofs + i := c]) h)"
      by simp
    moreover have "0 < k" using True Suc.prems(2) by auto
    ultimately show ?thesis using Suc.prems(2) by (simp add: Suc.IH)
  next
    case False
    with Suc.prems show ?thesis by simp
  qed
  show ?case
  proof (cases e)
    case True
    with rest show ?thesis by simp
  next
    case False
    with rest load_or_ub [of "ptr_add src i" h] show ?thesis by auto
  qed
qed simp

lemma strncpy_overflow:
  "blocks h d = Some ds \<Longrightarrow> length ds < dofs + unat n \<Longrightarrow> 0 < unat n \<Longrightarrow>
   is_ub (strncpy (Ptr d dofs) src n h)"
  using strncpy_loop_overflow [of h d ds dofs 0 "unat n" src False] by (simp add: strncpy_def)

lemma strncpy_invalid: "0 < unat n \<Longrightarrow> dst = Null \<or> dst = Wild \<Longrightarrow> is_ub (strncpy dst src n h)"
  using load_or_ub [of "ptr_add src 0" h]
  by (cases "unat n") (auto simp: strncpy_def)

lemma strncpy_or_ub: "is_ub (strncpy d s n h) \<or> (\<exists>h1. strncpy d s n h = Inr h1)"
  by (simp add: strncpy_def strncpy_loop_or_ub)

lemma strncpy_sizes: "strncpy d s n h = Inr h1 \<Longrightarrow> same_sizes h h1"
  by (auto simp: strncpy_def dest: strncpy_loop_sizes)

lemma store_bytes_or_ub: "is_ub (store_bytes p i cs h) \<or> (\<exists>h1. store_bytes p i cs h = Inr h1)"
proof (induction p i cs h rule: store_bytes.induct)
  case (2 p i c cs h)
  then show ?case using store_or_ub [of "ptr_add p i" c h] by auto
qed simp

lemma store_bytes_sizes: "store_bytes p i cs h = Inr h1 \<Longrightarrow> same_sizes h h1"
  by (induction p i cs h rule: store_bytes.induct)
    (auto simp: bindE_eq_Inr intro: same_sizes_trans [OF store_same_sizes])

lemma payload_size_value: "payload_size = 100"
  by (simp add: payload_size_def CMON_SSE_PAYLOAD_def)

lemma inject_payload_overflows:
  assumes "msgs h a = Some r" "cur_body_size r = int c" "k + 7 \<le> c" "c \<le> 8192"
  shows "is_ub (inject_payload a (int k) h)"
proof -
  let ?m = "unat (word_of_int (cur_body_size r) + payload_size)"
  have "unat (word_of_nat c :: size_t) = c" using assms(4) by (simp add: unat_of_nat)
  then have m: "?m = c + 100"
    using assms(2,4) unat_add_no_wrap [of "word_of_nat c" 100] by (simp add: payload_size_value)
  obtain new h1 where mal: "malloc ?m h = (new, h1)" by (cases "malloc ?m h")
  have "word_of_int (cur_body_size r - int k) = (word_of_nat (c - k) :: size_t)"
    using assms(2,3) by (simp add: of_nat_diff)
  moreover have "unat (word_of_nat (c - k) :: size_t) = c - k"
    using assms(3,4) by (simp only: unat_of_nat) simp
  ultimately have n: "unat (word_of_int (cur_body_size r - int k) :: size_t) = c - k" by simp
  have third: "is_ub (strncpy (ptr_add new (nat (int k) + 1 + unat payload_size)) src
      (word_of_int (cur_body_size r - int k)) h3)" if ss: "same_sizes h1 h3" for src h3
  proof (cases rule: malloc_cases [of ?m h])
    case fail
    with mal have "new = Null" by simp
    then show ?thesis using n assms(3) by (intro strncpy_invalid) simp_all
  next
    case (ok h2 bs)
    with mal have "new = Ptr (next_blk h) 0" "blocks h1 (next_blk h) = Some bs" by simp_all
    moreover from this(2) obtain ds where "blocks h3 (next_blk h) = Some ds" "length ds = length bs"
      using same_sizesD [OF ss] by blast
    ultimately show ?thesis
      using ok(2) m n assms(3) strncpy_overflow [of h3 "next_blk h" ds] by (simp add: payload_size_value)
  qed
  show ?thesis
    unfolding inject_payload_def msg_at_Some [OF assms(1)] bindE_Inr mal prod.case strncpy_const_def
    by (rule is_ub_bindE_cases, rule strncpy_or_ub, rule is_ub_bindE_cases, rule store_bytes_or_ub,
        rule is_ub_bindE, rule third, rule same_sizes_trans, erule strncpy_sizes,
        erule store_bytes_sizes)
qed

lemma inject_payload_or_ub:
  assumes "msgs h a = Some r"
  shows "is_ub (inject_payload a rc h) \<or> (\<exists>h1. inject_payload a rc h = Inr h1)"
proof -
  obtain new h1 where mal: "malloc (unat (word_of_int (cur_body_size r) + payload_size)) h = (new, h1)"
    by (cases "malloc (unat (word_of_int (cur_body_size r) + payload_size)) h")
  have free: "is_ub (c_free p k) \<or> (\<exists>h1. c_free p k = Inr h1)" for p and k :: "'a mheap_scheme"
    by (cases p) auto
  show ?thesis
    unfolding inject_payload_def msg_at_Some [OF assms] bindE_Inr mal prod.case strncpy_const_def
    by (intro or_ub_bindE strncpy_or_ub store_bytes_or_ub free) simp
qed

lemma search_and_inject_undefined:
  assumes "msgs h a = Some r" "cur_body_size r = int c" "7 \<le> c" "c \<le> 8192"
    "body_chunk r = Ptr b 0" "blocks h b = Some ds" "length ds = C_HTTP_MAX_BODY_CHUNK"
    "buff = Null \<or> (\<exists>bf bs. buff = Ptr bf 0 \<and> blocks h bf = Some bs \<and> length bs = 12)"
  shows "is_ub (search_and_inject a buff h)"
proof -
  have c: "unat (word_of_int (cur_body_size r) :: size_t) = c"
    using assms(2,4) by (simp add: unat_of_nat)
  have over: "is_ub (strncpy (ptr_add buff 7) (body_chunk r) 6 h)"
    using assms(8) strncpy_overflow [of h _ _ 7 6 "body_chunk r"] strncpy_invalid [of 6 Wild]
    by auto
  have find: "c_u_str_find_pattern (Some serch_tag) 7 (Some ds) (word_of_int (cur_body_size r)) =
      Inr (case first_occ serch_tag (take c ds) of None \<Rightarrow> - 1 | Some k \<Rightarrow> int k)"
    using fnd.find_first [of 7 "word_of_int (cur_body_size r)" serch_tag ds] c assms(3,4,7)
    by (simp add: serch_tag_def C_HTTP_MAX_BODY_CHUNK_def)
  have inj: "is_ub (inject_payload a (int k) h)" if "first_occ serch_tag (take c ds) = Some k" for k
  proof -
    have "k + 7 \<le> c" using first_occ_bound [OF that] by (simp add: serch_tag_def)
    then show ?thesis using inject_payload_overflows [OF assms(1,2) _ assms(4)] by simp
  qed
  show ?thesis
    unfolding search_and_inject_def msg_at_Some [OF assms(1)] assms(5) mem_from.simps bindE_Inr
    using over inj find assms(5,6)
    by (cases "first_occ serch_tag (take c ds)") (auto intro!: is_ub_bindE)
qed

text \<open>
  With fewer than seven bytes in the chunk the search runs behind them: it finds the tag somewhere
  in the block, or leaves it.
\<close>

lemma find_tag_short:
  assumes "unat w < 7" "length ds = C_HTTP_MAX_BODY_CHUNK"
  shows "is_ub (c_u_str_find_pattern (Some serch_tag) 7 (Some ds) w) \<or>
     (\<exists>k. c_u_str_find_pattern (Some serch_tag) 7 (Some ds) w = Inr (int k))"
proof -
  have tag: "take 7 serch_tag = serch_tag" "length serch_tag = 7" by (simp_all add: serch_tag_def)
  have lim: "unat (w - 7) = 2 ^ 64 + unat w - 7" using find_pattern_wrapped_limit [of w 7] assms(1) by simp
  show ?thesis
  proof (cases "first_occ serch_tag ds")
    case None
    have "search_loop serch_tag 7 ds (unat (w - 7)) 0 = Inl (UB OutOfBounds)"
      unfolding lim using tag assms(2) first_occ_NoneD [OF None]
      by (intro search_loop_runs_off) (simp_all add: C_HTTP_MAX_BODY_CHUNK_def)
    then show ?thesis by (simp add: c_u_str_find_pattern_def)
  next
    case (Some k)
    have "k + 7 \<le> length ds" using first_occ_bound [OF Some] tag(2) by simp
    then have "search_loop serch_tag 7 ds (unat (w - 7)) 0 = Inr (int k)"
      unfolding lim using tag assms(2) Some
      by (intro search_loop_in_object) (simp_all add: C_HTTP_MAX_BODY_CHUNK_def)
    then show ?thesis by (simp add: c_u_str_find_pattern_def)
  qed
qed

text \<open>A pointer behind which there is nothing at a large distance.\<close>

definition nothing_far :: "ptr \<Rightarrow> 'z heap_scheme \<Rightarrow> bool" where
  "nothing_far p h \<longleftrightarrow> (\<forall>i \<ge> 2 ^ 32. is_ub (load (ptr_add p i) h))"

lemma nothing_far_block:
  assumes "\<forall>bs. blocks h b = Some bs \<longrightarrow> length bs \<le> 2 ^ 32"
  shows "nothing_far (Ptr b 0) h"
  using assms by (auto simp: nothing_far_def split: option.split)

lemma nothing_far_Null: "nothing_far Null h"
  by (auto simp: nothing_far_def)

lemma strncpy_far:
  assumes "nothing_far src h" "2 ^ 32 \<le> i" "0 < unat n"
  shows "is_ub (strncpy dst (ptr_add src i) n h)"
proof -
  obtain k where k: "unat n = Suc k" using assms(3) by (cases "unat n") auto
  have "ptr_add (ptr_add src i) 0 = ptr_add src i" by (cases src) auto
  moreover have "is_ub (load (ptr_add src i) h)" using assms(1,2) by (simp add: nothing_far_def)
  ultimately show ?thesis by (auto simp: strncpy_def k)
qed

lemma c_free_or_ub:
  "is_ub (c_free p h) \<or> (\<exists>h1. c_free p h = Inr h1 \<and> (\<forall>b. blocks h1 b = blocks h b \<or> blocks h1 b = None))"
  by (cases p) auto

text \<open>An injection that is defined leaves a chunk that is not larger than the old one and the payload.\<close>

lemma inject_payload_far:
  assumes "msgs h a = Some r" "cur_body_size r = int c" "c \<le> 8192"
  shows "is_ub (inject_payload a rc h) \<or>
     (\<exists>h1 r1. inject_payload a rc h = Inr h1 \<and> msgs h1 a = Some r1 \<and> cur_body_size r1 = int c \<and>
        nothing_far (body_chunk r1) h1)"
proof (cases "inject_payload a rc h")
  case (Inr h6)
  let ?m = "unat (word_of_int (cur_body_size r) + payload_size)"
  have "unat (word_of_nat c :: size_t) = c" using assms(3) by (simp add: unat_of_nat)
  then have m: "?m = c + 100"
    using assms(2,3) unat_add_no_wrap [of "word_of_nat c" 100] by (simp add: payload_size_value)
  obtain new h1 where mal: "malloc ?m h = (new, h1)" by (cases "malloc ?m h")
  from Inr obtain h2 h3 h4 h5 where run: "same_sizes h1 h2" "same_sizes h2 h3" "same_sizes h3 h4"
    "c_free (body_chunk r) h4 = Inr h5" "h6 = set_msg a (r\<lparr>body_chunk := new\<rparr>) h5"
    unfolding inject_payload_def msg_at_Some [OF assms(1)] bindE_Inr mal prod.case strncpy_const_def
    by (auto simp: bindE_eq_Inr dest!: strncpy_sizes store_bytes_sizes)
  have sizes: "same_sizes h1 h4" using run(1-3) same_sizes_trans by blast
  have freed: "blocks h5 b = blocks h4 b \<or> blocks h5 b = None" for b
    using c_free_or_ub [of "body_chunk r" h4] run(4) by auto
  have "nothing_far new h6"
  proof (cases rule: malloc_cases [of ?m h])
    case fail
    with mal show ?thesis by (simp add: nothing_far_Null)
  next
    case (ok h2 bs)
    with mal have new: "new = Ptr (next_blk h) 0" "blocks h1 (next_blk h) = Some bs" by simp_all
    obtain ds where "blocks h4 (next_blk h) = Some ds" "length ds = length bs"
      using same_sizesD [OF sizes new(2)] by blast
    then have "\<forall>ds. blocks h6 (next_blk h) = Some ds \<longrightarrow> length ds \<le> 2 ^ 32"
      using freed [of "next_blk h"] run(5) ok(2) m assms(3) by auto
    then show ?thesis unfolding new(1) by (rule nothing_far_block)
  qed
  then show ?thesis using Inr run(5) assms(2)
    by (intro disjI2 exI [of _ h6] exI [of _ "r\<lparr>body_chunk := new\<rparr>"]) simp
next
  case (Inl e)
  then show ?thesis using inject_payload_or_ub [of h a r rc] assms(1) by auto
qed

text \<open>Whatever happens before, the bytes saved at the end are read at a distance that has wrapped around.\<close>

lemma search_and_inject_short:
  assumes "msgs h a = Some r" "cur_body_size r = int c" "c < 7"
    "body_chunk r = Ptr b 0" "blocks h b = Some ds" "length ds = C_HTTP_MAX_BODY_CHUNK"
  shows "is_ub (search_and_inject a buff h)"
proof -
  have c: "unat (word_of_nat c :: size_t) = c" using assms(3) by (simp add: unat_of_nat)
  have far: "2 ^ 32 \<le> unat (word_of_nat c - 7 - 1 :: size_t)"
  proof -
    have "(word_of_nat c - 7 - 1 :: size_t) = word_of_nat c - 8" by simp
    moreover have "unat (word_of_nat c - 8 :: size_t) = 2 ^ 64 + c - 8"
      using find_pattern_wrapped_limit [of "word_of_nat c" 8] c assms(3) by simp
    ultimately show ?thesis by simp
  qed
  consider "is_ub (c_u_str_find_pattern (Some serch_tag) 7 (Some ds) (word_of_int (cur_body_size r)))"
    | k where "c_u_str_find_pattern (Some serch_tag) 7 (Some ds) (word_of_int (cur_body_size r)) = Inr (int k)"
    using find_tag_short [of "word_of_nat c" ds] c assms(2,3,6) by auto
  then show ?thesis
  proof cases
    case 1
    then show ?thesis
      unfolding search_and_inject_def msg_at_Some [OF assms(1)] assms(4) mem_from.simps bindE_Inr
      using assms(4,5) by (auto intro!: is_ub_bindE)
  next
    case (2 k)
    from inject_payload_far [OF assms(1,2), of "int k"] assms(3)
    consider "is_ub (inject_payload a (int k) h)" | h1 r1 where "inject_payload a (int k) h = Inr h1"
      "msgs h1 a = Some r1" "cur_body_size r1 = int c" "nothing_far (body_chunk r1) h1" by force
    then show ?thesis
    proof cases
      case 1
      then show ?thesis
        unfolding search_and_inject_def msg_at_Some [OF assms(1)] assms(4) mem_from.simps bindE_Inr
        using 2 assms(4,5) by (auto intro!: is_ub_bindE)
    next
      case (2 h1 r1)
      have "is_ub (strncpy buff (ptr_add (body_chunk r1) (unat (word_of_nat c - 7 - 1 :: size_t))) 6 h1)"
        using strncpy_far [OF 2(4) far, of 6] by simp
      then show ?thesis
        unfolding search_and_inject_def msg_at_Some [OF assms(1)] assms(4) mem_from.simps bindE_Inr
        using 2 assms(4,5) \<open>c_u_str_find_pattern _ _ _ _ = _\<close> by (auto simp: msg_at_Some intro!: is_ub_bindE)
    qed
  qed
qed

text \<open>
  The first pass of the sending loop over a message that still has a body: it returns an error, or
  it is undefined.
\<close>

lemma search_and_inject_chunk:
  assumes "msgs h a = Some r" "chunk_holds h r body"
    "buff = Null \<or> (\<exists>bf bs. buff = Ptr bf 0 \<and> blocks h bf = Some bs \<and> length bs = 12)"
  shows "is_ub (search_and_inject a buff h)"
proof -
  from assms(2) obtain b ds where ds: "body_chunk r = Ptr b 0" "blocks h b = Some ds"
    "length ds = C_HTTP_MAX_BODY_CHUNK" "cur_body_size r = int (length body)"
    "length body \<le> 8192" by (auto simp: chunk_holds_def C_HTTP_MAX_BODY_CHUNK_def)
  show ?thesis
  proof (cases "7 \<le> length body")
    case True
    with assms(1,3) ds show ?thesis by (intro search_and_inject_undefined [of h a r "length body" b ds])
  next
    case False
    with assms(1) ds show ?thesis by (intro search_and_inject_short [of h a r "length body" b ds]) simp_all
  qed
qed

lemma send_step_first:
  assumes "msgs h a = Some r" "chunk_holds h r body"
    "buff = Null \<or> (\<exists>bf bs. buff = Ptr bf 0 \<and> blocks h bf = Some bs \<and> length bs = 12 \<and>
       body_chunk r \<noteq> Ptr bf 0)"
  shows "is_ub (send_step a recever buff False tot h) \<or>
     (\<exists>rc s h1. send_step a recever buff False tot h = Inr (Returned rc s, h1) \<and> rc < 0)"
proof -
  have buff: "buff = Null \<or> (\<exists>bf bs. buff = Ptr bf 0 \<and> blocks h1 bf = Some bs \<and> length bs = 12)"
    if "\<forall>b. body_chunk r \<noteq> Ptr b 0 \<longrightarrow> blocks h1 b = blocks h b" for h1 :: "'a mheap_scheme"
    using assms(3) that by auto
  have go_on: "is_ub (send_step a recever buff False tot h)"
    if "c_http_recv_body_chunk (Some a) h = Inr (n, h1)" "n \<noteq> - 1" "n \<noteq> C_HTTP_CONNECTION_CLOSED"
      "is_ub (search_and_inject a buff h1)" for n h1
    using that by (auto simp: send_step_def intro!: is_ub_bindE)
  have now: "is_ub (search_and_inject a buff h)"
    using assms buff [of h] by (intro search_and_inject_chunk) simp_all
  consider "m_fd r < 0" | "0 \<le> m_fd r" "length body = C_HTTP_MAX_BODY_CHUNK"
    | "0 \<le> m_fd r" "length body < C_HTTP_MAX_BODY_CHUNK" "remaining_data r = 0"
    | "0 \<le> m_fd r" "length body < C_HTTP_MAX_BODY_CHUNK" "remaining_data r \<noteq> 0"
    using assms(2) by (force simp: chunk_holds_def)
  then show ?thesis
  proof cases
    case 1
    then show ?thesis using assms(1)
      by (simp add: send_step_def c_http_recv_body_chunk_def C_HTTP_CONNECTION_CLOSED_def)
  next
    case 2
    then have "c_http_recv_body_chunk (Some a) h = Inr (C_HTTP_BODY_CHUNK_BUFFER_FULL, h)"
      using assms(1,2) by (simp add: c_http_recv_body_chunk_def chunk_holds_def)
    then show ?thesis using go_on now
      by (simp add: C_HTTP_BODY_CHUNK_BUFFER_FULL_def C_HTTP_CONNECTION_CLOSED_def)
  next
    case 3
    then have "c_http_recv_body_chunk (Some a) h = Inr (C_HTTP_REQUEST_FULLY_RECEV, h)"
      using assms(1,2) by (simp add: c_http_recv_body_chunk_def chunk_holds_def)
    then show ?thesis using go_on now
      by (simp add: C_HTTP_REQUEST_FULLY_RECEV_def C_HTTP_CONNECTION_CLOSED_def)
  next
    case 4
    have no_conn: "\<exists>h1. c_http_recv_body_chunk (Some a) h = Inr (- 1, h1)" if "conns h (m_fd r) = None"
      using assms(1,2) 4 that
      by (auto simp: c_http_recv_body_chunk_def chunk_holds_def recv_into_def sys_read_def)
    consider h1 where "c_http_recv_body_chunk (Some a) h = Inr (- 1, h1)"
      | bs h1 r1 where "c_http_recv_body_chunk (Some a) h = Inr (int (length bs), h1)"
          "msgs h1 a = Some r1" "chunk_holds h1 r1 (body @ bs)"
          "\<forall>b. body_chunk r \<noteq> Ptr b 0 \<longrightarrow> blocks h1 b = blocks h b"
      using no_conn recv_body_chunk_reads [OF assms(1,2) 4(1) _ 4(2,3)] by (cases "conns h (m_fd r)") blast+
    then show ?thesis
    proof cases
      case (1 h1)
      then show ?thesis by (simp add: send_step_def)
    next
      case (2 bs h1 r1)
      have "is_ub (search_and_inject a buff h1)"
        using buff [OF 2(4)] by (intro search_and_inject_chunk [OF 2(2,3)]) simp_all
      then show ?thesis using go_on [OF 2(1)] by (simp add: C_HTTP_CONNECTION_CLOSED_def)
    qed
  qed
qed

text \<open>The start of \<open>c_proxy_send_message\<close>: the scratch buffer is allocated, the header is sent.\<close>

lemma send_headers_whole:
  assumes "msgs h a = Some r" "headders_size r = int (length hdr)" "take (length hdr) (headders_buff r) = hdr"
    "length hdr \<le> length (headders_buff r)" "length hdr < 2 ^ 63"
  shows "c_http_send_headers (Some a) fd h =
     (case sys_write fd hdr (conns h) of (k, w1) \<Rightarrow>
        if k = int (length hdr) then Inr (int (length hdr), h\<lparr>conns := w1\<rparr>)
        else Inr (- 1, h\<lparr>conns := w1\<rparr>))"
proof -
  have "unat (word_of_int (headders_size r) :: size_t) = length hdr"
    using assms(2,5) by (simp add: unat_of_nat)
  then show ?thesis using assms
    by (auto simp: c_http_send_headers_def write_from_def split: prod.splits)
qed

lemma malloc_scratch:
  assumes "heap_ok h" "malloc 12 h = (buff, h1)"
  shows "msgs h1 = msgs h" "conns h1 = conns h"
    "buff = Null \<or> (\<exists>bs. buff = Ptr (next_blk h) 0 \<and> blocks h1 (next_blk h) = Some bs \<and> length bs = 12)"
    "b < next_blk h \<Longrightarrow> blocks h1 b = blocks h b"
  by (cases rule: malloc_cases [of 12 h]; use assms(2) mheap_more [of h1 h] in auto)+

lemma send_message_starts:
  assumes "heap_ok h" "msgs h a = Some r" "message_holds h r hdr body n" "0 \<le> recever"
    "length hdr \<le> 8192" "malloc 12 h = (buff, h1)"
  shows "c_proxy_send_message (Some a) recever h =
     (case sys_write recever hdr (conns h) of (k, w1) \<Rightarrow>
        if k = int (length hdr) then send_loop a recever buff False (word_of_nat (length hdr)) (h1\<lparr>conns := w1\<rparr>)
        else Some (Inr (- 1, Some 0, h1\<lparr>conns := w1\<rparr>)))"
proof -
  have "c_http_send_headers (Some a) recever h1 =
     (case sys_write recever hdr (conns h) of (k, w1) \<Rightarrow>
        if k = int (length hdr) then Inr (int (length hdr), h1\<lparr>conns := w1\<rparr>)
        else Inr (- 1, h1\<lparr>conns := w1\<rparr>))"
    using send_headers_whole [of h1 a r hdr recever] malloc_scratch(1,2) [OF assms(1,6)] assms(2,3,5)
    by (simp add: message_holds_def HTTP_MAX_HEADDER_SIZE_def)
  then show ?thesis using assms(4,6)
    by (simp add: c_proxy_send_message_def split: prod.splits)
qed


section \<open>A sample message\<close>

definition sample_get :: "byte list" where
  "sample_get = ''GET /'' @ HEADER_DELIM"

definition sample_message :: "byte list \<Rightarrow> nat \<Rightarrow> CmonHttpMessage" where
  "sample_message body n = \<lparr>headders_buff = sample_get @ replicate 8183 NUL, body_chunk = Ptr 0 0,
     m_fd = 7, headders_size = 9, cur_body_size = int (length body), content_length = word_of_nat n,
     total_msg_size = word_of_nat (9 + n),
     remaining_data = word_of_nat n - word_of_nat (length body)\<rparr>"

definition sample_forward :: "byte list \<Rightarrow> nat \<Rightarrow> mheap" where
  "sample_forward body n = \<lparr>blocks = [0 \<mapsto> body @ replicate (8192 - length body) NUL], next_blk = 6,
     allocs = [], junk = (\<lambda>_ _. NUL), cbufs = (\<lambda>_. None),
     conns = [7 \<mapsto> \<lparr>incoming = [], outgoing = [], out_script = []\<rparr>,
              8 \<mapsto> \<lparr>incoming = [], outgoing = ''sent before'', out_script = []\<rparr>],
     msgs = [5 \<mapsto> sample_message body n]\<rparr>"

lemma sample_get_length: "length sample_get = 9"
  by (simp add: sample_get_def)

lemma sample_forward_ok:
  "heap_ok (sample_forward body n)" "msgs (sample_forward body n) 5 = Some (sample_message body n)"
  "conns (sample_forward body n) 7 = Some \<lparr>incoming = [], outgoing = [], out_script = []\<rparr>"
  "conns (sample_forward body n) 8 = Some \<lparr>incoming = [], outgoing = ''sent before'', out_script = []\<rparr>"
  "allocs (sample_forward body n) = []"
  by (simp_all add: sample_forward_def heap_ok_def)

lemma sample_message_holds:
  "length body \<le> 8192 \<Longrightarrow> message_holds (sample_forward body n) (sample_message body n) sample_get body n"
  by (simp add: message_holds_def sample_message_def sample_forward_def HTTP_MAX_HEADDER_SIZE_def
      C_HTTP_MAX_BODY_CHUNK_def sample_get_length)

section \<open>Properties\<close>

text \<open>A heap whose allocator never refuses.\<close>

definition plain :: "'z heap_scheme \<Rightarrow> bool" where
  "plain h \<longleftrightarrow> heap_ok h \<and> allocs h = []"

lemma malloc_plain: "plain h \<Longrightarrow> malloc n h = (q, h1) \<Longrightarrow> plain h1"
  by (auto simp: plain_def malloc_def next_event_def new_block_def heap_ok_def)

lemma send_header_only:
  assumes "heap_ok h" "msgs h a = Some r" "message_holds h r hdr [] 0" "0 \<le> recever"
    "length hdr \<le> 8192" "conns h recever = Some c" "out_script c = []"
  shows "\<exists>h1. c_proxy_send_message (Some a) recever h =
       Some (Inr (int (length hdr), Some (word_of_nat (length hdr)), h1)) \<and>
     conns h1 = (conns h)(recever \<mapsto> c\<lparr>outgoing := outgoing c @ hdr\<rparr>) \<and>
     (plain h \<longrightarrow> plain h1)"
proof -
  obtain buff h1 where m: "malloc 12 h = (buff, h1)" by (cases "malloc 12 h")
  let ?w1 = "(conns h)(recever \<mapsto> c\<lparr>outgoing := outgoing c @ hdr\<rparr>)"
  have "sys_write recever hdr (conns h) = (int (length hdr), ?w1)"
    using assms(6,7) by (rule sys_write_all)
  then have "c_proxy_send_message (Some a) recever h =
      send_loop a recever buff False (word_of_nat (length hdr)) (h1\<lparr>conns := ?w1\<rparr>)"
    unfolding send_message_starts [OF assms(1-5) m] by simp
  moreover have "total_msg_size r = word_of_nat (length hdr)"
    using assms(3) by (simp add: message_holds_def)
  moreover have "msgs (h1\<lparr>conns := ?w1\<rparr>) a = Some r"
    using malloc_scratch(1) [OF assms(1) m] assms(2) by simp
  moreover have "sint (ucast (word_of_nat (length hdr) :: size_t) :: 32 word) = int (length hdr)"
    using sint_ucast_small [of "word_of_nat (length hdr)"] assms(5) by (simp add: unat_of_nat)
  moreover have "plain h \<longrightarrow> plain (h1\<lparr>conns := ?w1\<rparr>)"
    using malloc_plain [OF _ m] by (simp add: plain_def heap_ok_def)
  ultimately show ?thesis
    by (intro exI [of _ "h1\<lparr>conns := ?w1\<rparr>"]) (simp add: send_loop.simps)
qed

text \<open>
  A message without a body is forwarded whole: exactly its header block is written to the
  receiver, the function returns its length and stores it, and no other descriptor changes.
\<close>

theorem c_proxy_send_message_header_only:
  assumes "heap_ok h" "msgs h a = Some r" "message_holds h r hdr [] 0" "0 \<le> recever"
    "length hdr \<le> 8192" "conns h recever = Some c" "out_script c = []"
  shows "\<exists>h1. c_proxy_send_message (Some a) recever h =
       Some (Inr (int (length hdr), Some (word_of_nat (length hdr)), h1)) \<and>
     conns h1 = (conns h)(recever \<mapsto> c\<lparr>outgoing := outgoing c @ hdr\<rparr>)"
  using send_header_only [OF assms] by blast


theorem c_proxy_send_message_header_only_witness:
  "\<exists>h1 c1. c_proxy_send_message (Some 5) 8 (sample_forward [] 0) = Some (Inr (9, Some 9, h1)) \<and>
     conns h1 8 = Some c1 \<and> outgoing c1 = ''sent before'' @ sample_get"
  using c_proxy_send_message_header_only
      [OF sample_forward_ok(1,2) sample_message_holds [of "[]" 0] _ _ sample_forward_ok(4)]
  by (auto simp: sample_get_length)

text \<open>
  C23. A message with a body is never forwarded: whatever the body, however much of it has arrived
  with the header, whatever the peers do, and whatever the allocator answers, the call ends in an
  error return or in undefined behaviour. Where the tag is not found, saving the beginning of the
  chunk overflows the 12-byte scratch buffer; where it is found, the copy of the rest of the chunk
  overflows the new block by one byte; and with fewer than seven bytes the end of the chunk is
  looked for before its beginning.
\<close>

theorem c_proxy_send_message_body_undefined:
  assumes "heap_ok h" "msgs h a = Some r" "message_holds h r hdr body n" "0 \<le> recever"
    "length hdr \<le> 8192" "length body \<le> 8192" "0 < n" "n < 2 ^ 62"
  shows "case c_proxy_send_message (Some a) recever h of
       None \<Rightarrow> False
     | Some res \<Rightarrow> is_ub res \<or> (\<exists>rc s h1. res = Inr (rc, s, h1) \<and> rc < 0)"
proof -
  obtain buff h1 where m: "malloc 12 h = (buff, h1)" by (cases "malloc 12 h")
  note sc = malloc_scratch [OF assms(1) m]
  obtain k w1 where w: "sys_write recever hdr (conns h) = (k, w1)"
    by (cases "sys_write recever hdr (conns h)")
  let ?h2 = "h1\<lparr>conns := w1\<rparr>"
  have ch: "chunk_holds h r body" using message_holds_chunk [OF assms(3,6)] .
  then obtain b ds where b: "body_chunk r = Ptr b 0" "blocks h b = Some ds"
    by (auto simp: chunk_holds_def)
  have bn: "b < next_blk h" using heap_ok_fresh [OF assms(1) b(2)] .
  then have bl: "blocks ?h2 b = blocks h b" using sc(4) by simp
  have ch2: "chunk_holds ?h2 r body" using ch b(1) bl by (simp add: chunk_holds_def)
  have buff: "buff = Null \<or> (\<exists>bf bs. buff = Ptr bf 0 \<and> blocks ?h2 bf = Some bs \<and> length bs = 12 \<and>
      body_chunk r \<noteq> Ptr bf 0)" using sc(3) b(1) bn by auto
  have m2: "msgs ?h2 a = Some r" using sc(1) assms(2) by simp
  have less: "word_of_nat (length hdr) < total_msg_size r"
    using assms(3,5,7,8) by (simp add: message_holds_def word_less_nat_alt unat_of_nat
        del: of_nat_add)
  let ?st = "send_step a recever buff False (word_of_nat (length hdr)) ?h2"
  consider "is_ub ?st" | rc s h3 where "?st = Inr (Returned rc s, h3)" "rc < 0"
    using send_step_first [OF m2 ch2 buff] by blast
  then have "\<exists>res. send_loop a recever buff False (word_of_nat (length hdr)) ?h2 = Some res \<and>
      (is_ub res \<or> (\<exists>rc s h1. res = Inr (rc, s, h1) \<and> rc < 0))"
    using m2 less by cases (subst send_loop.simps, auto simp: is_ub_def)+
  then show ?thesis
    unfolding send_message_starts [OF assms(1-5) m] w by auto
qed

theorem c_proxy_send_message_body_undefined_witness:
  "(case c_proxy_send_message (Some 5) 8 (sample_forward ''0123</body>'' 20) of
       None \<Rightarrow> False
     | Some res \<Rightarrow> is_ub res \<or> (\<exists>rc s h1. res = Inr (rc, s, h1) \<and> rc < 0)) \<and>
   (case c_proxy_send_message (Some 5) 8 (sample_forward ''012'' 20) of
       None \<Rightarrow> False
     | Some res \<Rightarrow> is_ub res \<or> (\<exists>rc s h1. res = Inr (rc, s, h1) \<and> rc < 0)) \<and>
   (case c_proxy_send_message (Some 5) 8 (sample_forward [] 20) of
       None \<Rightarrow> False
     | Some res \<Rightarrow> is_ub res \<or> (\<exists>rc s h1. res = Inr (rc, s, h1) \<and> rc < 0))"
proof -
  have run: "case c_proxy_send_message (Some 5) 8 (sample_forward body 20) of
       None \<Rightarrow> False
     | Some res \<Rightarrow> is_ub res \<or> (\<exists>rc s h1. res = Inr (rc, s, h1) \<and> rc < 0)"
    if "length body \<le> 8192" for body
    using that
    by (intro c_proxy_send_message_body_undefined [OF sample_forward_ok(1,2) sample_message_holds])
      (simp_all add: sample_get_length)
  show ?thesis by (intro conjI run) simp_all
qed

section \<open>The state machine\<close>

text \<open>With an allocator that never fails the buffer of a waiting connection is two new objects.\<close>

lemma buffer_empty_plain:
  assumes "allocs h = []"
  shows "c_u_buffer_empty cap h = Inr (Some (Suc (next_blk h)),
     set_cbuf (Suc (next_blk h)) \<lparr>b_cap = cap, b_len = 0, b_avl = cap, b_buf = Ptr (next_blk h) 0\<rparr>
       (h\<lparr>blocks := (blocks h)(next_blk h \<mapsto> map (junk h (next_blk h)) [0..<unat cap]),
          next_blk := Suc (Suc (next_blk h))\<rparr>))"
  using assms by (simp add: c_u_buffer_empty_def malloc_def next_event_def new_block_def new_cbuf_def)

lemma new_buffer_ok:
  fixes h :: mheap
  assumes "allocs h = []" "heap_ok h" "c_u_buffer_empty cap h = Inr (Some a, h1)"
  shows "a = Suc (next_blk h)" "buf_ok h1 a" "contents h1 a = []" "conns h1 = conns h" "heap_ok h1"
    "allocs h1 = []" "next_blk h1 = Suc (Suc (next_blk h))"
    "cbufs h1 a = Some \<lparr>b_cap = cap, b_len = 0, b_avl = cap, b_buf = Ptr (next_blk h) 0\<rparr>"
    "\<exists>bs. blocks h1 = (blocks h)(next_blk h \<mapsto> bs) \<and> length bs = unat cap"
  using assms buffer_empty_plain [OF assms(1), of cap]
  by (auto simp: buf_ok_def buf_block_def contents_def heap_ok_def)

lemma comm_turn_waiting:
  assumes "c_state com = WAITING_HEADER"
  shows "comm_turn com h = bindE (c_proxy_handle_waiting_header_state com h) (\<lambda>(rc, com1, h1). Inr (com1, h1))"
  using assms by (simp add: comm_turn_def)

lemma header_received:
  assumes "heap_ok h" "allocs h = []" "0 \<le> c_sender com" "conns h (c_sender com) = Some c"
    "incoming c = Arrive txt # es" "length txt \<le> 8192" "first_occ HEADER_DELIM txt = Some k"
    "k + 4 \<le> 500" "c_state com = WAITING_HEADER"
  shows "\<exists>a h1. comm_turn com h = Inr (com\<lparr>c_header := Some a, c_state := PROCESING_HEADER\<rparr>, h1) \<and>
     contents h1 a = take (k + 4) txt"
proof -
  obtain a h1 where e: "c_u_buffer_empty 500 h = Inr (Some a, h1)"
    using buffer_empty_plain [OF assms(2)] by blast
  note n = new_buffer_ok [OF assms(2,1) e]
  obtain h2 where r: "c_http_c_buf_recv_header (c_sender com) (Some a) h1 = Inr (C_HTTP_SUCESS, h2)"
    "contents h2 a = take (k + 4) txt"
    using recv_header_fits [of h1 a "c_sender com" c "txt" es k] n assms(3-8) by auto
  then have "comm_turn com h = Inr (com\<lparr>c_header := Some a, c_state := PROCESING_HEADER\<rparr>, h2)"
    using e assms(9) by (simp add: comm_turn_waiting c_proxy_handle_waiting_header_state_def)
  with r(2) show ?thesis by blast
qed

text \<open>
  When the peer has closed, a turn changes nothing but the heap, where it leaves one more buffer.
\<close>

lemma closed_turn:
  assumes "heap_ok h" "allocs h = []" "0 \<le> c_sender com" "conns h (c_sender com) = Some c"
    "incoming c = []" "c_state com = WAITING_HEADER"
  shows "\<exists>h1 bs. comm_turn com h = Inr (com, h1) \<and> heap_ok h1 \<and> allocs h1 = [] \<and>
     conns h1 = conns h \<and> next_blk h1 = next_blk h + 2 \<and>
     blocks h1 = (blocks h)(next_blk h \<mapsto> bs) \<and> length bs = 500"
proof -
  obtain a h1 where e: "c_u_buffer_empty 500 h = Inr (Some a, h1)"
    using buffer_empty_plain [OF assms(2)] by blast
  note n = new_buffer_ok [OF assms(2,1) e]
  have "sys_peek (c_sender com) HTTP_MAX_HEADDER_SIZE (conns h) = (Some [], conns h)"
    using sys_read_eof [of "conns h" "c_sender com" c] assms(4,5) by (simp add: sys_peek_def)
  then have "c_http_c_buf_recv_header (c_sender com) (Some a) h1 = Inr (C_HTTP_SOCKET_CLOSE, h1)"
    using n assms(3) by (simp add: c_http_c_buf_recv_header_def)
  then have "comm_turn com h = Inr (com, h1)"
    using e assms(6) by (simp add: comm_turn_waiting c_proxy_handle_waiting_header_state_def)
  with n show ?thesis by auto
qed

lemma closed_turns:
  assumes "heap_ok h" "allocs h = []" "0 \<le> c_sender com" "conns h (c_sender com) = Some c"
    "incoming c = []" "c_state com = WAITING_HEADER"
  shows "\<exists>h1. comm_reach (com, h) n (com, h1) \<and> heap_ok h1 \<and> allocs h1 = [] \<and>
     conns h1 = conns h \<and> next_blk h1 = next_blk h + 2 * n \<and>
     (\<forall>i<n. \<exists>bs. blocks h1 (next_blk h + 2 * i) = Some bs \<and> length bs = 500)"
proof (induction n)
  case 0
  show ?case using assms(1,2) by (intro exI [of _ h]) (auto intro: comm_start)
next
  case (Suc n)
  then obtain h1 where h1: "comm_reach (com, h) n (com, h1)" "heap_ok h1" "allocs h1 = []"
    "conns h1 = conns h" "next_blk h1 = next_blk h + 2 * n"
    "\<forall>i<n. \<exists>bs. blocks h1 (next_blk h + 2 * i) = Some bs \<and> length bs = 500" by blast
  obtain h2 bs where h2: "comm_turn com h1 = Inr (com, h2)" "heap_ok h2" "allocs h2 = []"
    "conns h2 = conns h1" "next_blk h2 = next_blk h1 + 2" "blocks h2 = (blocks h1)(next_blk h1 \<mapsto> bs)"
    "length bs = 500"
    using closed_turn [OF h1(2,3) assms(3)] h1(4) assms(4-6) by metis
  have "comm_reach (com, h) (Suc n) (com, h2)" using h1(1) h2(1) by (rule comm_next)
  moreover have "\<exists>bs. blocks h2 (next_blk h + 2 * i) = Some bs \<and> length bs = 500" if "i < Suc n" for i
    using that h1(5,6) h2(6,7) by (cases "i = n") auto
  ultimately show ?case using h1(4,5) h2(2-5) by auto
qed

section \<open>What never changes\<close>

text \<open>The bytes written so far, on every descriptor.\<close>

definition written :: "net \<Rightarrow> int \<Rightarrow> byte list option" where
  "written w fd = map_option outgoing (w fd)"

lemma written_sys_read: "sys_read fd n w = (r, w1) \<Longrightarrow> written w1 = written w"
  by (rule ext) (auto simp: sys_read_def written_def split: option.splits prod.splits)

lemma written_sys_peek: "sys_peek fd n w = (r, w1) \<Longrightarrow> written w1 = written w"
  by (auto simp: sys_peek_def split: prod.splits option.splits dest: written_sys_read)

lemma bheap_more_conns: "bheap.more h1 = bheap.more h \<Longrightarrow> conns h1 = conns h"
  by (cases h; cases h1) simp

lemma heap_more_bheap: "heap.more h1 = heap.more h \<Longrightarrow> bheap.more h1 = bheap.more h"
  by (cases h; cases h1) simp


lemma next_event_bheap: "next_event h = (e, h1) \<Longrightarrow> bheap.more h1 = bheap.more h"
  using heap_more_bheap [OF next_event_fields(4)] .

lemma malloc_bheap: "malloc n h = (p, h1) \<Longrightarrow> bheap.more h1 = bheap.more h"
  by (cases rule: malloc_cases [of n h]) (auto dest: heap_more_bheap)

lemma c_free_bheap: "c_free p h = Inr h1 \<Longrightarrow> bheap.more h1 = bheap.more h"
  by (cases p) (auto split: if_splits)

lemma set_cbuf_bheap [simp]: "bheap.more (set_cbuf a r h) = bheap.more h"
  by (simp add: set_cbuf_def)

lemma new_cbuf_bheap: "new_cbuf r h = (s, h1) \<Longrightarrow> bheap.more h1 = bheap.more h"
  by (auto simp: new_cbuf_def split: prod.splits if_splits dest: next_event_bheap)

lemma realloc_bheap: "realloc p n h = Inr (q, h1) \<Longrightarrow> bheap.more h1 = bheap.more h"
  by (auto simp: realloc_def new_block_def upd_block_def
      split: ptr.splits option.splits prod.splits if_splits alloc_event.splits
      dest: malloc_bheap next_event_bheap)

lemmas bheap_frames = next_event_bheap malloc_bheap c_free_bheap new_cbuf_bheap realloc_bheap

lemma empty_conns: "c_u_buffer_empty cap h = Inr (a, h1) \<Longrightarrow> conns h1 = conns h"
  by (rule bheap_more_conns)
    (auto simp: c_u_buffer_empty_def bindE_eq_Inr split: prod.splits if_splits option.splits
      dest!: bheap_frames)

lemma set_capacity_conns: "c_u_buffer_set_capacity p n h = Inr (rc, h1) \<Longrightarrow> conns h1 = conns h"
  by (rule bheap_more_conns)
    (auto simp: c_u_buffer_set_capacity_def bindE_eq_Inr split: prod.splits if_splits option.splits
      dest!: bheap_frames)

lemma set_len_conns: "c_u_buffer_set_len p n h = Inr (rc, h1) \<Longrightarrow> conns h1 = conns h"
  by (auto simp: c_u_buffer_set_len_def bindE_eq_Inr split: if_splits option.splits)

lemma recv_into_written: "recv_into fd p n h = Inr (k, h1) \<Longrightarrow> written (conns h1) = written (conns h)"
  by (auto simp: recv_into_def split: prod.splits option.splits if_splits ptr.splits
      dest: written_sys_read)

lemma recv_header_written:
  assumes "c_http_c_buf_recv_header fd buf h = Inr (rc, h1)"
  shows "written (conns h1) = written (conns h)"
  using assms
  by (auto simp: c_http_c_buf_recv_header_def Let_def bindE_eq_Inr
      split: option.splits if_splits prod.splits
      dest!: written_sys_peek set_capacity_conns recv_into_written set_len_conns)

lemma comm_turn_written:
  assumes "comm_turn com h = Inr (com1, h1)"
  shows "written (conns h1) = written (conns h)"
  using assms
  by (auto simp: comm_turn_def c_proxy_handle_waiting_header_state_def bindE_eq_Inr
      split: comm_state.splits if_splits dest!: recv_header_written empty_conns)

lemma comm_reach_written:
  assumes "comm_reach s n t"
  shows "written (conns (snd t)) = written (conns (snd s))"
  using assms by induction (simp_all add: comm_turn_written)

text \<open>
  C34. The first complete header a connection receives ends the whole program: the state machine
  goes from waiting to processing with the header block in its buffer, and its next turn is
  \<open>exit(0)\<close>.
\<close>

theorem c_proxy_communication_manager_exits:
  assumes "heap_ok h" "allocs h = []" "0 \<le> client_fd" "conns h client_fd = Some c"
    "incoming c = Arrive txt # es" "length txt \<le> 8192" "first_occ HEADER_DELIM txt = Some k"
    "k + 4 \<le> 500"
  shows "\<exists>a com h1. comm_turn (comm_init client_fd server_fd sz hdr) h = Inr (com, h1) \<and>
     c_state com = PROCESING_HEADER \<and> c_header com = Some a \<and> contents h1 a = take (k + 4) txt \<and>
     comm_turn com h1 = Inl (Exit 0)"
proof -
  let ?com = "comm_init client_fd server_fd sz hdr"
  obtain a h1 where "comm_turn ?com h = Inr (?com\<lparr>c_header := Some a, c_state := PROCESING_HEADER\<rparr>, h1)"
    "contents h1 a = take (k + 4) txt"
    using header_received [of h ?com c "txt" es k] assms by (auto simp: comm_init_def)
  then show ?thesis by (auto simp: comm_turn_def)
qed

theorem c_proxy_communication_manager_exits_witness:
  "\<exists>a com h1. comm_turn (comm_init 7 8 0 None) (sample_recv_heap 20) = Inr (com, h1) \<and>
     c_header com = Some a \<and> contents h1 a = sample_get \<and> comm_turn com h1 = Inl (Exit 0)"
proof -
  let ?t = "''GET /'' @ HEADER_DELIM @ ''rest''"
  let ?c = "\<lparr>incoming = [Arrive ?t], outgoing = [], out_script = []\<rparr>"
  have c: "conns (sample_recv_heap 20) 7 = Some ?c" "incoming ?c = [Arrive ?t]"
    "allocs (sample_recv_heap 20) = []" by (simp_all add: sample_recv_heap_def)
  have f: "first_occ HEADER_DELIM ?t = Some 5" "take (5 + 4) ?t = sample_get" by code_simp+
  have l: "length ?t \<le> 8192" "(5 :: nat) + 4 \<le> 500" by simp_all
  show ?thesis
    using c_proxy_communication_manager_exits
        [OF sample_recv_heap_ok(1) c(3) _ c(1,2) l(1) f(1) l(2), of 8 0 None] f(2) by auto
qed

text \<open>
  C25. The state machine never writes a byte to any descriptor, and leaves no other state than
  waiting and processing: in every reachable configuration what has been written is what had been
  written at the start.
\<close>

theorem c_proxy_communication_manager_never_writes:
  assumes "comm_reach (comm_init client_fd server_fd sz hdr, h) n (com, h1)"
  shows "map_option outgoing (conns h1 fd) = map_option outgoing (conns h fd) \<and>
     c_state com \<in> {WAITING_HEADER, PROCESING_HEADER}"
proof -
  have "c_state (fst t) \<in> {WAITING_HEADER, PROCESING_HEADER}"
    if "comm_reach s n t" "c_state (fst s) = WAITING_HEADER" for s t n
    using that(1)
  proof induction
    case comm_start
    then show ?case using that(2) by simp
  next
    case (comm_next n com h com1 h1)
    then show ?case
      by (auto simp: comm_turn_def c_proxy_handle_waiting_header_state_def bindE_eq_Inr
          split: if_splits)
  qed
  from this [OF assms] have "c_state com \<in> {WAITING_HEADER, PROCESING_HEADER}"
    by (simp add: comm_init_def)
  moreover have "written (conns h1) fd = written (conns h) fd"
    using comm_reach_written [OF assms] by simp
  ultimately show ?thesis by (simp add: written_def)
qed

theorem c_proxy_communication_manager_never_writes_witness:
  "\<exists>com h1. comm_reach (comm_init 7 8 0 None, sample_recv_heap 20) 1 (com, h1) \<and>
     map_option outgoing (conns h1 8) = map_option outgoing (conns (sample_recv_heap 20) 8)"
proof -
  let ?com = "comm_init 7 8 0 None" let ?h = "sample_recv_heap 20"
  let ?t = "''GET /'' @ HEADER_DELIM @ ''rest''"
  let ?c = "\<lparr>incoming = [Arrive ?t], outgoing = [], out_script = []\<rparr>"
  have "conns ?h (c_sender ?com) = Some ?c" "allocs ?h = []" "0 \<le> c_sender ?com"
    "c_state ?com = WAITING_HEADER" by (simp_all add: sample_recv_heap_def comm_init_def)
  moreover have "first_occ HEADER_DELIM ?t = Some 5" by code_simp
  ultimately obtain com h1 where "comm_turn ?com ?h = Inr (com, h1)"
    using header_received [of ?h ?com ?c ?t "[]" 5] sample_recv_heap_ok(1)
    by (auto simp del: first_occ.simps)
  then have "comm_reach (?com, ?h) (Suc 0) (com, h1)" using comm_start comm_next by blast
  then show ?thesis using c_proxy_communication_manager_never_writes [of 7 8 0 None ?h 1 com h1 8]
    by auto
qed

text \<open>
  C35. When the client has closed its connection the state machine does not notice: after any
  number \<open>n\<close> of turns it is still waiting in the same state, and the \<open>n\<close> buffers of 500 bytes it
  allocated on the way are all still live.
\<close>

theorem c_proxy_communication_manager_spins:
  assumes "heap_ok h" "allocs h = []" "0 \<le> client_fd" "conns h client_fd = Some c" "incoming c = []"
  shows "\<exists>h1. comm_reach (comm_init client_fd server_fd sz hdr, h) n
       (comm_init client_fd server_fd sz hdr, h1) \<and>
     (\<forall>i<n. \<exists>bs. blocks h1 (next_blk h + 2 * i) = Some bs \<and> length bs = 500)"
  using closed_turns [of h "comm_init client_fd server_fd sz hdr" c n] assms
  by (auto simp: comm_init_def)

theorem c_proxy_communication_manager_spins_witness:
  "\<exists>h1. comm_reach (comm_init 7 8 0 None, sample_forward [] 0) 1000 (comm_init 7 8 0 None, h1) \<and>
     (\<forall>i<1000. \<exists>bs. blocks h1 (6 + 2 * i) = Some bs \<and> length bs = 500)"
  using c_proxy_communication_manager_spins
      [OF sample_forward_ok(1) _ _ sample_forward_ok(3), of "[]" 0 8 0 None 1000]
  by (simp add: sample_forward_def)

text \<open>
  When the server closes the connection before it answers, the request having been forwarded,
  the loop over a connection reads a field of the message it did not get: a null dereference.
\<close>

theorem c_proxy_handle_client_server_closed:
  assumes "heap_ok h" "allocs h = []" "0 \<le> client_fd" "0 \<le> server_fd" "client_fd \<noteq> server_fd"
    "conns h client_fd = Some c" "incoming c = Arrive hdr # es"
    "conns h server_fd = Some d" "incoming d = []" "out_script d = []"
    "first_occ HEADER_DELIM hdr = Some k" "length hdr = k + 4" "15 \<le> length hdr" "length hdr \<le> 8192"
    "first_occ content_length_key hdr = None"
  shows "c_proxy_handle_client client_fd ((server_fd, 0) # as) h = Some (Inl (UB NullDeref))"
proof -
  have cl: "http_get_content_length_headder (hdr @ suf) (word_of_nat (length hdr)) = Inr (int 0)" for suf
    using content_length_absent [OF assms(15,13)] assms(14) by simp
  have one: "first_occ HEADER_DELIM (concat (butlast [hdr])) = None"
    "first_occ LFLF (concat (butlast [hdr])) = None" by (simp_all add: HEADER_DELIM_def LFLF_def)
  obtain m h1 r where g: "c_http_get_message client_fd h = Inr (Some m, h1)" "msgs h1 m = Some r"
    "message_holds h1 r hdr [] 0" "conns h1 = (conns h)(client_fd \<mapsto> c\<lparr>incoming := es\<rparr>)" "heap_ok h1"
    using get_message_body [OF assms(3) _ assms(6), of hdr "[]" es hdr "[]" k 0] assms(1,2,7,11-14) cl one
    by auto
  let ?d1 = "d\<lparr>outgoing := outgoing d @ hdr\<rparr>"
  have "conns h1 server_fd = Some d" using g(4) assms(5,8) by simp
  then obtain h2 where s: "c_proxy_send_message (Some m) server_fd h1 =
      Some (Inr (int (length hdr), Some (word_of_nat (length hdr)), h2))"
    "conns h2 = (conns h1)(server_fd \<mapsto> ?d1)"
    using send_header_only [OF g(5,2,3) assms(4,14)] assms(10) by blast
  have "conns (free_msg m h2) server_fd = Some ?d1" "incoming ?d1 = []"
    using s(2) assms(9) by (simp_all add: free_msg_def)
  then obtain h3 where "c_http_get_message server_fd (free_msg m h2) = Inr (None, h3)"
    using get_message_closed by blast
  moreover have "int (length hdr) \<noteq> - 1" "int (length hdr) \<noteq> C_HTTP_CONNECTION_CLOSED"
    by (simp_all add: C_HTTP_CONNECTION_CLOSED_def)
  ultimately have "handle_loop client_fd server_fd h = Some (Inl (UB NullDeref))"
    by (subst handle_loop.simps) (simp add: g(1) s(1) msg_at_def)
  then show ?thesis using assms(4)
    by (simp add: c_proxy_handle_client_def c_sockets_get_server_connection_def)
qed

definition sample_exchange :: mheap where
  "sample_exchange = (sample_forward [] 0)\<lparr>conns :=
     [7 \<mapsto> \<lparr>incoming = [Arrive (''GET / HTTP/1.1'' @ HEADER_DELIM)], outgoing = [], out_script = []\<rparr>,
      8 \<mapsto> \<lparr>incoming = [], outgoing = [], out_script = []\<rparr>]\<rparr>"

theorem c_proxy_handle_client_server_closed_witness:
  "c_proxy_handle_client 7 [(8, 0)] sample_exchange = Some (Inl (UB NullDeref))"
proof -
  let ?t = "''GET / HTTP/1.1'' @ HEADER_DELIM"
  have h: "heap_ok sample_exchange" "allocs sample_exchange = []"
    using sample_forward_ok(1) by (simp_all add: sample_exchange_def sample_forward_ok(5) heap_ok_def)
  have c: "conns sample_exchange 7 = Some \<lparr>incoming = [Arrive ?t], outgoing = [], out_script = []\<rparr>"
    "conns sample_exchange 8 = Some \<lparr>incoming = [], outgoing = [], out_script = []\<rparr>"
    by (simp_all add: sample_exchange_def)
  have f: "first_occ HEADER_DELIM ?t = Some 14" "first_occ content_length_key ?t = None"
    by code_simp+
  have l: "length ?t = 14 + 4" "15 \<le> length ?t" "length ?t \<le> 8192" by simp_all
  have i: "incoming \<lparr>incoming = [Arrive ?t], outgoing = [], out_script = []\<rparr> = Arrive ?t # []"
    "incoming \<lparr>incoming = [], outgoing = [], out_script = []\<rparr> = []"
    "out_script \<lparr>incoming = [], outgoing = [], out_script = []\<rparr> = []" by simp_all
  have n: "(0 :: int) \<le> 7" "(0 :: int) \<le> 8" "(7 :: int) \<noteq> 8" by simp_all
  show ?thesis
    by (rule c_proxy_handle_client_server_closed [OF h n c(1) i(1) c(2) i(2,3) f(1) l f(2)])
qed

text \<open>
  What holds of the accept loop at every moment, \<open>got\<close> being the results of \<open>accept\<close> so far: the
  variable holds the last of them, a thread belongs to one that did not fail, it waits or it has
  read, and what it has read is its own result or a later one.
\<close>

definition accept_inv :: "int list \<Rightarrow> int list \<Rightarrow> accept_state \<Rightarrow> bool" where
  "accept_inv rs got s \<longleftrightarrow> rs = got @ a_results s \<and> a_count s = length got \<and>
     (got \<noteq> [] \<longrightarrow> a_rc s = last got) \<and>
     (\<forall>t\<in>a_waiting s \<union> dom (a_client s). t < length got \<and> got ! t \<noteq> - 1) \<and>
     (\<forall>t\<in>a_waiting s. a_client s t = None) \<and>
     (\<forall>t x. a_client s t = Some x \<longrightarrow> (\<exists>i\<ge>t. i < length got \<and> got ! i = x))"

lemma accept_inv_result:
  assumes "accept_inv rs got s" "a_results s = r # rs1"
  shows "accept_inv rs (got @ [r]) (s\<lparr>a_rc := r, a_results := rs1, a_count := Suc (a_count s)\<rparr>)"
proof -
  have "\<exists>i\<ge>t. i < length (got @ [r]) \<and> (got @ [r]) ! i = x" if "a_client s t = Some x" for t x
  proof -
    from assms(1) that obtain i where "i \<ge> t" "i < length got" "got ! i = x" unfolding accept_inv_def by blast
    then show ?thesis by (intro exI [of _ i]) (simp add: nth_append)
  qed
  moreover have "t < length (got @ [r]) \<and> (got @ [r]) ! t \<noteq> - 1" if "t \<in> a_waiting s \<union> dom (a_client s)" for t
  proof -
    have "t < length got" "got ! t \<noteq> - 1" using assms(1) that unfolding accept_inv_def by blast+
    then show ?thesis by (simp add: nth_append)
  qed
  ultimately show ?thesis using assms unfolding accept_inv_def by simp
qed

lemma accept_inv_thread:
  assumes "accept_inv rs (got @ [r]) s" "r \<noteq> - 1" "a_client s (length got) = None"
  shows "accept_inv rs (got @ [r]) (s\<lparr>a_waiting := insert (length got) (a_waiting s)\<rparr>)"
  using assms by (auto simp: accept_inv_def)

lemma accept_inv_read:
  assumes "accept_inv rs got s" "t \<in> a_waiting s"
  shows "accept_inv rs got (s\<lparr>a_waiting := a_waiting s - {t}, a_client := (a_client s)(t \<mapsto> a_rc s)\<rparr>)"
proof -
  have t: "t < length got" "got \<noteq> []" "got ! t \<noteq> - 1" using assms by (auto simp: accept_inv_def)
  have "\<exists>i\<ge>t. i < length got \<and> got ! i = a_rc s"
    using assms(1) t by (intro exI [of _ "length got - 1"]) (auto simp: accept_inv_def last_conv_nth)
  then show ?thesis using assms t by (auto simp: accept_inv_def)
qed

lemma accept_reach_inv:
  assumes "accept_reach (accept_init rs) s"
  shows "\<exists>got. accept_inv rs got s"
  using assms
proof (induction rule: accept_reach.induct)
  case accept_start
  show ?case by (rule exI [of _ "[]"]) (simp add: accept_inv_def accept_init_def)
next
  case (accept_next s u)
  then obtain got where inv: "accept_inv rs got s" by blast
  from accept_next.hyps(2) show ?case
  proof cases
    case (accept_fails rs1)
    then show ?thesis using accept_inv_result [OF inv] by blast
  next
    case (accept_starts r rs1)
    have "accept_inv rs (got @ [r]) (s\<lparr>a_rc := r, a_results := rs1, a_count := Suc (a_count s)\<rparr>)"
      using accept_inv_result [OF inv accept_starts(2)] .
    moreover have "a_client s (length got) = None" "a_count s = length got"
      using inv by (auto simp: accept_inv_def dom_def)
    ultimately show ?thesis
      using accept_inv_thread [of rs got r "s\<lparr>a_rc := r, a_results := rs1, a_count := Suc (a_count s)\<rparr>"]
        accept_starts by auto
  next
    case (accept_no_thread r rs1)
    then show ?thesis using accept_inv_result [OF inv] by blast
  next
    case (thread_reads t)
    then show ?thesis using accept_inv_read [OF inv] by blast
  qed
qed

text \<open>
  C26. Whatever the schedule, and whichever calls of \<open>accept\<close> and \<open>pthread_create\<close> fail, a thread
  belongs to an \<open>accept\<close> that did not fail and never serves a connection accepted before that one:
  the number it has read is the result of its own \<open>accept\<close> or of a later one. A thread that waits has
  read nothing.
\<close>

theorem c_proxy_start_threads:
  assumes "accept_reach (accept_init rs) s"
  shows "\<exists>got. rs = got @ a_results s \<and> a_count s = length got \<and>
     (\<forall>t\<in>a_waiting s. t < length got \<and> got ! t \<noteq> - 1 \<and> a_client s t = None) \<and>
     (\<forall>t x. a_client s t = Some x \<longrightarrow>
        t < length got \<and> got ! t \<noteq> - 1 \<and> (\<exists>i\<ge>t. i < length got \<and> x = got ! i))"
  using accept_reach_inv [OF assms] by (fastforce simp: accept_inv_def)

theorem c_proxy_start_threads_witness:
  "\<exists>s got. accept_reach (accept_init [- 1, 5, - 1]) s \<and> [- 1, 5, - 1] = got @ a_results s \<and>
     a_client s 1 = Some (- 1) \<and> (\<exists>i\<ge>1. i < length got \<and> - 1 = got ! i)"
proof -
  define s0 where "s0 = (accept_init [- 1, 5, - 1])\<lparr>a_rc := - 1, a_results := [5, - 1],
    a_count := Suc (a_count (accept_init [- 1, 5, - 1]))\<rparr>"
  define s1 where "s1 = s0\<lparr>a_rc := 5, a_results := [- 1], a_count := Suc (a_count s0),
    a_waiting := insert (a_count s0) (a_waiting s0)\<rparr>"
  define s2 where "s2 = s1\<lparr>a_rc := - 1, a_results := [], a_count := Suc (a_count s1)\<rparr>"
  define s3 where "s3 = s2\<lparr>a_waiting := a_waiting s2 - {1}, a_client := (a_client s2)(1 \<mapsto> a_rc s2)\<rparr>"
  have "accept_step (accept_init [- 1, 5, - 1]) s0"
    unfolding s0_def by (rule accept_fails) (simp add: accept_init_def)
  moreover have "accept_step s0 s1" unfolding s1_def by (rule accept_starts) (simp_all add: s0_def)
  moreover have "accept_step s1 s2" unfolding s2_def by (rule accept_fails) (simp add: s1_def)
  moreover have "accept_step s2 s3"
    unfolding s3_def by (rule thread_reads) (simp add: s2_def s1_def s0_def accept_init_def)
  ultimately have reach: "accept_reach (accept_init [- 1, 5, - 1]) s3"
    by (intro accept_next [OF accept_next [OF accept_next [OF accept_next [OF accept_start]]]])
  have read: "a_client s3 1 = Some (- 1)" by (simp add: s3_def s2_def s1_def)
  obtain got where g: "[- 1, 5, - 1] = got @ a_results s3"
    "\<forall>t x. a_client s3 t = Some x \<longrightarrow>
        t < length got \<and> got ! t \<noteq> - 1 \<and> (\<exists>i\<ge>t. i < length got \<and> x = got ! i)"
    using c_proxy_start_threads [OF reach] by blast
  then show ?thesis using reach read by blast
qed

text \<open>
  C27. A connection can be lost between \<open>accept\<close> and its thread: there is a schedule in which the
  thread started for the first connection reads the descriptor of the second (or the error code of
  a failed \<open>accept\<close>), all threads have read, and no thread has the first connection.
\<close>

theorem c_proxy_start_race:
  assumes "r1 \<noteq> - 1" "r1 \<noteq> r2"
  shows "\<exists>s. accept_reach (accept_init (r1 # r2 # rs)) s \<and> a_client s 0 = Some r2 \<and> a_waiting s = {} \<and>
     (\<forall>t. a_client s t \<noteq> Some r1)"
proof -
  define s0 where "s0 = accept_init (r1 # r2 # rs)"
  define s1 where "s1 = s0\<lparr>a_rc := r1, a_results := r2 # rs, a_count := Suc (a_count s0),
    a_waiting := insert (a_count s0) (a_waiting s0)\<rparr>"
  have "accept_step s0 s1"
    unfolding s1_def by (rule accept_starts) (use assms(1) in \<open>simp_all add: s0_def accept_init_def\<close>)
  then have 1: "accept_reach s0 s1" by (rule accept_next [OF accept_start])
  have w1: "a_results s1 = r2 # rs" "a_count s1 = 1" "a_waiting s1 = {0}" "a_client s1 = (\<lambda>_. None)"
    by (simp_all add: s1_def s0_def accept_init_def)
  show ?thesis
  proof (cases "r2 = - 1")
    case True
    define s2 where "s2 = s1\<lparr>a_rc := - 1, a_results := rs, a_count := Suc (a_count s1)\<rparr>"
    define s3 where "s3 = s2\<lparr>a_waiting := a_waiting s2 - {0}, a_client := (a_client s2)(0 \<mapsto> a_rc s2)\<rparr>"
    have "accept_step s1 s2" unfolding s2_def by (rule accept_fails) (use w1 True in simp)
    moreover have "accept_step s2 s3"
      unfolding s3_def by (rule thread_reads) (simp add: s2_def w1)
    ultimately have "accept_reach s0 s3" by (intro accept_next [OF accept_next [OF 1]])
    moreover have "a_client s3 = [0 \<mapsto> - 1]" "a_waiting s3 = {}" by (simp_all add: s3_def s2_def w1)
    ultimately show ?thesis using True assms unfolding s0_def by (intro exI [of _ s3]) simp
  next
    case False
    define s2 where "s2 = s1\<lparr>a_rc := r2, a_results := rs, a_count := Suc (a_count s1),
      a_waiting := insert (a_count s1) (a_waiting s1)\<rparr>"
    define s3 where "s3 = s2\<lparr>a_waiting := a_waiting s2 - {0}, a_client := (a_client s2)(0 \<mapsto> a_rc s2)\<rparr>"
    define s4 where "s4 = s3\<lparr>a_waiting := a_waiting s3 - {1}, a_client := (a_client s3)(1 \<mapsto> a_rc s3)\<rparr>"
    have "accept_step s1 s2" unfolding s2_def by (rule accept_starts) (use w1 False in simp_all)
    moreover have "accept_step s2 s3"
      unfolding s3_def by (rule thread_reads) (simp add: s2_def w1)
    moreover have "accept_step s3 s4"
      unfolding s4_def by (rule thread_reads) (simp add: s3_def s2_def w1)
    ultimately have "accept_reach s0 s4" by (intro accept_next [OF accept_next [OF accept_next [OF 1]]])
    moreover have "a_client s4 = [0 \<mapsto> r2, 1 \<mapsto> r2]" "a_waiting s4 = {}"
      by (auto simp: s4_def s3_def s2_def w1)
    ultimately show ?thesis using assms unfolding s0_def by (intro exI [of _ s4]) simp
  qed
qed

theorem c_proxy_start_race_witness:
  "\<exists>s. accept_reach (accept_init [5, 6]) s \<and> a_client s 0 = Some 6 \<and> (\<forall>t. a_client s t \<noteq> Some 5)"
  using c_proxy_start_race [of 5 6 "[]"] by auto

section \<open>Whole connections\<close>

lemma store_allocs: "store p c h = Inr h1 \<Longrightarrow> allocs h1 = allocs h"
  by (cases p) (auto simp: upd_block_def split: option.splits if_splits)

lemma body_loop_allocs: "body_loop p buff hs i k h = Inr h1 \<Longrightarrow> allocs h1 = allocs h"
proof (induction k arbitrary: i h)
  case (Suc k)
  then obtain c h2 where "store (ptr_add p i) c h = Inr h2" "body_loop p buff hs (Suc i) k h2 = Inr h1"
    by (auto simp: bindE_eq_Inr)
  then show ?case using Suc.IH store_allocs by metis
qed simp

lemma get_message_allocs_plain:
  assumes "c_http_get_message fd h = Inr (m, h1)" "allocs h = []"
  shows "allocs h1 = []"
proof (cases "fd < 0")
  case True
  then show ?thesis using assms by (simp add: c_http_get_message_def)
next
  case False
  let ?h2 = "h\<lparr>next_blk := Suc (next_blk h)\<rparr>"
  obtain chunk h3 where m: "malloc C_HTTP_MAX_BODY_CHUNK ?h2 = (chunk, h3)"
    by (cases "malloc C_HTTP_MAX_BODY_CHUNK ?h2")
  have a3: "allocs h3 = []"
    using m assms(2) by (auto simp: malloc_def next_event_def new_block_def)
  have "next_event h = (Fresh, h)" using assms(2) by (simp add: next_event_def)
  then show ?thesis
    using assms(1) a3
    by (auto simp: c_http_get_message_def False m Let_def bindE_eq_Inr set_msg_def split: if_splits
        dest!: body_loop_allocs)
qed

text \<open>
  One exchange: a header-only request from the client to the server and a header-only response
  back. Both descriptors are ones of the program.
\<close>

definition header_only :: "byte list \<Rightarrow> bool" where
  "header_only hdr \<longleftrightarrow> 15 \<le> length hdr \<and> length hdr \<le> 8192 \<and>
     first_occ HEADER_DELIM hdr = Some (length hdr - 4) \<and> first_occ content_length_key hdr = None"

lemma get_header_only:
  assumes "header_only hdr" "plain h" "0 \<le> fd" "conns h fd = Some c" "incoming c = Arrive hdr # es"
  shows "\<exists>m h1 r. c_http_get_message fd h = Inr (Some m, h1) \<and> msgs h1 m = Some r \<and>
     message_holds h1 r hdr [] 0 \<and> conns h1 = (conns h)(fd \<mapsto> c\<lparr>incoming := es\<rparr>) \<and> plain h1"
proof -
  note h = assms(1) [unfolded header_only_def]
  have cl: "http_get_content_length_headder (hdr @ suf) (word_of_nat (length hdr)) = Inr (int 0)" for suf
    using content_length_absent [of hdr suf] h by simp
  have one: "first_occ HEADER_DELIM (concat (butlast [hdr])) = None"
    "first_occ LFLF (concat (butlast [hdr])) = None" by (simp_all add: HEADER_DELIM_def LFLF_def)
  have nofail: "Fail \<notin> set (allocs h)" using assms(2) by (simp add: plain_def)
  obtain m h1 r where g: "c_http_get_message fd h = Inr (Some m, h1)" "msgs h1 m = Some r"
    "message_holds h1 r hdr [] 0" "conns h1 = (conns h)(fd \<mapsto> c\<lparr>incoming := es\<rparr>)" "heap_ok h \<longrightarrow> heap_ok h1"
    using get_message_body [OF assms(3) nofail assms(4), of hdr "[]" es hdr "[]" "length hdr - 4" 0]
      assms(5) h cl one by auto
  then show ?thesis
    using assms(2) get_message_allocs_plain [OF g(1)] by (auto simp: plain_def)
qed

lemma handle_exchange:
  assumes "header_only req" "header_only ans" "plain h" "0 \<le> cl" "0 \<le> sv" "cl \<noteq> sv"
    "conns h cl = Some c" "incoming c = Arrive req # es" "out_script c = []"
    "conns h sv = Some d" "incoming d = Arrive ans # fs" "out_script d = []"
  shows "\<exists>h1. handle_loop cl sv h = handle_loop cl sv h1 \<and> plain h1 \<and>
     conns h1 = (conns h)(cl \<mapsto> c\<lparr>incoming := es, outgoing := outgoing c @ ans\<rparr>,
                          sv \<mapsto> d\<lparr>incoming := fs, outgoing := outgoing d @ req\<rparr>)"
proof -
  have len: "length req \<le> 8192" "length ans \<le> 8192" "15 \<le> length ans"
    using assms(1,2) by (simp_all add: header_only_def)
  obtain m h1 r where g: "c_http_get_message cl h = Inr (Some m, h1)" "msgs h1 m = Some r"
    "message_holds h1 r req [] 0" "conns h1 = (conns h)(cl \<mapsto> c\<lparr>incoming := es\<rparr>)" "plain h1"
    using get_header_only [OF assms(1,3,4,7,8)] by blast
  have d1: "conns h1 sv = Some d" using g(4) assms(6,10) by simp
  obtain h2 where s: "c_proxy_send_message (Some m) sv h1 =
      Some (Inr (int (length req), Some (word_of_nat (length req)), h2))"
    "conns h2 = (conns h1)(sv \<mapsto> d\<lparr>outgoing := outgoing d @ req\<rparr>)" "plain h2"
    using send_header_only [OF _ g(2,3) assms(5) len(1) d1 assms(12)] g(5) by (auto simp: plain_def)
  have f2: "plain (free_msg m h2)" "conns (free_msg m h2) sv = Some (d\<lparr>outgoing := outgoing d @ req\<rparr>)"
    "conns (free_msg m h2) = conns h2"
    using s(2,3) by (simp_all add: free_msg_def plain_def heap_ok_def)
  obtain n h3 q where g3: "c_http_get_message sv (free_msg m h2) = Inr (Some n, h3)" "msgs h3 n = Some q"
    "message_holds h3 q ans [] 0"
    "conns h3 = (conns h2)(sv \<mapsto> d\<lparr>outgoing := outgoing d @ req, incoming := fs\<rparr>)" "plain h3"
    using get_header_only [OF assms(2) f2(1) assms(5) f2(2), of fs] assms(11) f2(3) by auto
  have c3: "conns h3 cl = Some (c\<lparr>incoming := es\<rparr>)" using g3(4) s(2) g(4) assms(6) by simp
  obtain h4 where s4: "c_proxy_send_message (Some n) cl h3 =
      Some (Inr (int (length ans), Some (word_of_nat (length ans)), h4))"
    "conns h4 = (conns h3)(cl \<mapsto> c\<lparr>incoming := es, outgoing := outgoing c @ ans\<rparr>)" "plain h4"
    using send_header_only [OF _ g3(2,3) assms(4) len(2) c3] g3(5) assms(9) by (auto simp: plain_def)
  have rc: "int (length xs) \<noteq> - 1" "int (length xs) \<noteq> C_HTTP_CONNECTION_CLOSED" for xs :: "byte list"
    by (simp_all add: C_HTTP_CONNECTION_CLOSED_def)
  have "headders_size q \<noteq> 0" using g3(3) len(3) by (auto simp: message_holds_def)
  then have "handle_loop cl sv h = handle_loop cl sv (free_msg n h4)"
    using g(1) s(1) g3(1,2) s4(1) rc by (subst handle_loop.simps) (simp add: msg_at_def)
  moreover have "plain (free_msg n h4)" using s4(3) by (simp add: free_msg_def plain_def heap_ok_def)
  moreover have "conns (free_msg n h4) = (conns h)(cl \<mapsto> c\<lparr>incoming := es, outgoing := outgoing c @ ans\<rparr>,
      sv \<mapsto> d\<lparr>incoming := fs, outgoing := outgoing d @ req\<rparr>)"
    using s4(2) g3(4) s(2) g(4) assms(6) by (auto simp: free_msg_def fun_upd_def)
  ultimately show ?thesis by blast
qed

lemma handle_exchanges:
  assumes "\<forall>(req, ans)\<in>set xs. header_only req \<and> header_only ans" "plain h" "0 \<le> cl" "0 \<le> sv" "cl \<noteq> sv"
    "conns h cl = Some c" "incoming c = map Arrive (map fst xs) @ es" "out_script c = []"
    "conns h sv = Some d" "incoming d = map Arrive (map snd xs) @ fs" "out_script d = []"
  shows "\<exists>h1. handle_loop cl sv h = handle_loop cl sv h1 \<and> plain h1 \<and>
     conns h1 = (conns h)(cl \<mapsto> c\<lparr>incoming := es, outgoing := outgoing c @ concat (map snd xs)\<rparr>,
                          sv \<mapsto> d\<lparr>incoming := fs, outgoing := outgoing d @ concat (map fst xs)\<rparr>)"
  using assms(1,2,6-)
proof (induction xs arbitrary: h c d)
  case Nil
  then show ?case by (intro exI [of _ h]) (auto simp: fun_upd_idem)
next
  case (Cons x xs)
  obtain req ans where x: "x = (req, ans)" by (cases x)
  let ?c = "c\<lparr>incoming := map Arrive (map fst xs) @ es, outgoing := outgoing c @ ans\<rparr>"
  let ?d = "d\<lparr>incoming := map Arrive (map snd xs) @ fs, outgoing := outgoing d @ req\<rparr>"
  have ok: "header_only req" "header_only ans" "\<forall>(req, ans)\<in>set xs. header_only req \<and> header_only ans"
    using Cons.prems(1) x by simp_all
  have i: "incoming c = Arrive req # map Arrive (map fst xs) @ es" "incoming d = Arrive ans # map Arrive (map snd xs) @ fs"
    using Cons.prems(4,7) x by simp_all
  obtain h1 where h1: "handle_loop cl sv h = handle_loop cl sv h1" "plain h1"
    "conns h1 = (conns h)(cl \<mapsto> ?c, sv \<mapsto> ?d)"
    using handle_exchange [OF ok(1,2) Cons.prems(2) assms(3-5) Cons.prems(3) i(1) Cons.prems(5,6) i(2) Cons.prems(8)]
    by blast
  have cd: "conns h1 cl = Some ?c" "conns h1 sv = Some ?d" using h1(3) assms(5) by simp_all
  have io: "incoming ?c = map Arrive (map fst xs) @ es" "out_script ?c = []"
    "incoming ?d = map Arrive (map snd xs) @ fs" "out_script ?d = []"
    using Cons.prems(5,8) by simp_all
  obtain h2 where h2: "handle_loop cl sv h1 = handle_loop cl sv h2" "plain h2"
    "conns h2 = (conns h1)(cl \<mapsto> ?c\<lparr>incoming := es, outgoing := outgoing ?c @ concat (map snd xs)\<rparr>,
                          sv \<mapsto> ?d\<lparr>incoming := fs, outgoing := outgoing ?d @ concat (map fst xs)\<rparr>)"
    using Cons.IH [OF ok(3) h1(2) cd(1) io(1,2) cd(2) io(3,4)] by blast
  then show ?case using h1 x assms(5) by (intro exI [of _ h2]) (auto simp: fun_upd_def)
qed


definition sample_relay :: mheap where
  "sample_relay = (sample_forward [] 0)\<lparr>conns :=
     [7 \<mapsto> \<lparr>incoming = map Arrive [''GET / HTTP/1.1'' @ HEADER_DELIM, ''GET /a HTTP/1.1'' @ HEADER_DELIM],
          outgoing = [], out_script = []\<rparr>,
      8 \<mapsto> \<lparr>incoming = map Arrive [''HTTP/1.1 204 '' @ HEADER_DELIM, ''HTTP/1.1 404 '' @ HEADER_DELIM],
          outgoing = [], out_script = []\<rparr>]\<rparr>"


end
