(* ===== verification/Buffer_History.thy ===== *)
theory Buffer_History
  imports C_Utils_Buffer
begin

text \<open>
  The whole life of a buffer of \<open>c_utils_buffer.c\<close>: it is made from a text, edited any number of times
  and released. The edits are abstracted to a relation on texts, which the heap refines step by
  step; nothing else in the heap changes, and nothing is left behind.
\<close>

section \<open>Edits\<close>

text \<open>
  The operations that change the text. The payload of an insertion is a block of the heap, given by
  its number.
\<close>

datatype edit = Insert nat nat | Append nat | Shift nat nat

fun run_edit :: "edit \<Rightarrow> nat \<Rightarrow> 'z bheap_scheme \<Rightarrow> (int \<times> 'z bheap_scheme) res" where
  "run_edit (Insert s i) a h =
     c_u_buffer_insert_at (Some a) (Ptr s 0) (word_of_nat (length (the (blocks h s)))) (word_of_nat i) h"
| "run_edit (Append s) a h =
     c_u_buffer_append (Some a) (Ptr s 0) (word_of_nat (length (the (blocks h s)))) h"
| "run_edit (Shift i n) a h = c_u_buffer_shift_from (Some a) (word_of_nat i) (word_of_nat n) h"

fun run_edits :: "edit list \<Rightarrow> nat \<Rightarrow> 'z bheap_scheme \<Rightarrow> (int list \<times> 'z bheap_scheme) res" where
  "run_edits [] a h = Inr ([], h)"
| "run_edits (e # es) a h =
     bindE (run_edit e a h) (\<lambda>(rc, h1).
     bindE (run_edits es a h1) (\<lambda>(rcs, h2). Inr (rc # rcs, h2)))"

text \<open>
  What one edit means for a text, with the return code: the bytes of the gap of a shift are not
  determined, and an index outside of the text changes nothing.
\<close>

inductive edit_text :: "(nat \<Rightarrow> byte list) \<Rightarrow> edit \<Rightarrow> byte list \<Rightarrow> int \<Rightarrow> byte list \<Rightarrow> bool" for src where
  insert: "i \<le> length xs \<Longrightarrow> edit_text src (Insert s i) xs 0 (take i xs @ src s @ drop i xs)"
| insert_outside: "length xs < i \<Longrightarrow> edit_text src (Insert s i) xs (- 2) xs"
| append: "edit_text src (Append s) xs 0 (xs @ src s)"
| shift: "i < length xs \<Longrightarrow> length gap = n \<Longrightarrow>
    edit_text src (Shift i n) xs 0 (take i xs @ gap @ drop i xs)"
| shift_outside: "length xs \<le> i \<Longrightarrow> edit_text src (Shift i n) xs (- 2) xs"

inductive edit_texts :: "(nat \<Rightarrow> byte list) \<Rightarrow> edit list \<Rightarrow> byte list \<Rightarrow> int list \<Rightarrow> byte list \<Rightarrow> bool"
  for src where
  no_edit: "edit_texts src [] xs [] xs"
| an_edit: "edit_text src e xs rc ys \<Longrightarrow> edit_texts src es ys rcs zs \<Longrightarrow>
    edit_texts src (e # es) xs (rc # rcs) zs"

inductive_cases edit_texts_ConsE: "edit_texts src (e # es) xs rcs zs"
inductive_cases edit_texts_NilE: "edit_texts src [] xs rcs zs"
inductive_cases edit_InsertE: "edit_text src (Insert s i) xs rc ys"

text \<open>How much an edit can add, and whether its numbers are sizes.\<close>

fun edit_room :: "(nat \<Rightarrow> byte list) \<Rightarrow> edit \<Rightarrow> nat" where
  "edit_room src (Insert s i) = length (src s)"
| "edit_room src (Append s) = length (src s)"
| "edit_room src (Shift i n) = n"

fun edit_ok :: "(nat \<Rightarrow> byte list option) \<Rightarrow> edit \<Rightarrow> bool" where
  "edit_ok m (Insert s i) \<longleftrightarrow> m s \<noteq> None \<and> i < 2 ^ 64"
| "edit_ok m (Append s) \<longleftrightarrow> m s \<noteq> None"
| "edit_ok m (Shift i n) \<longleftrightarrow> i < 2 ^ 64"

lemma edit_text_length: "edit_text src e xs rc ys \<Longrightarrow> length ys \<le> length xs + edit_room src e"
  by (induction rule: edit_text.induct) auto

section \<open>The allocator's script\<close>

text \<open>
  An allocator that refuses nothing stays so, whatever the operation; what it fills new blocks with
  does not change, and it only goes on to new blocks.
\<close>

definition granting :: "'z heap_scheme \<Rightarrow> bool" where
  "granting h \<longleftrightarrow> Fail \<notin> set (allocs h)"

definition steady :: "(nat \<Rightarrow> nat \<Rightarrow> byte) \<Rightarrow> nat \<Rightarrow> 'z heap_scheme \<Rightarrow> bool" where
  "steady j n h \<longleftrightarrow> granting h \<and> junk h = j \<and> n \<le> next_blk h"

text \<open>What an access to memory leaves as it was.\<close>

definition same_script :: "'z heap_scheme \<Rightarrow> 'z heap_scheme \<Rightarrow> bool" where
  "same_script h h1 \<longleftrightarrow> allocs h1 = allocs h \<and> junk h1 = junk h \<and> next_blk h1 = next_blk h"

lemma same_script_refl [simp]: "same_script h h"
  by (simp add: same_script_def)

lemma same_script_trans: "same_script h h1 \<Longrightarrow> same_script h1 h2 \<Longrightarrow> same_script h h2"
  by (simp add: same_script_def)

lemma granting_alloc_ok: "granting h \<Longrightarrow> alloc_ok h"
  by (auto simp: granting_def alloc_ok_def next_event_def split: list.splits)

lemma steady_start: "granting h \<Longrightarrow> steady (junk h) (next_blk h) h"
  by (simp add: steady_def)

lemma steady_granting: "steady j n h \<Longrightarrow> granting h"
  by (simp add: steady_def)

lemma steady_same: "same_script h h1 \<Longrightarrow> steady j n h1 \<longleftrightarrow> steady j n h"
  by (simp add: steady_def granting_def same_script_def)

lemma steady_set_cbuf [simp]: "steady j n (set_cbuf a r h) = steady j n h"
  by (simp add: steady_def granting_def)

lemma store_script: "store p c h = Inr h1 \<Longrightarrow> same_script h h1"
  by (cases p) (auto simp: same_script_def split: option.splits if_splits)

lemma c_free_script: "c_free p h = Inr h1 \<Longrightarrow> same_script h h1"
  by (cases p) (auto simp: same_script_def split: if_splits)

lemma copy_loop_script: "copy_loop src dst i k h = Inr h1 \<Longrightarrow> same_script h h1"
  by (induction k arbitrary: i h)
    (auto simp: bindE_eq_Inr intro: same_script_trans [OF store_script])

lemma move_up_loop_script: "move_up_loop p len n i k h = Inr h1 \<Longrightarrow> same_script h h1"
  by (induction k arbitrary: i h)
    (auto simp: bindE_eq_Inr intro: same_script_trans [OF store_script])

lemma copy_n_script: "c_u_str_copy_n src n dst sz h = Inr (rc, h1) \<Longrightarrow> same_script h h1"
  by (auto simp: c_u_str_copy_n_def bindE_eq_Inr split: if_splits dest: copy_loop_script)

lemma insert_components_script: "insert_components cs p cap len h = Inr (l, h1) \<Longrightarrow> same_script h h1"
  by (induction cs arbitrary: p len h)
    (auto simp: bindE_eq_Inr intro: same_script_trans [OF copy_n_script])

lemma shift_components_script:
  "shift_components i cs n p cap len h = Inr (l, h1) \<Longrightarrow> same_script h h1"
  by (induction cs arbitrary: i p len h)
    (auto simp: bindE_eq_Inr intro: same_script_trans [OF copy_n_script])

lemma strncpy_loop_script: "strncpy_loop dst src ended i k h = Inr h1 \<Longrightarrow> same_script h h1"
  by (induction k arbitrary: i h ended)
    (auto simp: bindE_eq_Inr split: if_splits intro: same_script_trans [OF store_script])

lemma malloc_script: "malloc k h = (p, h1) \<Longrightarrow> steady j n h \<Longrightarrow> steady j n h1"
  by (auto simp: malloc_def next_event_def new_block_def steady_def granting_def split: list.splits if_splits)

lemma calloc_script: "calloc k h = (p, h1) \<Longrightarrow> steady j n h \<Longrightarrow> steady j n h1"
  by (auto simp: calloc_def next_event_def new_block_def steady_def granting_def split: list.splits if_splits)

lemma new_cbuf_script: "new_cbuf r h = (p, h1) \<Longrightarrow> steady j n h \<Longrightarrow> steady j n h1"
  by (auto simp: new_cbuf_def next_event_def steady_def granting_def split: list.splits if_splits)

lemmas script_rules = store_script c_free_script move_up_loop_script copy_n_script
  insert_components_script shift_components_script

lemma insert_at_script:
  assumes "c_u_buffer_insert_at p s k i h = Inr (rc, h1)" "steady j n h"
  shows "steady j n h1"
  using assms
  by (auto simp: c_u_buffer_insert_at_def Let_def bindE_eq_Inr steady_same
      split: option.splits if_splits prod.splits dest!: script_rules malloc_script)

lemma shift_from_script:
  assumes "c_u_buffer_shift_from p i k h = Inr (rc, h1)" "steady j n h"
  shows "steady j n h1"
  using assms
  by (auto simp: c_u_buffer_shift_from_def Let_def bindE_eq_Inr steady_same
      split: option.splits if_splits prod.splits dest!: script_rules calloc_script)

lemma empty_script:
  assumes "c_u_buffer_empty cap h = Inr (p, h1)" "steady j n h"
  shows "steady j n h1"
proof -
  obtain q h2 where m: "malloc (unat cap) h = (q, h2)" by (cases "malloc (unat cap) h")
  obtain b h3 where c: "new_cbuf \<lparr>b_cap = cap, b_len = 0, b_avl = cap, b_buf = q\<rparr> h2 = (b, h3)"
    by (cases "new_cbuf \<lparr>b_cap = cap, b_len = 0, b_avl = cap, b_buf = q\<rparr> h2")
  have "steady j n h2" "steady j n h3" using malloc_script [OF m assms(2)] new_cbuf_script [OF c] by simp_all
  then show ?thesis
    using assms(1) m c
    by (auto simp: c_u_buffer_empty_def bindE_eq_Inr steady_same split: if_splits option.splits dest!: c_free_script)
qed

lemma new_script:
  assumes "c_u_buffer_new p len h = Inr (q, h1)" "steady j n h"
  shows "steady j n h1"
proof (cases "p = Null")
  case True
  then show ?thesis using assms by (simp add: c_u_buffer_new_def)
next
  case False
  then obtain h2 h3 and r :: CmonBuffer where "c_u_buffer_empty (len + C_U_BUFFER_INITIAL_EXTRA_SPACE) h = Inr (q, h2)"
    "strncpy (b_buf r) p len h2 = Inr h3" "same_script h3 h1"
    using assms(1) by (auto simp: c_u_buffer_new_def bindE_eq_Inr same_script_def)
  then show ?thesis
    using empty_script [OF _ assms(2)] by (auto simp: steady_same strncpy_def dest!: strncpy_loop_script)
qed

section \<open>Nothing else changes\<close>

text \<open>The heap without a buffer: every block but its own, every structure but its own.\<close>

definition others :: "nat \<Rightarrow> 'z bheap_scheme \<Rightarrow> (nat \<Rightarrow> byte list option) \<times> (nat \<Rightarrow> CmonBuffer option)" where
  "others a h = ((blocks h)(the (buf_block h a) := None), (cbufs h)(a := None))"

lemma insert_at_others:
  assumes "heap_ok h" "alloc_ok h" "buf_ok h a" "cbufs h a = Some r" "blocks h s = Some ss"
    "buf_block h a \<noteq> Some s" "unat n \<le> length ss" "idx \<le> b_len r"
    "unat (b_len r) + unat n + 20 < 2 ^ 64" "c_u_buffer_insert_at (Some a) (Ptr s 0) n idx h = Inr (rc, h1)"
  shows "others a h1 = others a h"
proof -
  from assms(3,4) obtain b bs where b: "b_buf r = Ptr b 0" "blocks h b = Some bs"
    "length bs = unat (b_cap r)" "b_len r \<le> b_cap r" "buf_block h a = Some b"
    by (auto elim!: buf_okE)
  have bnb: "b \<noteq> next_blk h" using fresh_neq assms(1) b(2) by blast
  have free: "blocks h (next_blk h) = None" using assms(1) by (simp add: heap_ok_def)
  show ?thesis
  proof (cases "unat (b_len r) + unat n \<le> unat (b_cap r)")
    case True
    have "s \<noteq> b" using assms(6) b(5) by auto
    from insert_at_in_place [OF assms(4) b(1-3) assms(5) this _ assms(8) True, of 0] assms(7,10)
    show ?thesis using b(1,5) by (auto simp: others_def buf_block_def)
  next
    case False
    then have "unat (b_cap r) < unat (b_len r) + unat n" by simp
    moreover have "0 + unat n \<le> length ss" using assms(7) by simp
    ultimately obtain h2 rest where "c_u_buffer_insert_at (Some a) (Ptr s 0) n idx h = Inr (0, h2)"
      "blocks h2 = (blocks h)(next_blk h \<mapsto> take (unat idx) bs @ take (unat n) (drop 0 ss) @
          drop (unat idx) (take (unat (b_len r)) bs) @ rest, b := None)" "length rest = 20"
      "cbufs h2 = (cbufs h)(a \<mapsto> r\<lparr>b_cap := b_len r + n + 20, b_len := b_len r + n,
                                  b_buf := Ptr (next_blk h) 0\<rparr>)" "next_blk h2 = Suc (next_blk h)"
      using insert_at_grows [OF assms(1,2,4) b(1-4) assms(5) _ assms(8) _ assms(9)] by blast
    then show ?thesis using assms(10) b(5) bnb free by (auto simp: others_def buf_block_def fun_eq_iff)
  qed
qed

lemma shift_from_others:
  assumes "heap_ok h" "alloc_ok h" "buf_ok h a" "cbufs h a = Some r" "idx < b_len r"
    "unat (b_len r) + unat n + 20 < 2 ^ 64" "c_u_buffer_shift_from (Some a) idx n h = Inr (rc, h1)"
  shows "others a h1 = others a h"
proof -
  from assms(3,4) obtain b bs where b: "b_buf r = Ptr b 0" "blocks h b = Some bs"
    "length bs = unat (b_cap r)" "b_len r \<le> b_cap r" "buf_block h a = Some b"
    by (auto elim!: buf_okE)
  have bnb: "b \<noteq> next_blk h" using fresh_neq assms(1) b(2) by blast
  have free: "blocks h (next_blk h) = None" using assms(1) by (simp add: heap_ok_def)
  show ?thesis
  proof (cases "unat (b_len r) + unat n \<le> unat (b_cap r)")
    case True
    from shift_from_in_place [OF assms(4) b(1-3) assms(5) True] assms(7)
    show ?thesis using b(1,5) by (auto simp: others_def buf_block_def)
  next
    case False
    then have "unat (b_cap r) < unat (b_len r) + unat n" by simp
    from shift_from_grows [OF assms(1,2,4) b(1-4) assms(5) this assms(6)]
    obtain h2 where "c_u_buffer_shift_from (Some a) idx n h = Inr (0, h2)"
      "blocks h2 = (blocks h)(next_blk h \<mapsto> take (unat idx) bs @ replicate (unat n) NUL @
          drop (unat idx) (take (unat (b_len r)) bs) @ replicate 20 NUL, b := None)"
      "cbufs h2 = (cbufs h)(a \<mapsto> \<lparr>b_cap = b_len r + n + 20, b_len = b_len r + n, b_avl = 20,
                                 b_buf = Ptr (next_blk h) 0\<rparr>)" .
    then show ?thesis using assms(7) b(5) bnb free by (auto simp: others_def buf_block_def fun_eq_iff)
  qed
qed

section \<open>Edits refine\<close>

text \<open>A buffer that holds a text in a heap that is otherwise \<open>m\<close>.\<close>

definition holds_text ::
    "nat \<Rightarrow> (nat \<Rightarrow> byte list option) \<times> (nat \<Rightarrow> CmonBuffer option) \<Rightarrow> 'z bheap_scheme \<Rightarrow> byte list \<Rightarrow> bool" where
  "holds_text a m h xs \<longleftrightarrow>
     heap_ok h \<and> granting h \<and> buf_ok h a \<and> contents h a = xs \<and> others a h = m"

lemma holds_textD:
  assumes "holds_text a m h xs"
  obtains r where "cbufs h a = Some r" "unat (b_len r) = length xs" "heap_ok h" "alloc_ok h" "granting h"
    "buf_ok h a" "contents h a = xs" "others a h = m"
proof -
  obtain r where r: "cbufs h a = Some r" using assms by (auto simp: holds_text_def elim: buf_okE)
  then show thesis
    using assms length_contents [of h a r] granting_alloc_ok
    by (intro that [of r]) (auto simp: holds_text_def)
qed

lemma holds_text_payload:
  assumes "holds_text a m h xs" "fst m s = Some ss"
  shows "blocks h s = Some ss \<and> buf_block h a \<noteq> Some s"
  using assms by (auto simp: holds_text_def others_def split: if_splits)

lemma insert_holds:
  assumes "holds_text a m h xs" "fst m s = Some (ss @ past)" "i \<le> length xs" "length xs + length ss + 20 < 2 ^ 64"
  shows "\<exists>h1. c_u_buffer_insert_at (Some a) (Ptr s 0) (word_of_nat (length ss)) (word_of_nat i) h = Inr (0, h1) \<and>
     holds_text a m h1 (take i xs @ ss @ drop i xs)"
proof -
  obtain r where r: "cbufs h a = Some r" "unat (b_len r) = length xs" "heap_ok h" "alloc_ok h" "granting h"
    "buf_ok h a" "contents h a = xs" "others a h = m" using assms(1) by (rule holds_textD)
  note pay = holds_text_payload [OF assms(1,2)]
  have n: "unat (word_of_nat (length ss) :: size_t) = length ss" "unat (word_of_nat i :: size_t) = i"
    using assms(3,4) by (simp_all add: unat_of_nat)
  have idx: "(word_of_nat i :: size_t) \<le> b_len r" using n(2) r(2) assms(3) by (simp add: word_le_nat_alt)
  have room: "unat (b_len r) + unat (word_of_nat (length ss) :: size_t) + 20 < 2 ^ 64"
    unfolding n r(2) by (rule assms(4))
  obtain h1 where h1: "c_u_buffer_insert_at (Some a) (Ptr s 0) (word_of_nat (length ss)) (word_of_nat i) h = Inr (0, h1)"
    "heap_ok h1" "buf_ok h1 a" "contents h1 a = take i xs @ ss @ drop i xs"
    using insert_at_contents [OF r(3,4,6,1) conjunct1 [OF pay] conjunct2 [OF pay] _ idx room, of 0] n r(7) by auto
  moreover have "others a h1 = m"
    using insert_at_others [OF r(3,4,6,1) conjunct1 [OF pay] conjunct2 [OF pay] _ idx room h1(1)] n r(8) by simp
  ultimately show ?thesis using insert_at_script [OF h1(1) steady_start [OF r(5)]]
    by (auto simp: holds_text_def steady_granting)
qed

lemma shift_holds:
  assumes "holds_text a m h xs" "i < length xs" "length xs + n + 20 < 2 ^ 64"
  shows "\<exists>h1 gap. c_u_buffer_shift_from (Some a) (word_of_nat i) (word_of_nat n) h = Inr (0, h1) \<and>
     length gap = n \<and> holds_text a m h1 (take i xs @ gap @ drop i xs)"
proof -
  obtain r where r: "cbufs h a = Some r" "unat (b_len r) = length xs" "heap_ok h" "alloc_ok h" "granting h"
    "buf_ok h a" "contents h a = xs" "others a h = m" using assms(1) by (rule holds_textD)
  have n: "unat (word_of_nat n :: size_t) = n" "unat (word_of_nat i :: size_t) = i"
    using assms(2,3) by (simp_all add: unat_of_nat)
  have idx: "(word_of_nat i :: size_t) < b_len r" using n(2) r(2) assms(2) by (simp add: word_less_nat_alt)
  have room: "unat (b_len r) + unat (word_of_nat n :: size_t) + 20 < 2 ^ 64"
    unfolding n r(2) by (rule assms(3))
  obtain h1 gap where h1: "c_u_buffer_shift_from (Some a) (word_of_nat i) (word_of_nat n) h = Inr (0, h1)"
    "heap_ok h1" "buf_ok h1 a" "length gap = n" "contents h1 a = take i xs @ gap @ drop i xs"
    using shift_from_contents [OF r(3,4,6,1) idx room] n r(7) by auto
  moreover have "others a h1 = m" using shift_from_others [OF r(3,4,6,1) idx room h1(1)] r(8) by simp
  ultimately show ?thesis using shift_from_script [OF h1(1) steady_start [OF r(5)]]
    by (auto simp: holds_text_def steady_granting)
qed

lemma edit_holds:
  assumes "holds_text a m h xs" "edit_ok (fst m) e" "\<forall>s ss. fst m s = Some ss \<longrightarrow> src s = ss"
    "length xs + edit_room src e + 20 < 2 ^ 64"
  shows "\<exists>rc h1 ys. run_edit e a h = Inr (rc, h1) \<and> edit_text src e xs rc ys \<and> holds_text a m h1 ys"
proof -
  obtain r where r: "cbufs h a = Some r" "unat (b_len r) = length xs" using assms(1) by (rule holds_textD)
  show ?thesis
  proof (cases e)
    case (Insert s i)
    then obtain ss where ss: "fst m s = Some ss" "i < 2 ^ 64" using assms(2) by auto
    note pay = holds_text_payload [OF assms(1) ss(1)]
    have src: "src s = ss" using assms(3) ss(1) by blast
    show ?thesis
    proof (cases "i \<le> length xs")
      case True
      with insert_holds [of a m h xs s ss "[]" i] assms(1,4) ss(1) Insert pay src show ?thesis
        by (fastforce intro: edit_text.insert [where src = src and s = s, unfolded src])
    next
      case False
      then have "b_len r < word_of_nat i" using r(2) ss(2) by (simp add: word_less_nat_alt unat_of_nat)
      then have "run_edit e a h = Inr (- 2, h)" using r(1) Insert by (simp add: c_u_buffer_insert_at_def)
      moreover have "edit_text src e xs (- 2) xs"
        unfolding Insert by (rule edit_text.insert_outside) (use False in simp)
      ultimately show ?thesis using assms(1) by blast
    qed
  next
    case (Append s)
    then obtain ss where ss: "fst m s = Some ss" using assms(2) by auto
    note pay = holds_text_payload [OF assms(1) ss]
    have src: "src s = ss" using assms(3) ss by blast
    have "word_of_nat (unat (b_len r)) = b_len r" by simp
    then have len: "word_of_nat (length xs) = b_len r" unfolding r(2) .
    from insert_holds [of a m h xs s ss "[]" "length xs"] assms(1,4) ss Append pay src r(1) show ?thesis
      by (fastforce simp: c_u_buffer_append_def len intro: edit_text.append [where src = src and s = s, unfolded src])
  next
    case (Shift i n)
    show ?thesis
    proof (cases "i < length xs")
      case True
      with shift_holds [OF assms(1) True, of n] assms(4) Shift show ?thesis
        by (fastforce intro: edit_text.shift)
    next
      case False
      then have "b_len r \<le> word_of_nat i"
        using r(2) assms(2) Shift by (simp add: word_le_nat_alt unat_of_nat)
      then have "run_edit e a h = Inr (- 2, h)" using r(1) Shift by (simp add: c_u_buffer_shift_from_def)
      moreover have "edit_text src e xs (- 2) xs"
        unfolding Shift by (rule edit_text.shift_outside) (use False in simp)
      ultimately show ?thesis using assms(1) by blast
    qed
  qed
qed

lemma edits_hold:
  assumes "holds_text a m h xs" "\<forall>e\<in>set es. edit_ok (fst m) e" "\<forall>s ss. fst m s = Some ss \<longrightarrow> src s = ss"
    "length xs + sum_list (map (edit_room src) es) + 20 < 2 ^ 64"
  shows "\<exists>rcs h1 ys. run_edits es a h = Inr (rcs, h1) \<and> edit_texts src es xs rcs ys \<and> holds_text a m h1 ys"
  using assms(1,2,4)
proof (induction es arbitrary: h xs)
  case Nil
  then show ?case by (auto intro: edit_texts.no_edit)
next
  case (Cons e es)
  have "length xs + edit_room src e + 20 < 2 ^ 64" "edit_ok (fst m) e" using Cons.prems(2,3) by simp_all
  then obtain rc h1 ys where e: "run_edit e a h = Inr (rc, h1)" "edit_text src e xs rc ys" "holds_text a m h1 ys"
    using edit_holds [OF Cons.prems(1) _ assms(3)] by blast
  have "length ys + sum_list (map (edit_room src) es) + 20 < 2 ^ 64"
    using edit_text_length [OF e(2)] Cons.prems(3) by simp
  then obtain rcs h2 zs where "run_edits es a h1 = Inr (rcs, h2)" "edit_texts src es ys rcs zs" "holds_text a m h2 zs"
    using Cons.IH [OF e(3)] Cons.prems(2) by auto
  with e show ?case by (auto intro: edit_texts.an_edit)
qed

section \<open>From creation to release\<close>

lemma new_holds_text:
  assumes "heap_ok h" "granting h" "blocks h t = Some (txt @ NUL # past)" "NUL \<notin> set txt" "length txt + 20 < 2 ^ 64"
    "\<forall>a \<ge> next_blk h. cbufs h a = None"
  shows "\<exists>a h1. c_u_buffer_new (Ptr t 0) (word_of_nat (length txt)) h = Inr (Some a, h1) \<and>
     holds_text a (blocks h, cbufs h) h1 txt \<and> a < next_blk h1 \<and>
     (\<exists>b. cbufs h1 a = Some \<lparr>b_cap = word_of_nat (length txt) + 20, b_len = word_of_nat (length txt), b_avl = 20, b_buf = Ptr b 0\<rparr> \<and>
        blocks h1 b = Some (txt @ map (junk h b) [length txt..<length txt + 20]))"
proof -
  have n: "unat (word_of_nat (length txt) :: size_t) = length txt" using assms(5) by (simp add: unat_of_nat)
  have room: "unat (word_of_nat (length txt) :: size_t) + 20 < 2 ^ 64" unfolding n by (rule assms(5))
  let ?n = "word_of_nat (length txt) :: size_t"
  have pre: "0 + unat ?n \<le> length (txt @ NUL # past) \<or> NUL \<in> set (drop 0 (txt @ NUL # past))" by simp
  have nofail: "Fail \<notin> set (allocs h)" using assms(2) by (simp add: granting_def)
  obtain a h1 b bs where new: "c_u_buffer_new (Ptr t 0) ?n h = Inr (Some a, h1)"
    "cbufs h1 = (cbufs h)(a \<mapsto> \<lparr>b_cap = ?n + 20, b_len = ?n, b_avl = 20, b_buf = Ptr b 0\<rparr>)"
    "blocks h1 = (blocks h)(b \<mapsto> bs)" "length bs = unat ?n + 20" "blocks h b = None"
    "take (unat ?n) bs = strncpy_bytes (unat ?n) (drop 0 (txt @ NUL # past))" "next_blk h \<le> a" "heap_ok h1"
    "drop (unat ?n) bs = map (junk h b) [unat ?n..<unat ?n + 20]" "a < next_blk h1"
    using new_makes [OF assms(1,3) pre room nofail] .
  have copied: "strncpy_bytes (length txt) (txt @ NUL # past) = txt"
    using assms(4) by (simp add: strncpy_bytes_plain)
  then have whole: "bs = txt @ map (junk h b) [length txt..<length txt + 20]"
    using new(6,9) n append_take_drop_id [of "length txt" bs] by simp
  have cap: "unat (word_of_nat (length txt) + 20 :: size_t) = length txt + 20"
    using room n unat_add_no_wrap [of "word_of_nat (length txt)" 20] by simp
  then have "(word_of_nat (length txt) :: size_t) \<le> word_of_nat (length txt) + 20"
    using n by (simp add: word_le_nat_alt)
  with copied cap have "buf_ok h1 a" "contents h1 a = txt" "buf_block h1 a = Some b"
    using buf_okI [of h1 a _ b bs, OF _ _ _ _ _] new(2,3,4,6) n cap by simp_all
  moreover have "others a h1 = (blocks h, cbufs h)"
    using new(2,3,5,7) assms(6) \<open>buf_block h1 a = Some b\<close> by (auto simp: others_def fun_eq_iff)
  ultimately show ?thesis
    using new(1,2,3,8,10) whole new_script [OF new(1) steady_start [OF assms(2)]] by (auto simp: holds_text_def steady_granting)
qed

lemma holds_text_free:
  assumes "holds_text a m h xs"
  shows "\<exists>h1. c_u_buffer_free (Some a) h = Inr h1 \<and> (blocks h1, cbufs h1) = m"
proof -
  have ok: "buf_ok h a" "others a h = m" using assms by (simp_all add: holds_text_def)
  obtain r b bs where "cbufs h a = Some r" "b_buf r = Ptr b 0" "blocks h b = Some bs" "buf_block h a = Some b"
    using ok(1) by (elim buf_okE)
  then show ?thesis using free_blocks [of h a r b] ok(2) by (simp add: others_def)
qed

section \<open>Properties\<close>

text \<open>
  C4. Over its whole life a buffer is a text: made from a string and edited by any number of
  insertions, appends and shifts, in place or by moving to a larger block, it holds at the end what
  the same edits make of the text, each call returns the code of its edit (an index outside of the
  text is refused and changes nothing), no other block and no other buffer is touched, and its
  release leaves the heap exactly as it was before the buffer was made.
\<close>

theorem c_u_buffer_history:
  assumes "heap_ok h" "Fail \<notin> set (allocs h)" "blocks h t = Some (txt @ NUL # past)" "NUL \<notin> set txt"
    "\<forall>a \<ge> next_blk h. cbufs h a = None" "\<forall>e\<in>set es. edit_ok (blocks h) e"
    "length txt + sum_list (map (edit_room (\<lambda>s. the (blocks h s))) es) + 20 < 2 ^ 64"
  shows "\<exists>a h1 rcs h2 h3. c_u_buffer_new (Ptr t 0) (word_of_nat (length txt)) h = Inr (Some a, h1) \<and>
     run_edits es a h1 = Inr (rcs, h2) \<and> buf_ok h2 a \<and>
     edit_texts (\<lambda>s. the (blocks h s)) es txt rcs (contents h2 a) \<and>
     c_u_buffer_free (Some a) h2 = Inr h3 \<and> blocks h3 = blocks h \<and> cbufs h3 = cbufs h"
proof -
  have "granting h" "length txt + 20 < 2 ^ 64" using assms(2,7) by (simp_all add: granting_def)
  then obtain a h1 where new: "c_u_buffer_new (Ptr t 0) (word_of_nat (length txt)) h = Inr (Some a, h1)"
    "holds_text a (blocks h, cbufs h) h1 txt"
    using new_holds_text [OF assms(1) _ assms(3,4) _ assms(5)] by blast
  obtain rcs h2 ys where run: "run_edits es a h1 = Inr (rcs, h2)"
    "edit_texts (\<lambda>s. the (blocks h s)) es txt rcs ys" "holds_text a (blocks h, cbufs h) h2 ys"
    using edits_hold [OF new(2), of es "\<lambda>s. the (blocks h s)"] assms(6,7) by auto
  then show ?thesis using new(1) holds_text_free [OF run(3)] by (auto simp: holds_text_def)
qed

text \<open>The text and the payloads of the unit test of the buffers, with a shift and a refused index.\<close>

definition history_heap :: bheap where
  "history_heap = \<lparr>blocks = [0 \<mapsto> ''abcdeabcde|'' @ [NUL], 1 \<mapsto> ''12345'', 2 \<mapsto> ''123456789 123456789 123456789''],
     next_blk = 3, allocs = [], junk = (\<lambda>_ _. CHR ''?''), cbufs = (\<lambda>_. None)\<rparr>"

theorem c_u_buffer_history_witness:
  "\<exists>a h1 rcs h2 h3. c_u_buffer_new (Ptr 0 0) 11 history_heap = Inr (Some a, h1) \<and>
     run_edits [Insert 1 5, Insert 2 99, Append 2] a h1 = Inr (rcs, h2) \<and> rcs = [0, - 2, 0] \<and>
     contents h2 a = ''abcde12345abcde|123456789 123456789 123456789'' \<and>
     c_u_buffer_free (Some a) h2 = Inr h3 \<and> blocks h3 = blocks history_heap"
proof -
  let ?src = "\<lambda>s. the (blocks history_heap s)"
  let ?es = "[Insert 1 5, Insert 2 99, Append 2]"
  have h: "heap_ok history_heap" "Fail \<notin> set (allocs history_heap)"
    "blocks history_heap 0 = Some (''abcdeabcde|'' @ NUL # [])" "NUL \<notin> set ''abcdeabcde|''"
    "\<forall>a \<ge> next_blk history_heap. cbufs history_heap a = None" "\<forall>e\<in>set ?es. edit_ok (blocks history_heap) e"
    "length ''abcdeabcde|'' + sum_list (map (edit_room ?src) ?es) + 20 < 2 ^ 64"
    by (simp_all add: history_heap_def heap_ok_def NUL_def)
  obtain a h1 rcs h2 h3 where run: "c_u_buffer_new (Ptr 0 0) (word_of_nat (length ''abcdeabcde|'')) history_heap = Inr (Some a, h1)"
    "run_edits ?es a h1 = Inr (rcs, h2)" "edit_texts ?src ?es ''abcdeabcde|'' rcs (contents h2 a)"
    "c_u_buffer_free (Some a) h2 = Inr h3" "blocks h3 = blocks history_heap"
    using c_u_buffer_history [OF h] by blast
  have src: "?src (Suc 0) = ''12345''" "?src 2 = ''123456789 123456789 123456789''"
    by (simp_all add: history_heap_def)
  have "rcs = [0, - 2, 0] \<and> contents h2 a = ''abcde12345abcde|123456789 123456789 123456789''"
    using run(3) by (auto simp: src edit_text.simps elim!: edit_texts_ConsE edit_texts_NilE)
  with run show ?thesis by auto
qed

end
