(* ===== verification/Bounded_Seq.thy ===== *)
theory Bounded_Seq
  imports Cmon_Prelude
begin

text \<open>
  The interface that the program's containers share: elements are added at the end until a fixed
  number of them is reached, and from then on every addition is refused. The string array (50)
  and the integer array (5000) are interpretations; what a sequence of
  additions leaves in such a container is proved once, here.
\<close>

locale bounded_seq =
  fixes add :: "'e \<Rightarrow> 's \<Rightarrow> 's option"
    and items :: "'s \<Rightarrow> 'e list"
    and limit :: nat
    and ok :: "'s \<Rightarrow> bool"
  assumes add_room: "ok s \<Longrightarrow> length (items s) < limit \<Longrightarrow>
      \<exists>t. add e s = Some t \<and> ok t \<and> items t = items s @ [e]"
    and add_full: "ok s \<Longrightarrow> limit \<le> length (items s) \<Longrightarrow> add e s = None"
begin

definition add_or_keep :: "'e \<Rightarrow> 's \<Rightarrow> 's" where
  "add_or_keep e s = (case add e s of None \<Rightarrow> s | Some t \<Rightarrow> t)"

lemma add_or_keep_room:
  "ok s \<Longrightarrow> length (items s) < limit \<Longrightarrow>
   ok (add_or_keep e s) \<and> items (add_or_keep e s) = items s @ [e]"
  using add_room [of s e] by (auto simp: add_or_keep_def)

lemma add_or_keep_full: "ok s \<Longrightarrow> limit \<le> length (items s) \<Longrightarrow> add_or_keep e s = s"
  by (simp add: add_or_keep_def add_full)

lemma add_all_full:
  "ok s \<Longrightarrow> limit \<le> length (items s) \<Longrightarrow> fold add_or_keep es s = s"
  by (induction es) (simp_all add: add_or_keep_full)

text \<open>A sequence of additions keeps the first ones that fit, in order.\<close>

lemma add_all:
  assumes "ok s" "length (items s) \<le> limit"
  shows "ok (fold add_or_keep es s) \<and> items (fold add_or_keep es s) = take limit (items s @ es)"
  using assms
proof (induction es arbitrary: s)
  case (Cons e es)
  show ?case
  proof (cases "length (items s) < limit")
    case True
    with Cons add_or_keep_room [OF Cons.prems(1) True, of e] show ?thesis by (simp add: take_Cons')
  next
    case False
    with Cons.prems have "length (items s) = limit" by simp
    with Cons.prems show ?thesis by (simp add: add_or_keep_full add_all_full)
  qed
qed simp

text \<open>While everything fits, every addition succeeds.\<close>

lemma add_all_fit:
  assumes "ok s" "length (items s) + length es \<le> limit"
  shows "items (fold add_or_keep es s) = items s @ es"
  using add_all [of s es] assms by simp

end

end
