(* ===== verification/C_Int_Array.thy ===== *)
theory C_Int_Array
  imports Bounded_Seq Text_Utils
begin

text \<open>
  \<open>src/src/utils/c_int_array.c\<close>: a growing array of integers. An addition to a full array moves it
  and frees the old one, so the arrays live in a store of their own, addressed by number, and a
  caller that keeps the old pointer is caught. The store also holds the answers of the allocator to
  the requests of the whole program. The elements of a new array are given as 0; none is read
  before it is written.
\<close>

record CmonIntArray =
  i_len :: nat
  i_size :: nat
  i_arr :: "int list"

record iheap =
  iarrs :: "nat \<Rightarrow> CmonIntArray option"
  inext :: nat
  imem :: memory

definition MAX_INT_ARRAY_SIZE :: nat where
  "MAX_INT_ARRAY_SIZE = 5000"

definition MEMORY_INCREMENT :: nat where
  "MEMORY_INCREMENT = 15"

section \<open>Operations\<close>

definition cmon_int_arr_new :: "nat \<Rightarrow> 'z iheap_scheme \<Rightarrow> nat option \<times> 'z iheap_scheme" where
  "cmon_int_arr_new initialSize h =
     (if initialSize = 0 then (None, h)
      else try_alloc (imem h) (\<lambda>m. (None, h\<lparr>imem := m\<rparr>)) (\<lambda>m.
        (Some (inext h),
         h\<lparr>iarrs := (iarrs h)(inext h \<mapsto> \<lparr>i_len = 0, i_size = initialSize, i_arr = replicate initialSize 0\<rparr>),
           inext := Suc (inext h), imem := m\<rparr>)))"

definition cmon_int_arr_add ::
    "nat option \<Rightarrow> int \<Rightarrow> 'z iheap_scheme \<Rightarrow> (nat option \<times> 'z iheap_scheme) res" where
  "cmon_int_arr_add p x h = (case p of
      None \<Rightarrow> Inr (None, h)
    | Some a \<Rightarrow> (case iarrs h a of
        None \<Rightarrow> Inl (UB UseAfterFree)
      | Some r \<Rightarrow>
          if i_len r + 1 > MAX_INT_ARRAY_SIZE then Inr (None, h)
          else if i_size r < i_len r + 1 then
            (case cmon_int_arr_new (i_size r + MEMORY_INCREMENT) h of (q, h1) \<Rightarrow>
              (case q of
                None \<Rightarrow> Inl (UB NullDeref)
              | Some b \<Rightarrow> (case iarrs h1 b of
                  None \<Rightarrow> Inl (UB UseAfterFree)
                | Some n \<Rightarrow>
                    if length (i_arr r) < i_len r \<or> length (i_arr n) \<le> i_len r then Inl (UB OutOfBounds)
                    else Inr (Some b, h1\<lparr>iarrs := ((iarrs h1)
                      (b \<mapsto> n\<lparr>i_len := i_len r + 1,
                             i_arr := blit (i_arr n) 0 (take (i_len r) (i_arr r) @ [x])\<rparr>))(a := None)\<rparr>))))
          else if length (i_arr r) \<le> i_len r then Inl (UB OutOfBounds)
          else Inr (Some a, h\<lparr>iarrs := (iarrs h)
                 (a \<mapsto> r\<lparr>i_arr := (i_arr r)[i_len r := x], i_len := i_len r + 1\<rparr>)\<rparr>)))"

text \<open>\<open>cmon_int_array_print\<close>: the elements printed, one line each.\<close>

definition print_pid :: "int \<Rightarrow> byte list" where
  "print_pid i = ''pid: '' @ show_int i @ [LF]"

definition cmon_int_array_print :: "nat option \<Rightarrow> 'z iheap_scheme \<Rightarrow> byte list res" where
  "cmon_int_array_print p h = (case p of
      None \<Rightarrow> Inl (UB NullDeref)
    | Some a \<Rightarrow> (case iarrs h a of
        None \<Rightarrow> Inl (UB UseAfterFree)
      | Some r \<Rightarrow> if length (i_arr r) < i_len r then Inl (UB OutOfBounds)
                  else Inr (concat (map print_pid (take (i_len r) (i_arr r))))))"

lemma imem_same [simp]: "imem h = m \<Longrightarrow> h\<lparr>imem := m\<rparr> = h"
  by (cases h) simp

section \<open>The abstract array\<close>

text \<open>A well-formed array in a memory that does not run out, and its elements.\<close>

definition int_arr_ok :: "'z iheap_scheme \<Rightarrow> nat \<Rightarrow> bool" where
  "int_arr_ok h a \<longleftrightarrow> imem h = [] \<and> (\<forall>b \<ge> inext h. iarrs h b = None) \<and>
     (case iarrs h a of None \<Rightarrow> False
      | Some r \<Rightarrow> i_len r \<le> i_size r \<and> length (i_arr r) = i_size r)"

definition ints :: "'z iheap_scheme \<Rightarrow> nat \<Rightarrow> int list" where
  "ints h a = (case iarrs h a of None \<Rightarrow> [] | Some r \<Rightarrow> take (i_len r) (i_arr r))"

lemma int_arr_new_ok:
  assumes "\<forall>b \<ge> inext h. iarrs h b = None" "imem h = []" "0 < n"
  shows "\<exists>h1. cmon_int_arr_new n h = (Some (inext h), h1) \<and> int_arr_ok h1 (inext h) \<and>
     ints h1 (inext h) = []"
  using assms by (auto simp: cmon_int_arr_new_def int_arr_ok_def ints_def)

lemma int_arr_add_room:
  assumes "int_arr_ok h a" "length (ints h a) < 5000"
  shows "\<exists>b h1. cmon_int_arr_add (Some a) x h = Inr (Some b, h1) \<and> int_arr_ok h1 b \<and>
     ints h1 b = ints h a @ [x]"
proof -
  obtain r where r: "iarrs h a = Some r" "i_len r \<le> i_size r" "length (i_arr r) = i_size r"
    "\<forall>b \<ge> inext h. iarrs h b = None" "imem h = []"
    using assms(1) by (auto simp: int_arr_ok_def split: option.splits)
  have len: "i_len r < 5000" using assms(2) r by (simp add: ints_def)
  show ?thesis
  proof (cases "i_size r < i_len r + 1")
    case True
    have ne: "a \<noteq> inext h" using r(1,4) by auto
    have sz: "i_size r = i_len r" using r(2) True by simp
    show ?thesis
      using r True len ne sz
      by (simp add: cmon_int_arr_add_def cmon_int_arr_new_def MAX_INT_ARRAY_SIZE_def
          MEMORY_INCREMENT_def int_arr_ok_def ints_def blit_def)
  next
    case False
    then show ?thesis
      using r len
      by (auto simp: cmon_int_arr_add_def MAX_INT_ARRAY_SIZE_def int_arr_ok_def ints_def
          take_Suc_conv_app_nth)
  qed
qed

lemma int_arr_add_full:
  assumes "int_arr_ok h a" "5000 \<le> length (ints h a)"
  shows "cmon_int_arr_add (Some a) x h = Inr (None, h)"
  using assms
  by (auto simp: cmon_int_arr_add_def MAX_INT_ARRAY_SIZE_def int_arr_ok_def ints_def
      split: option.splits)

definition add_int :: "int \<Rightarrow> nat \<times> iheap \<Rightarrow> (nat \<times> iheap) option" where
  "add_int x s = (case cmon_int_arr_add (Some (fst s)) x (snd s) of
      Inr (Some b, h) \<Rightarrow> Some (b, h) | _ \<Rightarrow> None)"

interpretation intarr: bounded_seq add_int "\<lambda>(a, h). ints h a" MAX_INT_ARRAY_SIZE
  "\<lambda>(a, h). int_arr_ok h a"
proof (unfold_locales, goal_cases)
  case (1 s e)
  then show ?case using int_arr_add_room [of "snd s" "fst s" e]
    by (auto simp: add_int_def MAX_INT_ARRAY_SIZE_def split: prod.splits)
next
  case (2 s e)
  then show ?case using int_arr_add_full [of "snd s" "fst s" e]
    by (auto simp: add_int_def MAX_INT_ARRAY_SIZE_def split: prod.splits)
qed

text \<open>A sequence of additions that all fit, as the program makes them: each to the array returned.\<close>

fun add_ints :: "int list \<Rightarrow> nat option \<Rightarrow> 'z iheap_scheme \<Rightarrow> (nat option \<times> 'z iheap_scheme) res" where
  "add_ints [] p h = Inr (p, h)"
| "add_ints (x # xs) p h = bindE (cmon_int_arr_add p x h) (\<lambda>(q, h1). add_ints xs q h1)"

lemma add_ints_fit:
  assumes "int_arr_ok h a" "length (ints h a) + length xs \<le> 5000"
  shows "\<exists>b h1. add_ints xs (Some a) h = Inr (Some b, h1) \<and> int_arr_ok h1 b \<and> ints h1 b = ints h a @ xs"
  using assms
proof (induction xs arbitrary: a h)
  case (Cons x xs)
  then obtain b h1 where "cmon_int_arr_add (Some a) x h = Inr (Some b, h1)" "int_arr_ok h1 b"
    "ints h1 b = ints h a @ [x]" using int_arr_add_room [of h a x] by auto
  with Cons.IH [of h1 b] Cons.prems show ?case by simp
qed simp

lemma add_ints_None: "add_ints xs None h = Inr (None, h)"
  by (induction xs) (simp_all add: cmon_int_arr_add_def)

section \<open>Properties\<close>

text \<open>
  Adding integers one after the other, each to the array the last addition returned, keeps the
  array well formed and appends them in order, growing as needed, up to 5000 elements; the next
  one is refused with \<open>NULL\<close>, and from then on every addition is.
\<close>

theorem cmon_int_arr_add_sequence:
  assumes "int_arr_ok h a" "ints h a = []" "length xs \<le> 5000"
  shows "\<exists>b h1. add_ints xs (Some a) h = Inr (Some b, h1) \<and> int_arr_ok h1 b \<and> ints h1 b = xs \<and>
     (length xs = 5000 \<longrightarrow> add_ints (y # ys) (Some b) h1 = Inr (None, h1))"
  using add_ints_fit [OF assms(1), of xs] assms(2,3)
  by (auto simp: int_arr_add_full add_ints_None)

theorem cmon_int_arr_add_sequence_witness:
  "\<exists>b h1. add_ints [7, 8, 9] (Some 0)
       \<lparr>iarrs = [0 \<mapsto> \<lparr>i_len = 0, i_size = 2, i_arr = [0, 0]\<rparr>], inext = 3, imem = []\<rparr> = Inr (Some b, h1) \<and>
     ints h1 b = [7, 8, 9]"
  using cmon_int_arr_add_sequence
      [of "\<lparr>iarrs = [0 \<mapsto> \<lparr>i_len = 0, i_size = 2, i_arr = [0, 0]\<rparr>], inext = 3, imem = []\<rparr>" 0 "[7, 8, 9]"]
  by (simp add: int_arr_ok_def ints_def del: add_ints.simps) auto

end
