(* ===== verification/Stepper.thy ===== *)
theory Stepper
  imports Cmon_Prelude
begin

text \<open>
  The interface of a loop that handles its inputs one by one: characters by the tokenizer and by
  the reader of process numbers, additions to an array, turns of the main loop. Whether the
  inputs come in one piece or in several does not matter to it, and what every step keeps the loop
  keeps.
\<close>

locale stepper =
  fixes step :: "'c \<Rightarrow> 's \<Rightarrow> 's res"
    and run :: "'c list \<Rightarrow> 's \<Rightarrow> 's res"
  assumes run_Nil: "run [] s = Inr s"
    and run_Cons: "run (c # cs) s = bindE (step c s) (run cs)"
begin

lemma run_append: "run (a @ b) s = bindE (run a s) (run b)"
proof (induction a arbitrary: s)
  case (Cons c a)
  then show ?case by (cases "step c s") (simp_all add: run_Cons)
qed (simp add: run_Nil)

lemma run_concat: "run (concat cs) s = foldl (\<lambda>m c. bindE m (run c)) (Inr s) cs"
proof (induction cs rule: rev_induct)
  case (snoc c cs)
  then show ?case by (simp add: run_append)
qed (simp add: run_Nil)

lemma run_keeps:
  assumes "\<And>c s t. P s \<Longrightarrow> step c s = Inr t \<Longrightarrow> P t" "P s" "run cs s = Inr t"
  shows "P t"
  using assms(2,3)
proof (induction cs arbitrary: s)
  case (Cons c cs)
  from Cons.prems(2) obtain u where u: "step c s = Inr u" "run cs u = Inr t"
    by (auto simp: run_Cons bindE_eq_Inr)
  have "P u" using assms(1) [OF Cons.prems(1) u(1)] .
  then show ?case using Cons.IH [OF _ u(2)] by simp
qed (simp add: run_Nil)

text \<open>A step that stops the loop stops it whatever follows.\<close>

lemma run_stops: "run a s = Inl e \<Longrightarrow> run (a @ b) s = Inl e"
  by (simp add: run_append)

end

end
