(* ===== verification/Cmon_Errors.thy ===== *)
theory Cmon_Errors
  imports Cmon_Prelude
begin

text \<open>
  \<open>src/src/lib/utils/cmon_errors.c\<close> and \<open>cmon_print.c\<close>: messages for the user. What is printed is the
  list of bytes that reaches the terminal; the log is the content of its file, if it is open. The
  text of an error number is an argument.
\<close>

section \<open>Operations\<close>

text \<open>\<open>cmon_log\<close>: the return code and the stream afterwards; \<open>open_ok\<close> is the answer of \<open>fopen\<close>.\<close>

definition cmon_log ::
    "bool \<Rightarrow> bool \<Rightarrow> byte list \<Rightarrow> byte list \<Rightarrow> byte list \<Rightarrow> byte list option \<Rightarrow> int \<times> byte list option" where
  "cmon_log cmonAlowLog open_ok status functionName msg cmonLogF =
     (if cmonAlowLog then
        (case cmonLogF of
           None \<Rightarrow>
             if \<not> open_ok then (- 1, None)
             else (0, Some (''['' @ status @ '']: from fucntion '' @ functionName @ '': '' @ msg @ [LF]))
         | Some f \<Rightarrow> (- 2, Some f))
      else (- 2, cmonLogF))"

definition cmon_print_error ::
    "bool \<Rightarrow> bool \<Rightarrow> bool \<Rightarrow> byte list \<Rightarrow> byte list \<Rightarrow> byte list option \<Rightarrow> int \<times> byte list \<times> byte list option" where
  "cmon_print_error allow open_ok log functionName msg cmonLogF =
     (0, ''Cmon ERROR on function '' @ functionName @ '': '' @ msg @ [LF],
      if log then snd (cmon_log allow open_ok ''ERROR'' functionName msg cmonLogF) else cmonLogF)"

definition cmon_print_errno_error ::
    "bool \<Rightarrow> bool \<Rightarrow> bool \<Rightarrow> byte list \<Rightarrow> byte list \<Rightarrow> byte list \<Rightarrow> byte list option \<Rightarrow>
     int \<times> byte list \<times> byte list option" where
  "cmon_print_errno_error allow open_ok log functionName err_text msg cmonLogF =
     (0, ''Cmon ERROR on function '' @ functionName @ '': '' @ msg @ '': errno: '' @ err_text @ [LF],
      if log then snd (cmon_log allow open_ok ''ERROR'' functionName msg cmonLogF) else cmonLogF)"

definition cmon_print_msg_to_user :: "byte list \<Rightarrow> byte list" where
  "cmon_print_msg_to_user msg =
     CHR 0x1B # ''[38;5;123m'' @ msg @ CHR 0x1B # ''[39m'' @ [LF]"

section \<open>Facts\<close>

text \<open>Only the first message is ever written to the log: with the file open the code skips the write.\<close>

fun print_errors :: "bool \<Rightarrow> (byte list \<times> byte list) list \<Rightarrow> byte list option \<Rightarrow> byte list option" where
  "print_errors open_ok [] f = f"
| "print_errors open_ok ((fn, msg) # es) f =
     print_errors open_ok es (snd (snd (cmon_print_error True open_ok True fn msg f)))"

lemma print_errors_open: "print_errors open_ok es (Some f) = Some f"
  by (induction es) (auto simp: cmon_print_error_def cmon_log_def)

lemma print_errors_first_only:
  "print_errors True ((fn, msg) # es) None = Some (''[ERROR]: from fucntion '' @ fn @ '': '' @ msg @ [LF])"
  by (simp add: cmon_print_error_def cmon_log_def print_errors_open)

end
