(* ===== verification/Ps_Tree.thy ===== *)
theory Ps_Tree
  imports C_Int_Array Posix_Io Stepper Cmon_Errors
begin

text \<open>
  \<open>src/src/lib/ps_tree/ps_tree.c\<close>: the process identifiers in the output of \<open>pstree\<close>. The pipe is
  the script of what arrives on its read end; what \<open>pipe\<close>, \<open>fork\<close>, \<open>execlp\<close> and \<open>waitpid\<close>
  answer are arguments. The digits of a number are collected in an array of ten bytes that
  survives from one read to the next. The child of \<open>ps_tree_exec\<close> is a copy of the program: when it
  cannot become \<open>pstree\<close> it returns into the same code, and that is followed too.
\<close>

section \<open>Reading the pipe\<close>

record pid_reader =
  pid_buff :: "byte list"
  pid_array :: "nat option"
  pid_heap :: iheap

definition atoi_digits :: "byte list \<Rightarrow> int" where
  "atoi_digits ds = int (dec_value ds)"

definition pid_char :: "byte \<Rightarrow> pid_reader \<Rightarrow> pid_reader res" where
  "pid_char c st =
     (if char_is_numeric c \<noteq> 0 then
        (if 10 \<le> length (pid_buff st) then Inl (UB OutOfBounds)
         else Inr (st\<lparr>pid_buff := pid_buff st @ [c]\<rparr>))
      else if pid_buff st \<noteq> [] then
        (if 10 \<le> length (pid_buff st) then Inl (UB OutOfBounds)
         else bindE (cmon_int_arr_add (pid_array st) (atoi_digits (pid_buff st)) (pid_heap st)) (\<lambda>(p, h).
              Inr \<lparr>pid_buff = [], pid_array = p, pid_heap = h\<rparr>))
      else Inr st)"

fun pid_chars :: "byte list \<Rightarrow> pid_reader \<Rightarrow> pid_reader res" where
  "pid_chars [] st = Inr st"
| "pid_chars (c # cs) st = bindE (pid_char c st) (pid_chars cs)"

text \<open>A failed read returns -1, which is not 0: the NUL goes to the byte before the buffer.\<close>

function pids_loop :: "in_event list \<Rightarrow> pid_reader \<Rightarrow> pid_reader res" where
  "pids_loop es st = (case take_in 1023 es of
      (None, es1) \<Rightarrow> Inl (UB OutOfBounds)
    | (Some bs, es1) \<Rightarrow>
        if bs = [] then Inr st
        else bindE (pid_chars bs st) (pids_loop es1))"
  by pat_completeness auto
termination
  by (relation "measure (\<lambda>(es, st). in_size es)")
    (simp, simp only: in_measure split_conv, rule take_in_progress, erule sym, assumption)

declare pids_loop.simps [simp del]

definition ps_tree_get_pids_from_pipe ::
    "in_event list \<Rightarrow> nat option \<Rightarrow> iheap \<Rightarrow> (nat option \<times> iheap) res" where
  "ps_tree_get_pids_from_pipe es p h =
     bindE (pids_loop es \<lparr>pid_buff = [], pid_array = p, pid_heap = h\<rparr>) (\<lambda>st.
       Inr (pid_array st, pid_heap st))"

section \<open>Running pstree\<close>

text \<open>
  How the child ends: as another program, or back in the caller with a return value and with the
  read end of the pipe closed or not. Its standard output is then the pipe.
\<close>

datatype child_end = Becomes "byte list list" | Continues int bool

definition ps_tree_exec_child :: "int \<Rightarrow> bool \<Rightarrow> child_end res" where
  "ps_tree_exec_child childPid exec_ok =
     (if childPid > 100000000 then Inr (Continues 1 False)
      else if 10 < length (show_int childPid) + 1 then Inl (UB OutOfBounds)
      else if exec_ok then Inr (Becomes [''pstree'', ''-p'', ''-n'', show_int childPid])
      else Inr (Continues 1 True))"

text \<open>The parent's side: what is returned, and whether the write end of the pipe was closed.\<close>

definition ps_tree_exec :: "int \<Rightarrow> int \<times> bool" where
  "ps_tree_exec fork_rc = (if fork_rc = - 1 then (1, False) else (fork_rc, True))"

text \<open>
  The wait for the child. A \<open>waitpid\<close> that fails leaves the status as it was: at first it was never
  set (\<open>known\<close>).
\<close>

datatype wait_status = Exited int | Signaled int | Other_Status | Wait_Failed

fun wait_loop :: "bool \<Rightarrow> wait_status list \<Rightarrow> unit res" where
  "wait_loop known [] = Inl Diverge"
| "wait_loop known (Exited n # ws) = Inr ()"
| "wait_loop known (Signaled n # ws) = Inr ()"
| "wait_loop known (Other_Status # ws) = wait_loop True ws"
| "wait_loop known (Wait_Failed # ws) = (if known then wait_loop known ws else Inl (UB Uninitialised))"

text \<open>
  The descriptors of a pipe that could not be made are used all the same. A pipe whose write end
  this process keeps open never ends: the read waits forever.
\<close>

record ps_env =
  pipe_ok :: bool
  ps_fork :: int
  ps_out :: "in_event list"
  ps_wait :: "wait_status list"

definition ps_tree_get_pid_arr :: "int \<Rightarrow> ps_env \<Rightarrow> iheap \<Rightarrow> (nat option \<times> iheap) res" where
  "ps_tree_get_pid_arr childPid env h = (case cmon_int_arr_new 50 h of (p, h1) \<Rightarrow>
     if \<not> pipe_ok env then Inl (UB Uninitialised)
     else (case ps_tree_exec (ps_fork env) of (proc_pid, write_closed) \<Rightarrow>
       if \<not> write_closed then Inl Diverge
       else bindE (ps_tree_get_pids_from_pipe (ps_out env) p h1) (\<lambda>r.
            bindE (wait_loop False (ps_wait env)) (\<lambda>_. Inr r))))"

text \<open>
  The child in the same function, with its copy of the array: it becomes \<open>pstree\<close>, or it reads the
  pipe itself. With the read end closed the read fails; with both ends open it waits for itself.
\<close>

definition ps_tree_get_pid_arr_child :: "int \<Rightarrow> bool \<Rightarrow> iheap \<Rightarrow> byte list list res" where
  "ps_tree_get_pid_arr_child childPid exec_ok h = (case cmon_int_arr_new 50 h of (p, h1) \<Rightarrow>
     bindE (ps_tree_exec_child childPid exec_ok) (\<lambda>e. case e of
         Becomes args \<Rightarrow> Inr args
       | Continues rc read_closed \<Rightarrow>
           if read_closed
           then bindE (ps_tree_get_pids_from_pipe [In_Err] p h1) (\<lambda>r. bindE (wait_loop False [Wait_Failed]) (\<lambda>_. Inr []))
           else Inl Diverge))"

section \<open>Pieces do not matter\<close>

interpretation digits: stepper pid_char pid_chars
  by unfold_locales simp_all

lemma pids_loop_stream: "In_Err \<notin> set es \<Longrightarrow> pids_loop es st = pid_chars (stream es) st"
proof (induction es st rule: pids_loop.induct)
  case (1 es st)
  obtain r es1 where t: "take_in 1023 es = (r, es1)" by (cases "take_in 1023 es")
  then obtain bs where r: "r = Some bs" "In_Err \<notin> set es1" using take_in_errors "1.prems" by blast
  show ?case
  proof (cases "bs = []")
    case True
    then show ?thesis using t r take_in_end [of 1023 es es1] by (simp add: pids_loop.simps)
  next
    case False
    have "stream es = bs @ stream es1" using t r take_in_stream by blast
    moreover have "bindE (pid_chars bs st) (pids_loop es1) = bindE (pid_chars bs st) (pid_chars (stream es1))"
      using "1.IH" [OF t [symmetric] r(1) False _ r(2)] by (cases "pid_chars bs st") simp_all
    ultimately show ?thesis using t r False by (simp add: pids_loop.simps [of es] digits.run_append)
  qed
qed

section \<open>The numbers of a text\<close>

text \<open>The runs of digits that something else follows, \<open>b\<close> being the digits already read.\<close>

fun run_pids :: "byte list \<Rightarrow> byte list \<Rightarrow> int list" where
  "run_pids b [] = []"
| "run_pids b (c # s) =
     (if is_digit c then run_pids (b @ [c]) s
      else if b = [] then run_pids [] s
      else atoi_digits b # run_pids [] s)"

fun open_run :: "byte list \<Rightarrow> byte list \<Rightarrow> byte list" where
  "open_run b [] = b"
| "open_run b (c # s) = open_run (if is_digit c then b @ [c] else []) s"

fun runs_short :: "byte list \<Rightarrow> byte list \<Rightarrow> bool" where
  "runs_short b [] \<longleftrightarrow> True"
| "runs_short b (c # s) \<longleftrightarrow> (if is_digit c then length b < 9 \<and> runs_short (b @ [c]) s else runs_short [] s)"

lemma pid_chars_runs:
  assumes "runs_short b s" "length b \<le> 9"
  shows "pid_chars s \<lparr>pid_buff = b, pid_array = p, pid_heap = h\<rparr> =
     bindE (add_ints (run_pids b s) p h) (\<lambda>(q, h1).
       Inr \<lparr>pid_buff = open_run b s, pid_array = q, pid_heap = h1\<rparr>)"
  using assms
proof (induction s arbitrary: b p h)
  case (Cons c s)
  show ?case
  proof (cases "is_digit c")
    case True
    then have "char_is_numeric c \<noteq> 0" using char_is_numeric_iff by blast
    with True Cons show ?thesis by (simp add: pid_char_def)
  next
    case False
    then have n: "char_is_numeric c = 0" using char_is_numeric_iff by blast
    have IH: "pid_chars s \<lparr>pid_buff = [], pid_array = q, pid_heap = h1\<rparr> =
        bindE (add_ints (run_pids [] s) q h1) (\<lambda>(q, h1).
          Inr \<lparr>pid_buff = open_run [] s, pid_array = q, pid_heap = h1\<rparr>)" for q h1
      using Cons False by simp
    show ?thesis
    proof (cases "b = []")
      case True
      with False n IH [of p h] show ?thesis by (simp add: pid_char_def)
    next
      case ne: False
      with False n IH Cons.prems(2) show ?thesis
        by (cases "cmon_int_arr_add p (atoi_digits b) h") (simp_all add: pid_char_def split_def)
    qed
  qed
qed simp

lemma pids_from_pipe_runs:
  assumes "In_Err \<notin> set es" "runs_short [] (stream es)"
  shows "ps_tree_get_pids_from_pipe es p h = add_ints (run_pids [] (stream es)) p h"
  using assms
  by (cases "add_ints (run_pids [] (stream es)) p h")
    (simp_all add: ps_tree_get_pids_from_pipe_def pids_loop_stream pid_chars_runs split_def)

section \<open>The output of pstree\<close>

text \<open>
  One process: what stands before its number (its name and the lines of the tree), and the number
  in parentheses.
\<close>

definition render_proc :: "byte list \<times> nat \<Rightarrow> byte list" where
  "render_proc p = fst p @ ''('' @ show_dec (snd p) @ '')''"

definition proc_ok :: "byte list \<times> nat \<Rightarrow> bool" where
  "proc_ok p \<longleftrightarrow> runs_short [] (fst p @ ''('') \<and> snd p < 10 ^ 9"

text \<open>The numbers that one process gives: the runs of digits of its name, then its own.\<close>

definition proc_numbers :: "byte list \<times> nat \<Rightarrow> int list" where
  "proc_numbers p = run_pids [] (fst p @ ''('') @ [int (snd p)]"

lemma not_digit_marks [simp]: "\<not> is_digit CHR ''(''" "\<not> is_digit CHR '')''"
  by code_simp+

lemma run_pids_digits:
  "\<forall>c\<in>set ds. is_digit c \<Longrightarrow> run_pids b (ds @ s) = run_pids (b @ ds) s"
  by (induction ds arbitrary: b) simp_all

lemma runs_short_digits:
  "\<forall>c\<in>set ds. is_digit c \<Longrightarrow> length b + length ds \<le> 9 \<Longrightarrow> runs_short b (ds @ s) = runs_short (b @ ds) s"
  by (induction ds arbitrary: b) simp_all

lemma runs_name:
  "run_pids b ((n @ ''('') @ s) = run_pids b (n @ ''('') @ run_pids [] s"
  "runs_short b ((n @ ''('') @ s) \<longleftrightarrow> runs_short b (n @ ''('') \<and> runs_short [] s"
  by (induction n arbitrary: b) auto

lemma runs_proc:
  assumes "proc_ok p"
  shows "run_pids [] (render_proc p @ s) = proc_numbers p @ run_pids [] s"
    "runs_short [] (render_proc p @ s) \<longleftrightarrow> runs_short [] s"
proof -
  have d: "\<forall>c\<in>set (show_dec (snd p)). is_digit c" using show_dec_digits by blast
  have l: "length (show_dec (snd p)) \<le> 9" using assms length_show_dec [of "snd p" 9] by (simp add: proc_ok_def)
  have r: "render_proc p @ s = (fst p @ ''('') @ show_dec (snd p) @ '')'' @ s"
    by (simp add: render_proc_def)
  show "run_pids [] (render_proc p @ s) = proc_numbers p @ run_pids [] s"
    using d by (simp only: r runs_name) (simp add: run_pids_digits proc_numbers_def atoi_digits_def)
  show "runs_short [] (render_proc p @ s) \<longleftrightarrow> runs_short [] s"
    using d l assms by (simp only: r runs_name) (simp add: runs_short_digits proc_ok_def)
qed

lemma runs_procs:
  assumes "\<forall>p\<in>set ps. proc_ok p"
  shows "run_pids [] (concat (map render_proc ps) @ [LF]) = concat (map proc_numbers ps) \<and>
     runs_short [] (concat (map render_proc ps) @ [LF])"
  using assms by (induction ps) (simp_all add: runs_proc)

lemma run_pids_no_digits: "\<forall>c\<in>set s. \<not> is_digit c \<Longrightarrow> run_pids [] s = []"
  by (induction s) simp_all

lemma runs_short_no_digits: "\<forall>c\<in>set s. \<not> is_digit c \<Longrightarrow> runs_short [] s"
  by (induction s) simp_all

lemma pid_arr_of_procs:
  assumes "\<forall>p\<in>set ps. proc_ok p" "length (concat (map proc_numbers ps)) \<le> 5000"
    "pipe_ok env" "ps_fork env \<noteq> - 1" "In_Err \<notin> set (ps_out env)"
    "stream (ps_out env) = concat (map render_proc ps) @ [LF]"
    "wait_loop False (ps_wait env) = Inr ()" "\<forall>b \<ge> inext h. iarrs h b = None" "imem h = []"
  shows "\<exists>a h1. ps_tree_get_pid_arr pid env h = Inr (Some a, h1) \<and> int_arr_ok h1 a \<and>
     ints h1 a = concat (map proc_numbers ps)"
proof -
  obtain h0 where h0: "cmon_int_arr_new 50 h = (Some (inext h), h0)" "int_arr_ok h0 (inext h)"
    "ints h0 (inext h) = []"
    using int_arr_new_ok [OF assms(8,9), of 50] by auto
  have runs: "run_pids [] (stream (ps_out env)) = concat (map proc_numbers ps)" "runs_short [] (stream (ps_out env))"
    using runs_procs [OF assms(1)] assms(6) by simp_all
  obtain a h1 where "add_ints (concat (map proc_numbers ps)) (Some (inext h)) h0 = Inr (Some a, h1)"
    "int_arr_ok h1 a" "ints h1 a = concat (map proc_numbers ps)"
    using add_ints_fit [OF h0(2), of "concat (map proc_numbers ps)"] assms(2) h0(3) by auto
  then show ?thesis
    using h0(1) assms(3,4,7) pids_from_pipe_runs [OF assms(5) runs(2)] runs(1)
    by (simp add: ps_tree_get_pid_arr_def ps_tree_exec_def)
qed

text \<open>An output without digits leaves the new array empty.\<close>

lemma pid_arr_of_no_digits:
  assumes "\<forall>c\<in>set (stream (ps_out env)). \<not> is_digit c"
    "pipe_ok env" "ps_fork env \<noteq> - 1" "In_Err \<notin> set (ps_out env)"
    "wait_loop False (ps_wait env) = Inr ()" "\<forall>b \<ge> inext h. iarrs h b = None" "imem h = []"
  shows "\<exists>a h1. ps_tree_get_pid_arr pid env h = Inr (Some a, h1) \<and> int_arr_ok h1 a \<and> ints h1 a = []"
proof -
  obtain h0 where "cmon_int_arr_new 50 h = (Some (inext h), h0)" "int_arr_ok h0 (inext h)" "ints h0 (inext h) = []"
    using int_arr_new_ok [OF assms(6,7), of 50] by auto
  then show ?thesis
    using assms(2,3,5) pids_from_pipe_runs [OF assms(4) runs_short_no_digits [OF assms(1)]]
      run_pids_no_digits [OF assms(1)]
    by (simp add: ps_tree_get_pid_arr_def ps_tree_exec_def)
qed

text \<open>The child that cannot become \<open>pstree\<close> reads the end of the pipe it has just closed.\<close>

lemma child_without_pstree:
  assumes "0 < pid" "pid \<le> 100000000"
  shows "ps_tree_get_pid_arr_child pid False h = Inl (UB OutOfBounds)"
proof -
  have "length (show_int pid) \<le> 9"
    using assms length_show_dec [of "nat pid" 9] by (simp add: show_int_def)
  moreover have "pids_loop [In_Err] st = Inl (UB OutOfBounds)" for st by (simp add: pids_loop.simps)
  ultimately show ?thesis
    using assms(2)
    by (simp add: ps_tree_get_pid_arr_child_def ps_tree_exec_child_def ps_tree_get_pids_from_pipe_def split_def)
qed

section \<open>Properties\<close>

text \<open>
  C12. However the pipe cuts the output of \<open>pstree\<close> into pieces, the array gets the number of every
  process, in the order of the output. Names without digits add nothing; every run of digits in a
  name is taken for a process as well, in front of the number of its owner.
\<close>

theorem ps_tree_get_pid_arr_reads_pstree:
  assumes "\<forall>p\<in>set ps. proc_ok p" "length (concat (map proc_numbers ps)) \<le> 5000"
    "pipe_ok env" "ps_fork env \<noteq> - 1" "In_Err \<notin> set (ps_out env)"
    "stream (ps_out env) = concat (map render_proc ps) @ [LF]"
    "wait_loop False (ps_wait env) = Inr ()" "\<forall>b \<ge> inext h. iarrs h b = None" "imem h = []"
  shows "\<exists>a h1. ps_tree_get_pid_arr pid env h = Inr (Some a, h1) \<and>
     ints h1 a = concat (map proc_numbers ps) \<and>
     ((\<forall>p\<in>set ps. \<forall>c\<in>set (fst p). \<not> is_digit c) \<longrightarrow> ints h1 a = map (\<lambda>p. int (snd p)) ps)"
proof -
  have "concat (map proc_numbers qs) = map (\<lambda>p. int (snd p)) qs"
    if "\<forall>p\<in>set qs. \<forall>c\<in>set (fst p). \<not> is_digit c" for qs
    using that by (induction qs) (simp_all add: proc_numbers_def run_pids_no_digits)
  then show ?thesis using pid_arr_of_procs [OF assms] by metis
qed

definition sample_env :: ps_env where
  "sample_env = \<lparr>pipe_ok = True, ps_fork = 77,
     ps_out = [Arrive ''node18(1'', Arrive ''23)---sh(456)'', Arrive [LF]], ps_wait = [Other_Status, Exited 0]\<rparr>"

theorem ps_tree_get_pid_arr_reads_pstree_witness:
  "\<exists>a h1. ps_tree_get_pid_arr 123 sample_env \<lparr>iarrs = (\<lambda>_. None), inext = 0, imem = []\<rparr> = Inr (Some a, h1) \<and>
     ints h1 a = [18, 123, 456]"
proof -
  have "runs_short [] (''node18'' @ ''('')" "runs_short [] (''---sh'' @ ''('')" by code_simp+
  then have ok: "\<forall>p\<in>set [(''node18'', 123), (''---sh'', 456)]. proc_ok p"
    by (simp add: proc_ok_def del: runs_short.simps)
  have nums: "concat (map proc_numbers [(''node18'', 123), (''---sh'', 456)]) = [18, 123, 456]" by code_simp
  have out: "stream (ps_out sample_env) = concat (map render_proc [(''node18'', 123), (''---sh'', 456)]) @ [LF]"
    by code_simp
  have env: "pipe_ok sample_env" "ps_fork sample_env \<noteq> - 1" "In_Err \<notin> set (ps_out sample_env)"
    "wait_loop False (ps_wait sample_env) = Inr ()"
    by (simp_all add: sample_env_def)
  have len: "length (concat (map proc_numbers [(''node18'', 123), (''---sh'', 456)])) \<le> 5000"
    by (simp only: nums) simp
  have "\<forall>b\<ge>inext \<lparr>iarrs = \<lambda>_. None, inext = 0, imem = []\<rparr>. iarrs \<lparr>iarrs = \<lambda>_. None, inext = 0, imem = []\<rparr> b = None"
    "imem \<lparr>iarrs = \<lambda>_. None, inext = 0, imem = []\<rparr> = []"
    by simp_all
  then show ?thesis
    using ps_tree_get_pid_arr_reads_pstree [OF ok len env(1-3) out env(4),
        of "\<lparr>iarrs = (\<lambda>_. None), inext = 0, imem = []\<rparr>" 123, unfolded nums]
    by blast
qed

text \<open>A run of ten digits leaves the array of ten bytes.\<close>

lemma pid_chars_ten_digits:
  "\<forall>c\<in>set ds. is_digit c \<Longrightarrow> length b + length ds = 10 \<Longrightarrow> length b \<le> 10 \<Longrightarrow>
   pid_chars (ds @ CHR ''('' # s) \<lparr>pid_buff = b, pid_array = p, pid_heap = h\<rparr> = Inl (UB OutOfBounds)"
proof (induction ds arbitrary: b)
  case Nil
  then have "char_is_numeric (CHR ''('') = 0" "b \<noteq> []" using char_is_numeric_iff [of "CHR ''(''"] by auto
  with Nil show ?case by (simp add: pid_char_def)
next
  case (Cons d ds)
  then have "char_is_numeric d \<noteq> 0" using char_is_numeric_iff by auto
  with Cons show ?case by (simp add: pid_char_def)
qed

end
