(* ===== verification/C_Utils_String.thy ===== *)
theory C_Utils_String
  imports Cmon_Prelude
begin

text \<open>
  \<open>src/src/utils/c_utils_string.c\<close> and \<open>src/src/lib/utils/cmon_str_utils.c\<close>: the immutable
  strings with a length. From here on the model is one of values: a C string is the list of bytes
  the pointer can read (it ends with a NUL, or the read runs out of bounds), a \<open>CmonString\<close> is
  its size and the bytes of its block, and the answers of the allocator are a script that every
  operation returns with its result. The size of a new string is the
  sum of the lengths of its parts as \<open>_char_arr_len\<close> counts them, which gives up (with 0) on a
  part that is longer than 257 bytes; the copy does not.
\<close>

record CmonString =
  s_size :: nat
  s_string :: "byte list"

definition MAX_AMOUNT_OF_STRINGS :: nat where
  "MAX_AMOUNT_OF_STRINGS = 50"

section \<open>Operations\<close>

fun char_arr_len_loop :: "byte list \<Rightarrow> nat \<Rightarrow> nat res" where
  "char_arr_len_loop [] len = Inl (UB OutOfBounds)"
| "char_arr_len_loop (c # cs) len =
     (if c = NUL then Inr len
      else if len > 256 then Inr 0
      else char_arr_len_loop cs (Suc len))"

definition char_arr_len :: "byte list \<Rightarrow> nat res" where
  "char_arr_len cs = char_arr_len_loop cs 0"

text \<open>The first loop over the arguments: their number is limited, their lengths are added.\<close>

fun args_loop :: "byte list list \<Rightarrow> nat \<Rightarrow> nat \<Rightarrow> nat option res" where
  "args_loop [] nArgs sz = Inr (Some sz)"
| "args_loop (a # as) nArgs sz =
     (if nArgs \<ge> MAX_AMOUNT_OF_STRINGS then Inr None
      else bindE (char_arr_len a) (\<lambda>l. args_loop as (Suc nArgs) (sz + l)))"

text \<open>The copy of one argument behind the bytes already written into a block of \<open>room\<close> bytes.\<close>

fun copy_arg :: "nat \<Rightarrow> byte list \<Rightarrow> byte list \<Rightarrow> byte list res" where
  "copy_arg room out [] = Inl (UB OutOfBounds)"
| "copy_arg room out (c # cs) =
     (if c = NUL then Inr out
      else if length out < room then copy_arg room (out @ [c]) cs
      else Inl (UB OutOfBounds))"

fun copy_args :: "nat \<Rightarrow> byte list \<Rightarrow> byte list list \<Rightarrow> byte list res" where
  "copy_args room out [] =
     (if length out < room then Inr (out @ [NUL]) else Inl (UB OutOfBounds))"
| "copy_args room out (a # as) = bindE (copy_arg room out a) (\<lambda>out1. copy_args room out1 as)"

text \<open>A string takes two blocks, the structure and its bytes; the first is lost when the second fails.\<close>

definition cmon_str_new_from_char_arrs ::
    "byte list option \<Rightarrow> byte list list \<Rightarrow> memory \<Rightarrow> (CmonString option \<times> memory) res" where
  "cmon_str_new_from_char_arrs charArr args m = (case charArr of
      None \<Rightarrow> Inr (None, m)
    | Some a \<Rightarrow>
        bindE (char_arr_len a) (\<lambda>l.
        bindE (args_loop args 1 l) (\<lambda>sz. (case sz of
          None \<Rightarrow> Inr (None, m)
        | Some charBlockSize \<Rightarrow>
            try_alloc m (\<lambda>m1. Inr (None, m1)) (\<lambda>m1.
            try_alloc m1 (\<lambda>m2. Inr (None, m2)) (\<lambda>m2.
            bindE (copy_args (charBlockSize + 1) [] (a # args)) (\<lambda>out.
            Inr (Some \<lparr>s_size = charBlockSize, s_string = out\<rparr>, m2))))))))"

definition cmon_str_new :: "byte list option \<Rightarrow> memory \<Rightarrow> (CmonString option \<times> memory) res" where
  "cmon_str_new charArr m = cmon_str_new_from_char_arrs charArr [] m"

definition cmon_str_copy :: "CmonString option \<Rightarrow> memory \<Rightarrow> (CmonString option \<times> memory) res" where
  "cmon_str_copy str m = (case str of None \<Rightarrow> Inr (None, m) | Some s \<Rightarrow> cmon_str_new (Some (s_string s)) m)"

text \<open>The copy into a caller's array of \<open>length buff\<close> bytes, told to have \<open>buffSize\<close>.\<close>

fun copy_to_loop :: "byte list \<Rightarrow> byte list \<Rightarrow> nat \<Rightarrow> byte list res" where
  "copy_to_loop [] buff i = Inl (UB OutOfBounds)"
| "copy_to_loop (c # cs) buff i =
     (if length buff \<le> i then Inl (UB OutOfBounds)
      else if c = NUL then Inr (buff[i := NUL])
      else copy_to_loop cs (buff[i := c]) (Suc i))"

definition cmon_str_copy_to_char_arr ::
    "CmonString option \<Rightarrow> byte list option \<Rightarrow> nat \<Rightarrow> (int \<times> byte list option) res" where
  "cmon_str_copy_to_char_arr str buff buffSize = (case (buff, str) of
      (Some b, Some s) \<Rightarrow>
        if s_size s + 1 > buffSize then Inr (- 1, buff)
        else bindE (copy_to_loop (s_string s) b 0) (\<lambda>b1. Inr (0, Some b1))
    | _ \<Rightarrow> Inr (- 1, buff))"

fun cmp_loop :: "byte list \<Rightarrow> byte list \<Rightarrow> nat \<Rightarrow> bool res" where
  "cmp_loop a b 0 = Inr True"
| "cmp_loop (x # xs) (y # ys) (Suc n) = (if x \<noteq> y then Inr False else cmp_loop xs ys n)"
| "cmp_loop [] b (Suc n) = Inl (UB OutOfBounds)"
| "cmp_loop (x # xs) [] (Suc n) = Inl (UB OutOfBounds)"

definition cmon_str_cmp :: "CmonString option \<Rightarrow> CmonString option \<Rightarrow> bool res" where
  "cmon_str_cmp a b = (case (a, b) of
      (Some s, Some t) \<Rightarrow>
        if s_size s \<noteq> s_size t then Inr False else cmp_loop (s_string s) (s_string t) (s_size s)
    | _ \<Rightarrow> Inr False)"

text \<open>
  \<open>cmon_str_new_from_str\<close> allocates the structure and writes through its \<open>string\<close> field, which
  nothing has set: even for empty strings the final NUL is written there.
\<close>

definition cmon_str_new_from_str ::
    "CmonString option \<Rightarrow> CmonString list \<Rightarrow> memory \<Rightarrow> (CmonString option \<times> memory) res" where
  "cmon_str_new_from_str str args m = (case str of
      None \<Rightarrow> Inr (None, m)
    | Some s \<Rightarrow>
        if length args \<ge> MAX_AMOUNT_OF_STRINGS then Inr (None, m)
        else try_alloc m (\<lambda>m1. Inr (None, m1)) (\<lambda>m1. Inl (UB Uninitialised)))"

text \<open>
  \<open>get_ext_name_from_cmon_string\<close>: what follows the first point that is not the last byte.
\<close>

fun ext_name_loop :: "byte list \<Rightarrow> nat \<Rightarrow> byte list option res" where
  "ext_name_loop cs 0 = Inr None"
| "ext_name_loop [] (Suc n) = Inl (UB OutOfBounds)"
| "ext_name_loop (c # cs) (Suc n) =
     (if c = CHR ''.'' \<and> 0 < n then Inr (Some cs) else ext_name_loop cs n)"

definition get_ext_name_from_cmon_string :: "CmonString \<Rightarrow> byte list option res" where
  "get_ext_name_from_cmon_string file_name = ext_name_loop (s_string file_name) (s_size file_name)"

section \<open>Strings as values\<close>

text \<open>A well-formed string, and the C string and the \<open>CmonString\<close> of a list of bytes.\<close>

definition cstring :: "byte list \<Rightarrow> byte list" where
  "cstring s = s @ [NUL]"

definition cmon_string :: "byte list \<Rightarrow> CmonString" where
  "cmon_string s = \<lparr>s_size = length s, s_string = cstring s\<rparr>"

definition text_ok :: "byte list \<Rightarrow> bool" where
  "text_ok s \<longleftrightarrow> NUL \<notin> set s"

named_theorems str_simps \<open>evaluation of the string operations on well-formed strings\<close>

lemma text_ok_simps [simp]:
  "text_ok []" "text_ok (c # s) \<longleftrightarrow> c \<noteq> NUL \<and> text_ok s" "text_ok (s @ t) \<longleftrightarrow> text_ok s \<and> text_ok t"
  by (auto simp: text_ok_def)

lemma char_arr_len_loop_short:
  "text_ok s \<Longrightarrow> n + length s \<le> 257 \<Longrightarrow> char_arr_len_loop (s @ NUL # r) n = Inr (n + length s)"
  by (induction s arbitrary: n) auto

lemma char_arr_len_loop_long:
  "text_ok s \<Longrightarrow> 257 < n + length s \<Longrightarrow> n \<le> 257 \<Longrightarrow> char_arr_len_loop (s @ NUL # r) n = Inr 0"
proof (induction s arbitrary: n)
  case (Cons c s)
  then show ?case by (cases "256 < n") auto
qed simp

lemma char_arr_len_text [str_simps]:
  "text_ok s \<Longrightarrow> char_arr_len (cstring s) = Inr (if length s \<le> 257 then length s else 0)"
  using char_arr_len_loop_short [of s 0 "[]"] char_arr_len_loop_long [of s 0 "[]"]
  by (simp add: char_arr_len_def cstring_def)

lemma copy_arg_fits:
  "text_ok s \<Longrightarrow> length out + length s \<le> room \<Longrightarrow> copy_arg room out (s @ NUL # r) = Inr (out @ s)"
  by (induction s arbitrary: out) auto

lemma copy_arg_overflow:
  "text_ok s \<Longrightarrow> room < length out + length s \<Longrightarrow> length out \<le> room \<Longrightarrow>
   copy_arg room out (s @ NUL # r) = Inl (UB OutOfBounds)"
  by (induction s arbitrary: out) auto

lemma copy_args_fits:
  "\<forall>s\<in>set ss. text_ok s \<Longrightarrow> length out + length (concat ss) < room \<Longrightarrow>
   copy_args room out (map cstring ss) = Inr (out @ concat ss @ [NUL])"
  by (induction ss arbitrary: out) (auto simp: cstring_def copy_arg_fits)

lemma copy_args_overflow:
  "\<forall>s\<in>set ss. text_ok s \<Longrightarrow> room \<le> length out + length (concat ss) \<Longrightarrow> length out \<le> room \<Longrightarrow>
   copy_args room out (map cstring ss) = Inl (UB OutOfBounds)"
proof (induction ss arbitrary: out)
  case (Cons s ss)
  show ?case
  proof (cases "length out + length s \<le> room")
    case True
    with Cons show ?thesis by (simp add: cstring_def copy_arg_fits)
  next
    case False
    with Cons.prems show ?thesis by (simp add: cstring_def copy_arg_overflow)
  qed
qed simp

text \<open>What \<open>_char_arr_len\<close> counts of a part.\<close>

definition counted :: "byte list \<Rightarrow> nat" where
  "counted s = (if length s \<le> 257 then length s else 0)"

lemma args_loop_counts:
  "\<forall>s\<in>set ss. text_ok s \<Longrightarrow> n + length ss \<le> 50 \<Longrightarrow>
   args_loop (map cstring ss) n k = Inr (Some (k + sum_list (map counted ss)))"
  by (induction ss arbitrary: n k)
    (auto simp: MAX_AMOUNT_OF_STRINGS_def char_arr_len_text counted_def)

lemma counted_le: "sum_list (map counted ss) \<le> length (concat ss)"
  by (induction ss) (auto simp: counted_def)

lemma counted_all: "\<forall>s\<in>set ss. length s \<le> 257 \<Longrightarrow> sum_list (map counted ss) = length (concat ss)"
  by (induction ss) (auto simp: counted_def)

lemma counted_less:
  "\<exists>s\<in>set ss. 257 < length s \<Longrightarrow> sum_list (map counted ss) < length (concat ss)"
proof (induction ss)
  case (Cons s ss)
  have "257 < length s \<Longrightarrow> counted s < length s" "counted s \<le> length s" by (auto simp: counted_def)
  with Cons show ?case using counted_le [of ss] by (cases "257 < length s") auto
qed simp

lemma new_from_char_arrs_memory:
  assumes "\<forall>s\<in>set (a # ss). text_ok s \<and> length s \<le> 257" "length ss < 50"
  shows "cmon_str_new_from_char_arrs (Some (cstring a)) (map cstring ss) m =
     try_alloc m (\<lambda>m1. Inr (None, m1)) (\<lambda>m1. try_alloc m1 (\<lambda>m2. Inr (None, m2)) (\<lambda>m2.
       Inr (Some (cmon_string (concat (a # ss))), m2)))"
proof -
  have "sum_list (map counted ss) = length (concat ss)" using assms(1) by (intro counted_all) simp
  then have "args_loop (map cstring ss) 1 (length a) = Inr (Some (length a + length (concat ss)))"
    using args_loop_counts [of ss 1 "length a"] assms by simp
  moreover have "copy_args (length a + length (concat ss) + 1) [] (cstring a # map cstring ss) =
      Inr (cstring (concat (a # ss)))"
    using copy_args_fits [of "a # ss" "[]" "length a + length (concat ss) + 1"] assms(1)
    by (simp add: cstring_def)
  ultimately show ?thesis
    using assms(1) by (simp add: cmon_str_new_from_char_arrs_def char_arr_len_text cmon_string_def)
qed

lemma new_from_char_arrs_text [str_simps]:
  assumes "\<forall>s\<in>set (a # ss). text_ok s \<and> length s \<le> 257" "length ss < 50"
  shows "cmon_str_new_from_char_arrs (Some (cstring a)) (map cstring ss) [] =
     Inr (Some (cmon_string (concat (a # ss))), [])"
  using new_from_char_arrs_memory [OF assms] by simp

lemma cmon_str_new_memory:
  "text_ok s \<Longrightarrow> length s \<le> 257 \<Longrightarrow> cmon_str_new (Some (cstring s)) m =
     try_alloc m (\<lambda>m1. Inr (None, m1)) (\<lambda>m1. try_alloc m1 (\<lambda>m2. Inr (None, m2)) (\<lambda>m2.
       Inr (Some (cmon_string s), m2)))"
  using new_from_char_arrs_memory [of s "[]"] by (simp add: cmon_str_new_def)

lemma cmon_str_new_text [str_simps]:
  "text_ok s \<Longrightarrow> length s \<le> 257 \<Longrightarrow> cmon_str_new (Some (cstring s)) [] = Inr (Some (cmon_string s), [])"
  by (simp add: cmon_str_new_memory)

lemma cmp_loop_equal:
  "length s = n \<Longrightarrow> length t = n \<Longrightarrow> cmp_loop (s @ r) (t @ q) n = Inr (s = t)"
proof (induction n arbitrary: s t)
  case (Suc n)
  then show ?case by (cases s; cases t) auto
qed simp

lemma cmon_str_cmp_text [str_simps]:
  "cmon_str_cmp (Some (cmon_string s)) (Some (cmon_string t)) = Inr (s = t)"
  using cmp_loop_equal [of s "length s" t "[NUL]" "[NUL]"]
  by (auto simp: cmon_str_cmp_def cmon_string_def cstring_def)

lemma new_from_char_arrs_long:
  assumes "\<forall>s\<in>set (a # ss). text_ok s" "\<exists>s\<in>set (a # ss). 257 < length s" "length ss < 50"
  shows "cmon_str_new_from_char_arrs (Some (cstring a)) (map cstring ss) [] = Inl (UB OutOfBounds)"
proof -
  have "sum_list (map counted (a # ss)) < length (concat (a # ss))"
    using counted_less [OF assms(2)] .
  then have "copy_args (counted a + sum_list (map counted ss) + 1) [] (map cstring (a # ss)) =
      Inl (UB OutOfBounds)"
    using assms(1) by (intro copy_args_overflow) auto
  then show ?thesis
    using assms args_loop_counts [of ss 1 "counted a"]
    by (simp add: cmon_str_new_from_char_arrs_def char_arr_len_text counted_def [symmetric]
        del: copy_args.simps)
qed

section \<open>Properties\<close>

text \<open>
  The concatenation of up to 50 C strings of at most 257 bytes each is the string of their
  concatenation when the allocator grants two blocks, and \<open>NULL\<close> when it does not; a copy is equal
  to its original, and comparison decides equality.
\<close>

theorem cmon_str_new_from_char_arrs_concat:
  assumes "\<forall>s\<in>set (a # ss). text_ok s \<and> length s \<le> 257" "length ss < 50"
  shows "(\<exists>m1. cmon_str_new_from_char_arrs (Some (cstring a)) (map cstring ss) m =
       Inr (if grants 2 m then Some (cmon_string (concat (a # ss))) else None, m1)) \<and>
     (\<exists>m1. cmon_str_copy (Some (cmon_string a)) m =
       Inr (if grants 2 m then Some (cmon_string a) else None, m1)) \<and>
     cmon_str_cmp (Some (cmon_string a)) (Some (cmon_string t)) = Inr (a = t)"
proof -
  have "cmon_str_copy (Some (cmon_string a)) m = cmon_str_new (Some (cstring a)) m"
    by (simp add: cmon_str_copy_def cmon_string_def)
  then show ?thesis
    using assms cmon_str_cmp_text [of a t]
    by (auto simp: new_from_char_arrs_memory [OF assms] cmon_str_new_memory numeral_2_eq_2
        split: try_alloc_split)
qed

theorem cmon_str_new_from_char_arrs_concat_witness:
  "\<exists>m1. cmon_str_new_from_char_arrs (Some (cstring ''/home/me'')) (map cstring [''/'', ''.git'']) [True, True, False] =
     Inr (Some (cmon_string ''/home/me/.git''), m1)"
  using cmon_str_new_from_char_arrs_concat [of "''/home/me''" "[''/'', ''.git'']" "[True, True, False]" "[]"]
  by (simp add: NUL_def numeral_2_eq_2)

text \<open>
  A part of more than 257 bytes counts as empty when the block is sized and is copied all the
  same: the copy leaves the block.
\<close>

theorem cmon_str_new_from_char_arrs_overflow:
  assumes "\<forall>s\<in>set (a # ss). text_ok s" "\<exists>s\<in>set (a # ss). 257 < length s" "length ss < 50"
  shows "cmon_str_new_from_char_arrs (Some (cstring a)) (map cstring ss) [] = Inl (UB OutOfBounds)"
  using assms by (rule new_from_char_arrs_long)

theorem cmon_str_new_from_char_arrs_overflow_witness:
  "cmon_str_new_from_char_arrs (Some (cstring (replicate 300 (CHR ''a'')))) (map cstring [''/'']) [] =
     Inl (UB OutOfBounds)"
proof -
  have "text_ok (replicate 300 (CHR ''a''))" by (simp add: text_ok_def NUL_def)
  then show ?thesis
    by (intro cmon_str_new_from_char_arrs_overflow) (simp_all add: NUL_def)
qed

end
