(* ===== verification/Tokenizer.thy ===== *)
theory Tokenizer
  imports Text_Utils C_Utils_String Stepper
begin

text \<open>
  \<open>src/src/lib/parser/tokenizer.c\<close>: the two tokenizers of the configuration file, over an array of
  at most 100 tokens. The file is the list of its bytes; \<open>fgets\<close> hands it out in pieces of at most
  2047 bytes, and a piece is read up to its first NUL. The lexeme is collected in an array of 100
  bytes, and the index into it survives from one piece to the next.
\<close>

section \<open>Tokens\<close>

datatype token_type =
    TEXT | STRING | DOUBLE_COLON | CURLY_BARACKETS | O_CURLY_BARACKET | C_CURLY_BARACKET
  | PARENTHESIS | COLON | NUMBER

text \<open>
  The \<open>value\<close> pointer of a token: \<open>NULL\<close>, a copy of a string, or whatever the memory of the array
  held, which is what an empty string leaves.
\<close>

datatype token_value = No_Value | Value "byte list" | Unset

record Token =
  t_type :: token_type
  t_value :: token_value

text \<open>
  \<open>next_set\<close>: whether \<open>nextPosition\<close> has been initialised. The functions get a pointer to the array,
  \<open>None\<close> when it could not be allocated.
\<close>

record TokenArr =
  tokenList :: "Token list"
  next_set :: bool

definition MAX_LEXEM_LEN :: nat where
  "MAX_LEXEM_LEN = 100"

definition MAX_TOKENS :: nat where
  "MAX_TOKENS = 100"

definition is_valid_special_char :: "byte \<Rightarrow> int" where
  "is_valid_special_char c = (if c = CHR ''.'' \<or> c = CHR ''_'' \<or> c = CHR ''/'' then 1 else 0)"

definition token_arr_new :: "memory \<Rightarrow> TokenArr option \<times> memory" where
  "token_arr_new m = try_alloc m (\<lambda>m1. (None, m1)) (\<lambda>m1. (Some \<lparr>tokenList = [], next_set = True\<rparr>, m1))"

text \<open>
  \<open>_cmon_new_token\<close>: the array after the call; a full array is left as it is. The pointer is used
  before it is checked. A string is copied with \<open>strdup\<close>, whose failure is a \<open>NULL\<close> value.
\<close>

definition cmon_new_token ::
    "token_type \<Rightarrow> byte list option \<Rightarrow> TokenArr option \<Rightarrow> memory \<Rightarrow> (TokenArr option \<times> memory) res" where
  "cmon_new_token ty str arr m = (case arr of
      None \<Rightarrow> Inl (UB NullDeref)
    | Some a \<Rightarrow>
        (let add = (\<lambda>v m1. Inr (Some (a\<lparr>tokenList := tokenList a @ [\<lparr>t_type = ty, t_value = v\<rparr>]\<rparr>), m1)) in
         if length (tokenList a) \<ge> MAX_TOKENS then Inr (arr, m)
         else if \<not> next_set a then Inl (UB Uninitialised)
         else (case str of
             None \<Rightarrow> add No_Value m
           | Some s \<Rightarrow>
               if NUL \<notin> set s then Inl (UB OutOfBounds)
               else if s ! 0 = NUL then add Unset m
               else try_alloc m (add No_Value) (add (Value (c_str s))))))"

text \<open>
  \<open>token_arr_free\<close>: the values are freed one by one; freeing a value that was never set is
  undefined.
\<close>

definition token_arr_free :: "TokenArr option \<Rightarrow> unit res" where
  "token_arr_free arr = (case arr of
      None \<Rightarrow> Inl (UB NullDeref)
    | Some a \<Rightarrow> if \<exists>t\<in>set (tokenList a). t_value t = Unset then Inl (UB Uninitialised) else Inr ())"

fun type_name :: "token_type \<Rightarrow> byte list" where
  "type_name TEXT = ''TEXT''"
| "type_name STRING = ''STRING''"
| "type_name DOUBLE_COLON = ''DOUBLE_COLON''"
| "type_name O_CURLY_BARACKET = ''O_CURLY_BARACKETS''"
| "type_name C_CURLY_BARACKET = ''C_CURLY_BARACKETS''"
| "type_name PARENTHESIS = ''PARENTHESIS''"
| "type_name COLON = ''COLON''"
| "type_name NUMBER = ''NUMBER''"
| "type_name CURLY_BARACKETS = ''UNKNOWN''"

fun print_tokens :: "Token list \<Rightarrow> byte list res" where
  "print_tokens [] = Inr [LF]"
| "print_tokens (t # ts) = (case t_value t of
      Unset \<Rightarrow> Inl (UB Uninitialised)
    | v \<Rightarrow> bindE (print_tokens ts) (\<lambda>out.
        Inr (''('' @ type_name (t_type t) @ '': '' @
          (case v of Value s \<Rightarrow> s | _ \<Rightarrow> ''NULL'') @ '')'' @ [LF] @ out)))"

definition token_arr_print :: "TokenArr option \<Rightarrow> (int \<times> byte list) res" where
  "token_arr_print arr = (case arr of
      None \<Rightarrow> Inr (1, [])
    | Some a \<Rightarrow> bindE (print_tokens (tokenList a)) (\<lambda>out. Inr (0, out)))"

section \<open>Reading the file\<close>

text \<open>One \<open>fgets\<close> with room for \<open>n\<close> bytes: the piece and the rest of the file.\<close>

fun fgets :: "nat \<Rightarrow> byte list \<Rightarrow> byte list \<times> byte list" where
  "fgets 0 bs = ([], bs)"
| "fgets (Suc n) [] = ([], [])"
| "fgets (Suc n) (c # cs) =
     (if c = LF then ([c], cs) else (case fgets n cs of (l, r) \<Rightarrow> (c # l, r)))"

lemma fgets_split: "fgets n bs = (l, r) \<Longrightarrow> bs = l @ r"
  by (induction n bs arbitrary: l r rule: fgets.induct) (auto split: if_splits prod.splits)

lemma fgets_progress: "fgets (Suc n) (c # cs) = (l, r) \<Longrightarrow> length r < length (c # cs)"
  using fgets_split [of "Suc n" "c # cs" l r]
  by (cases l) (auto split: if_splits prod.splits)

lemma line_progress: "fgets 2047 (c # cs) = (l, r) \<Longrightarrow> length r < length (c # cs)"
  using fgets_progress [of 2046 c cs l r] by simp

section \<open>The tokenizer of the current configuration format\<close>

record lexer =
  lex_buf :: "byte list"
  lex_pos :: nat
  in_quotation :: bool
  lex_arr :: "TokenArr option"
  lex_mem :: memory

definition put_char :: "byte \<Rightarrow> lexer \<Rightarrow> lexer res" where
  "put_char c st =
     (if lex_pos st < length (lex_buf st)
      then Inr (st\<lparr>lex_buf := (lex_buf st)[lex_pos st := c], lex_pos := lex_pos st + 1\<rparr>)
      else Inl (UB OutOfBounds))"

definition end_lexem :: "lexer \<Rightarrow> lexer res" where
  "end_lexem st =
     (if lex_pos st < length (lex_buf st)
      then Inr (st\<lparr>lex_buf := (lex_buf st)[lex_pos st := NUL]\<rparr>)
      else Inl (UB OutOfBounds))"

definition add_token :: "token_type \<Rightarrow> byte list option \<Rightarrow> lexer \<Rightarrow> lexer res" where
  "add_token ty str st = bindE (cmon_new_token ty str (lex_arr st) (lex_mem st)) (\<lambda>(a, m).
     Inr (st\<lparr>lex_arr := a, lex_mem := m\<rparr>))"

text \<open>A lexeme that has been collected becomes a number or a text.\<close>

definition flush_text :: "lexer \<Rightarrow> lexer res" where
  "flush_text st =
     (if lex_pos st > 0 then
        bindE (end_lexem st) (\<lambda>st1.
        bindE (str_is_number (lex_buf st1)) (\<lambda>num.
        bindE (add_token (if num \<noteq> 0 then NUMBER else TEXT) (Some (lex_buf st1)) st1) (\<lambda>st2.
        Inr (st2\<lparr>lex_pos := 0\<rparr>))))
      else Inr st)"

definition config_char :: "byte \<Rightarrow> lexer \<Rightarrow> lexer res" where
  "config_char c st =
     (if char_is_alphanumeric c \<noteq> 0 \<or> is_valid_special_char c \<noteq> 0 then put_char c st
      else if c = CHR ''{'' then add_token O_CURLY_BARACKET None st
      else if c = CHR ''}'' then add_token C_CURLY_BARACKET None st
      else if c = CHR 0x22 \<or> c = CHR 0x27 then
        (if in_quotation st then
           bindE (end_lexem st) (\<lambda>st1.
           bindE (add_token STRING (Some (lex_buf st1)) st1) (\<lambda>st2.
           Inr (st2\<lparr>lex_pos := 0, in_quotation := False\<rparr>)))
         else Inr (st\<lparr>in_quotation := True\<rparr>))
      else if c = CHR '' '' then flush_text st
      else if c = CHR '':'' then bindE (flush_text st) (add_token DOUBLE_COLON None)
      else Inr st)"

fun config_chars :: "byte list \<Rightarrow> lexer \<Rightarrow> lexer res" where
  "config_chars [] st = Inr st"
| "config_chars (c # cs) st = bindE (config_char c st) (config_chars cs)"

function config_lines :: "byte list \<Rightarrow> lexer \<Rightarrow> lexer res" where
  "config_lines [] st = Inr st"
| "config_lines (c # cs) st = (case fgets 2047 (c # cs) of
      (l, r) \<Rightarrow> bindE (config_chars (c_str l) st) (config_lines r))"
  by pat_completeness auto
termination
  by (relation "measure (\<lambda>(bs, st). length bs)")
    (simp, simp only: in_measure split_conv, rule line_progress, erule sym)

text \<open>The array \<open>lexem\<close> is static: \<open>buf\<close> is what an earlier call left in it.\<close>

definition lexer_init :: "byte list \<Rightarrow> TokenArr option \<Rightarrow> memory \<Rightarrow> lexer" where
  "lexer_init buf arr m =
     \<lparr>lex_buf = buf, lex_pos = 0, in_quotation = False, lex_arr = arr, lex_mem = m\<rparr>"

definition config_tokenizer ::
    "byte list \<Rightarrow> TokenArr option \<Rightarrow> byte list \<Rightarrow> memory \<Rightarrow> (TokenArr option \<times> memory) res" where
  "config_tokenizer buf arr file m =
     bindE (config_lines file (lexer_init buf arr m)) (\<lambda>st. Inr (lex_arr st, lex_mem st))"

section \<open>The tokenizer of the old format\<close>

text \<open>The branch of the braces does not terminate the lexeme before it is copied.\<close>

definition flush_old :: "token_type \<Rightarrow> lexer \<Rightarrow> lexer res" where
  "flush_old ty st =
     (if lex_pos st > 0 then
        bindE (end_lexem st) (\<lambda>st1.
        bindE (add_token ty (Some (lex_buf st1)) st1) (\<lambda>st2. Inr (st2\<lparr>lex_pos := 0\<rparr>)))
      else Inr st)"

definition cmon_char :: "byte list \<Rightarrow> lexer \<Rightarrow> lexer res" where
  "cmon_char cs st = (let c = cs ! 0 in
     if char_is_alphanumeric c \<noteq> 0 \<or> c = CHR ''_'' \<or> c = CHR ''.'' \<or> c = CHR ''/'' then put_char c st
     else if between (CHR ''0'') (CHR ''9'') c then put_char c st
     else if c = CHR ''{'' \<or> c = CHR ''}'' then
       bindE (if lex_pos st > 0
              then bindE (add_token TEXT (Some (lex_buf st)) st) (\<lambda>st1. Inr (st1\<lparr>lex_pos := 0\<rparr>))
              else Inr st)
         (add_token CURLY_BARACKETS (Some (cs @ [NUL])))
     else if c = CHR '' '' then flush_old TEXT st
     else if c = CHR '','' then flush_old TEXT st
     else if c = CHR '':'' then flush_old DOUBLE_COLON st
     else Inr st)"

fun cmon_chars :: "byte list \<Rightarrow> lexer \<Rightarrow> lexer res" where
  "cmon_chars [] st = Inr st"
| "cmon_chars (c # cs) st = bindE (cmon_char (c # cs) st) (cmon_chars cs)"

function cmon_lines :: "byte list \<Rightarrow> lexer \<Rightarrow> lexer res" where
  "cmon_lines [] st = Inr st"
| "cmon_lines (c # cs) st = (case fgets 2047 (c # cs) of
      (l, r) \<Rightarrow> bindE (cmon_chars (c_str l) st) (cmon_lines r))"
  by pat_completeness auto
termination
  by (relation "measure (\<lambda>(bs, st). length bs)")
    (simp, simp only: in_measure split_conv, rule line_progress, erule sym)

text \<open>
  The token array is allocated with its length set and \<open>nextPosition\<close> not; an allocation that fails
  is written to the log, and then the length is set all the same.
\<close>

definition cmon_tokenizer :: "byte list \<Rightarrow> byte list \<Rightarrow> memory \<Rightarrow> (TokenArr option \<times> memory) res" where
  "cmon_tokenizer buf file m =
     try_alloc m (\<lambda>m1. Inl (UB NullDeref)) (\<lambda>m1.
       bindE (cmon_lines file (lexer_init buf (Some \<lparr>tokenList = [], next_set = False\<rparr>) m1))
         (\<lambda>st. Inr (lex_arr st, lex_mem st)))"

section \<open>Pieces do not matter\<close>

interpretation scan: stepper config_char config_chars
  by unfold_locales simp_all

lemmas config_chars_append = scan.run_append

lemma config_lines_flat:
  "NUL \<notin> set bs \<Longrightarrow> config_lines bs st = config_chars bs st"
proof (induction bs st rule: config_lines.induct)
  case (2 c cs st)
  obtain l r where lr: "fgets 2047 (c # cs) = (l, r)" by (cases "fgets 2047 (c # cs)")
  have split: "c # cs = l @ r" using fgets_split [OF lr] .
  then have nul: "NUL \<notin> set l" "NUL \<notin> set r" using 2(2) by (metis Un_iff set_append)+
  have rest: "config_lines r x = config_chars r x" if "config_chars l st = Inr x" for x
    using 2(1) [OF lr [symmetric]] nul that by (simp add: c_str_id)
  have "config_lines (c # cs) st = bindE (config_chars l st) (config_lines r)"
    using lr nul(1) by (simp add: c_str_id)
  moreover have "config_chars (c # cs) st = bindE (config_chars l st) (config_chars r)"
    unfolding split by (rule config_chars_append)
  ultimately show ?case using rest by (cases "config_chars l st") simp_all
qed simp

section \<open>Scanning words\<close>

definition word_char :: "byte \<Rightarrow> bool" where
  "word_char c \<longleftrightarrow> char_is_alphanumeric c \<noteq> 0 \<or> is_valid_special_char c \<noteq> 0"

text \<open>The characters that are neither part of a word nor a mark.\<close>

definition blank :: "byte \<Rightarrow> bool" where
  "blank c \<longleftrightarrow> \<not> word_char c \<and> c \<notin> {CHR ''{'', CHR ''}'', CHR 0x22, CHR 0x27, CHR '':'', NUL}"

definition word_ok :: "byte list \<Rightarrow> bool" where
  "word_ok w \<longleftrightarrow> w \<noteq> [] \<and> length w < MAX_LEXEM_LEN \<and> (\<forall>c\<in>set w. word_char c)"

text \<open>A scanner between two tokens, with the tokens \<open>ts\<close> behind it and no lack of memory.\<close>

definition lexer_at :: "lexer \<Rightarrow> Token list \<Rightarrow> bool \<Rightarrow> bool" where
  "lexer_at st ts q \<longleftrightarrow> lex_pos st = 0 \<and> in_quotation st = q \<and> length (lex_buf st) = MAX_LEXEM_LEN \<and>
     lex_arr st = Some \<lparr>tokenList = ts, next_set = True\<rparr> \<and> lex_mem st = []"

lemma word_char_not:
  "\<not> word_char NUL" "\<not> word_char (CHR ''{'')" "\<not> word_char (CHR ''}'')" "\<not> word_char (CHR 0x22)"
  "\<not> word_char (CHR 0x27)" "\<not> word_char (CHR '':'')" "\<not> word_char (CHR '' '')"
  by code_simp+

lemma word_ok_text: "word_ok w \<Longrightarrow> NUL \<notin> set w"
  using word_char_not(1) by (auto simp: word_ok_def)

lemma scan_word:
  assumes "\<forall>c\<in>set w. word_char c" "lex_pos st + length w \<le> length (lex_buf st)"
  shows "config_chars w st = Inr (st\<lparr>lex_buf := blit (lex_buf st) (lex_pos st) w,
     lex_pos := lex_pos st + length w\<rparr>)"
  using assms
proof (induction w arbitrary: st)
  case (Cons c w)
  let ?st = "st\<lparr>lex_buf := (lex_buf st)[lex_pos st := c], lex_pos := lex_pos st + 1\<rparr>"
  have "config_char c st = Inr ?st"
    using Cons.prems by (simp add: config_char_def put_char_def word_char_def)
  moreover have "config_chars w ?st = Inr (?st\<lparr>lex_buf := blit (lex_buf ?st) (lex_pos ?st) w,
      lex_pos := lex_pos ?st + length w\<rparr>)"
    using Cons.prems by (intro Cons.IH) simp_all
  ultimately show ?case using Cons.prems(2) blit_upd [of "lex_pos st" "lex_buf st" c w] by simp
qed simp

lemma scan_blanks:
  assumes "\<forall>c\<in>set b. blank c" "lexer_at st ts q"
  shows "config_chars b st = Inr st"
  using assms(1)
proof (induction b)
  case (Cons c b)
  then have "config_char c st = Inr st"
    using assms(2) by (auto simp: config_char_def blank_def word_char_def flush_text_def lexer_at_def)
  with Cons show ?case by simp
qed simp

text \<open>A word in the lexeme array, terminated, is the word again.\<close>

lemma terminated_word:
  assumes "word_ok w" "length buf = MAX_LEXEM_LEN"
  shows "(blit buf 0 w)[length w := NUL] = w @ NUL # drop (Suc (length w)) buf"
proof -
  have "length w < length buf" using assms by (simp add: word_ok_def)
  then show ?thesis using blit_snoc [of 0 w buf NUL] by (simp add: blit_def)
qed

lemma token_of_word:
  assumes "word_ok w" "length ts < MAX_TOKENS"
  shows "cmon_new_token ty (Some (w @ NUL # r)) (Some \<lparr>tokenList = ts, next_set = True\<rparr>) [] =
     Inr (Some \<lparr>tokenList = ts @ [\<lparr>t_type = ty, t_value = Value w\<rparr>], next_set = True\<rparr>, [])"
proof -
  have "(w @ NUL # r) ! 0 \<noteq> NUL" "NUL \<notin> set w"
    using assms(1) word_ok_text [OF assms(1)] by (cases w; auto simp: word_ok_def)+
  then show ?thesis using assms(2) by (simp add: cmon_new_token_def)
qed

lemma token_of_mark:
  "length ts < MAX_TOKENS \<Longrightarrow> cmon_new_token ty None (Some \<lparr>tokenList = ts, next_set = True\<rparr>) m =
     Inr (Some \<lparr>tokenList = ts @ [\<lparr>t_type = ty, t_value = No_Value\<rparr>], next_set = True\<rparr>, m)"
  by (simp add: cmon_new_token_def)

lemma str_is_number_word:
  "NUL \<notin> set w \<Longrightarrow> str_is_number (w @ NUL # r) = Inr (if \<exists>c\<in>set w. char_is_alpha c \<noteq> 0 then 0 else 1)"
  by (induction w) auto

lemma scan_quoted:
  assumes "lexer_at st ts False" "word_ok w" "length ts < MAX_TOKENS"
  shows "\<exists>st1. config_chars (CHR 0x22 # w @ [CHR 0x22]) st = Inr st1 \<and>
     lexer_at st1 (ts @ [\<lparr>t_type = STRING, t_value = Value w\<rparr>]) False"
proof -
  let ?s0 = "st\<lparr>in_quotation := True\<rparr>"
  let ?s1 = "?s0\<lparr>lex_buf := blit (lex_buf st) 0 w, lex_pos := length w\<rparr>"
  have q: "config_char (CHR 0x22) st = Inr ?s0"
    using assms(1) word_char_not(4) by (simp add: config_char_def word_char_def lexer_at_def)
  have w: "config_chars w ?s0 = Inr ?s1"
    using scan_word [of w ?s0] assms(1,2) by (simp add: word_ok_def lexer_at_def)
  have len: "length (blit (lex_buf st) 0 w) = MAX_LEXEM_LEN" "length w < MAX_LEXEM_LEN"
    "length (lex_buf st) = MAX_LEXEM_LEN"
    using assms(1,2) by (simp_all add: lexer_at_def word_ok_def)
  have "config_char (CHR 0x22) ?s1 = Inr (?s1\<lparr>lex_buf := w @ NUL # drop (Suc (length w)) (lex_buf st),
      lex_arr := Some \<lparr>tokenList = ts @ [\<lparr>t_type = STRING, t_value = Value w\<rparr>], next_set = True\<rparr>,
      lex_pos := 0, in_quotation := False\<rparr>)"
    using len terminated_word [OF assms(2) len(3)] token_of_word [OF assms(2,3)]
      assms(1,3) word_char_not(4)
    by (simp add: config_char_def word_char_def end_lexem_def add_token_def lexer_at_def)
  then show ?thesis
    using q w assms(1,2) by (simp add: config_chars_append lexer_at_def word_ok_def)
qed

lemma scan_key:
  assumes "lexer_at st ts False" "word_ok w" "\<exists>c\<in>set w. char_is_alpha c \<noteq> 0" "length ts + 1 < MAX_TOKENS"
  shows "\<exists>st1. config_chars (w @ '':'') st = Inr st1 \<and>
     lexer_at st1 (ts @ [\<lparr>t_type = TEXT, t_value = Value w\<rparr>, \<lparr>t_type = DOUBLE_COLON, t_value = No_Value\<rparr>]) False"
proof -
  let ?s1 = "st\<lparr>lex_buf := blit (lex_buf st) 0 w, lex_pos := length w\<rparr>"
  have w: "config_chars w st = Inr ?s1"
    using scan_word [of w st] assms(1,2) by (simp add: word_ok_def lexer_at_def)
  have len: "length (blit (lex_buf st) 0 w) = MAX_LEXEM_LEN" "length w < MAX_LEXEM_LEN"
    "length (lex_buf st) = MAX_LEXEM_LEN"
    using assms(1,2) by (simp_all add: lexer_at_def word_ok_def)
  have ne: "w \<noteq> []" using assms(2) by (simp add: word_ok_def)
  have "config_char (CHR '':'') ?s1 = Inr (?s1\<lparr>lex_buf := w @ NUL # drop (Suc (length w)) (lex_buf st),
      lex_arr := Some \<lparr>tokenList = ts @ [\<lparr>t_type = TEXT, t_value = Value w\<rparr>,
        \<lparr>t_type = DOUBLE_COLON, t_value = No_Value\<rparr>], next_set = True\<rparr>, lex_pos := 0\<rparr>)"
    using len ne terminated_word [OF assms(2) len(3)] token_of_word [OF assms(2), of ts]
      str_is_number_word [OF word_ok_text [OF assms(2)]] assms(1,3,4) word_char_not(6)
    by (simp add: config_char_def word_char_def flush_text_def end_lexem_def add_token_def
        token_of_mark lexer_at_def)
  then show ?thesis
    using w assms(1,2) by (simp add: config_chars_append lexer_at_def word_ok_def)
qed

lemma scan_brace:
  assumes "lexer_at st ts False" "length ts < MAX_TOKENS"
  shows "\<exists>st1. config_chars ''{'' st = Inr st1 \<and>
       lexer_at st1 (ts @ [\<lparr>t_type = O_CURLY_BARACKET, t_value = No_Value\<rparr>]) False"
    "\<exists>st1. config_chars ''}'' st = Inr st1 \<and>
       lexer_at st1 (ts @ [\<lparr>t_type = C_CURLY_BARACKET, t_value = No_Value\<rparr>]) False"
  using assms word_char_not(2,3)
  by (simp_all add: config_char_def word_char_def add_token_def token_of_mark lexer_at_def)

section \<open>Sections of a configuration file\<close>

text \<open>
  The text of one entry of the configuration: a key and a colon, a block of quoted words, and
  blanks anywhere in between, commas and newlines included.
\<close>

record cfg_section =
  sec_key :: "byte list"
  sec_gap :: "byte list"
  sec_items :: "(byte list \<times> byte list) list"
  sec_end :: "byte list"
  sec_after :: "byte list"

definition render_item :: "byte list \<times> byte list \<Rightarrow> byte list" where
  "render_item i = fst i @ CHR 0x22 # snd i @ [CHR 0x22]"

definition render_section :: "cfg_section \<Rightarrow> byte list" where
  "render_section s = (sec_key s @ '':'') @ sec_gap s @ ''{'' @ concat (map render_item (sec_items s)) @
     sec_end s @ ''}'' @ sec_after s"

definition string_token :: "byte list \<Rightarrow> Token" where
  "string_token w = \<lparr>t_type = STRING, t_value = Value w\<rparr>"

definition section_tokens :: "cfg_section \<Rightarrow> Token list" where
  "section_tokens s = [\<lparr>t_type = TEXT, t_value = Value (sec_key s)\<rparr>,
     \<lparr>t_type = DOUBLE_COLON, t_value = No_Value\<rparr>, \<lparr>t_type = O_CURLY_BARACKET, t_value = No_Value\<rparr>] @
     map (string_token \<circ> snd) (sec_items s) @ [\<lparr>t_type = C_CURLY_BARACKET, t_value = No_Value\<rparr>]"

definition section_ok :: "cfg_section \<Rightarrow> bool" where
  "section_ok s \<longleftrightarrow> word_ok (sec_key s) \<and> (\<exists>c\<in>set (sec_key s). char_is_alpha c \<noteq> 0) \<and>
     (\<forall>i\<in>set (sec_items s). word_ok (snd i) \<and> (\<forall>c\<in>set (fst i). blank c)) \<and>
     (\<forall>c\<in>set (sec_gap s @ sec_end s @ sec_after s). blank c)"

lemma scan_items:
  assumes "lexer_at st ts False" "\<forall>i\<in>set is. word_ok (snd i) \<and> (\<forall>c\<in>set (fst i). blank c)"
    "length ts + length is \<le> MAX_TOKENS"
  shows "\<exists>st1. config_chars (concat (map render_item is)) st = Inr st1 \<and>
     lexer_at st1 (ts @ map (string_token \<circ> snd) is) False"
  using assms
proof (induction "is" arbitrary: st ts)
  case (Cons i "is")
  obtain st1 where st1: "config_chars (CHR 0x22 # snd i @ [CHR 0x22]) st = Inr st1"
    "lexer_at st1 (ts @ [string_token (snd i)]) False"
    using scan_quoted [of st ts "snd i"] Cons.prems by (auto simp: string_token_def)
  moreover have "config_chars (fst i) st = Inr st" using scan_blanks Cons.prems by simp
  ultimately have "config_chars (render_item i) st = Inr st1"
    by (simp add: render_item_def config_chars_append del: config_chars.simps)
  with Cons.IH [OF st1(2)] Cons.prems show ?case by (simp add: config_chars_append)
qed simp

lemma scan_section:
  assumes "lexer_at st ts False" "section_ok s" "length ts + length (section_tokens s) \<le> MAX_TOKENS"
  shows "\<exists>st1. config_chars (render_section s) st = Inr st1 \<and>
     lexer_at st1 (ts @ section_tokens s) False"
proof -
  note ok = assms(2) [unfolded section_ok_def]
  have n: "length ts + length (sec_items s) + 4 \<le> MAX_TOKENS"
    using assms(3) by (simp add: section_tokens_def)
  let ?t1 = "ts @ [\<lparr>t_type = TEXT, t_value = Value (sec_key s)\<rparr>, \<lparr>t_type = DOUBLE_COLON, t_value = No_Value\<rparr>]"
  let ?t2 = "?t1 @ [\<lparr>t_type = O_CURLY_BARACKET, t_value = No_Value\<rparr>]"
  let ?t3 = "?t2 @ map (string_token \<circ> snd) (sec_items s)"
  obtain s1 where 1: "config_chars (sec_key s @ '':'') st = Inr s1" "lexer_at s1 ?t1 False"
    using scan_key [OF assms(1), of "sec_key s"] ok n by force
  obtain s2 where 2: "config_chars ''{'' s1 = Inr s2" "lexer_at s2 ?t2 False"
    using scan_brace(1) [OF 1(2)] n by auto
  obtain s3 where 3: "config_chars (concat (map render_item (sec_items s))) s2 = Inr s3" "lexer_at s3 ?t3 False"
    using scan_items [OF 2(2), of "sec_items s"] ok n by force
  obtain s4 where 4: "config_chars ''}'' s3 = Inr s4" "lexer_at s4 (ts @ section_tokens s) False"
    using scan_brace(2) [OF 3(2)] n by (auto simp: section_tokens_def)
  have b: "config_chars (sec_gap s) s1 = Inr s1" "config_chars (sec_end s) s3 = Inr s3"
    "config_chars (sec_after s) s4 = Inr s4"
    using ok scan_blanks [OF _ 1(2)] scan_blanks [OF _ 3(2)] scan_blanks [OF _ 4(2)] by simp_all
  have "config_chars (render_section s) st = Inr s4"
    by (simp only: render_section_def config_chars_append 1(1) [unfolded config_chars_append]
        2(1) 3(1) 4(1) b bindE_Inr)
  with 4(2) show ?thesis by blast
qed

lemma scan_sections:
  assumes "lexer_at st ts False" "\<forall>s\<in>set ss. section_ok s"
    "length ts + length (concat (map section_tokens ss)) \<le> MAX_TOKENS"
  shows "\<exists>st1. config_chars (concat (map render_section ss)) st = Inr st1 \<and>
     lexer_at st1 (ts @ concat (map section_tokens ss)) False"
  using assms
proof (induction ss arbitrary: st ts)
  case (Cons s ss)
  obtain s1 where s1: "config_chars (render_section s) st = Inr s1" "lexer_at s1 (ts @ section_tokens s) False"
    using scan_section [OF Cons.prems(1), of s] Cons.prems(2,3) by auto
  with Cons.IH [OF s1(2)] Cons.prems(2,3) show ?case by (simp add: config_chars_append)
qed simp

lemma render_no_NUL: "section_ok s \<Longrightarrow> NUL \<notin> set (render_section s)"
  using word_char_not(1)
  by (auto simp: section_ok_def render_section_def render_item_def word_ok_def blank_def NUL_def)

lemma tokenizer_render:
  assumes "\<forall>s\<in>set ss. section_ok s" "length (concat (map section_tokens ss)) \<le> MAX_TOKENS"
    "length buf = MAX_LEXEM_LEN"
  shows "config_tokenizer buf (fst (token_arr_new [])) (concat (map render_section ss)) [] =
     Inr (Some \<lparr>tokenList = concat (map section_tokens ss), next_set = True\<rparr>, [])"
proof -
  let ?st = "lexer_init buf (fst (token_arr_new [])) []"
  have "lexer_at ?st [] False" using assms(3) by (simp add: lexer_at_def token_arr_new_def lexer_init_def)
  then obtain st1 where st1: "config_chars (concat (map render_section ss)) ?st = Inr st1"
    "lexer_at st1 (concat (map section_tokens ss)) False"
    using scan_sections [of ?st "[]" ss] assms(1,2) by auto
  have "NUL \<notin> set (concat (map render_section ss))" using assms(1) render_no_NUL by auto
  then show ?thesis
    using st1 by (simp add: config_tokenizer_def config_lines_flat lexer_at_def)
qed

text \<open>Without an array the first token stops the scan.\<close>

lemma scan_no_array:
  assumes "section_ok s" "lex_arr st = None" "lex_pos st = 0" "length (lex_buf st) = MAX_LEXEM_LEN"
  shows "config_chars (render_section s @ rest) st = Inl (UB NullDeref)"
proof -
  let ?w = "sec_key s" and ?st1 = "st\<lparr>lex_buf := blit (lex_buf st) 0 (sec_key s), lex_pos := length (sec_key s)\<rparr>"
  have ok: "word_ok ?w" using assms(1) by (simp add: section_ok_def)
  then have w: "config_chars ?w st = Inr ?st1"
    using scan_word [of ?w st] assms(3,4) by (simp add: word_ok_def)
  have len: "0 < length ?w" "length ?w < MAX_LEXEM_LEN" "length (blit (lex_buf st) 0 ?w) = MAX_LEXEM_LEN"
    using ok assms(4) by (simp_all add: word_ok_def)
  have "config_char (CHR '':'') ?st1 = Inl (UB NullDeref)"
    using len assms(2) terminated_word [OF ok assms(4)] str_is_number_word [OF word_ok_text [OF ok]]
      word_char_not(6)
    by (simp add: config_char_def word_char_def flush_text_def end_lexem_def add_token_def cmon_new_token_def)
  then have "config_chars (?w @ '':'' @ r) st = Inl (UB NullDeref)" for r
    using w by (simp add: config_chars_append)
  then show ?thesis by (simp add: render_section_def)
qed

lemma tokenizer_no_array:
  assumes "\<forall>s\<in>set ss. section_ok s" "ss \<noteq> []" "length buf = MAX_LEXEM_LEN"
  shows "config_tokenizer buf None (concat (map render_section ss)) m = Inl (UB NullDeref)"
proof -
  have "NUL \<notin> set (concat (map render_section ss))" using assms(1) render_no_NUL by auto
  moreover have "config_chars (concat (map render_section ss)) (lexer_init buf None m) = Inl (UB NullDeref)"
    using assms scan_no_array [of "hd ss" "lexer_init buf None m" "concat (map render_section (tl ss))"]
    by (cases ss) (simp_all add: lexer_init_def)
  ultimately show ?thesis by (simp add: config_tokenizer_def config_lines_flat)
qed

section \<open>The type of the tokens\<close>

text \<open>
  What a token of each type carries: marks carry nothing; texts, numbers and strings carry a word
  of fewer than 100 characters, a text with a letter in it, a number without; a string may also
  carry what the memory held. With a memory that may run out (\<open>ample\<close> is false) a copy may be missing.
\<close>

definition marks :: "token_type set" where
  "marks = {O_CURLY_BARACKET, C_CURLY_BARACKET, DOUBLE_COLON}"

fun token_ok :: "bool \<Rightarrow> token_type \<Rightarrow> token_value \<Rightarrow> bool" where
  "token_ok ample ty No_Value \<longleftrightarrow> ty \<in> marks \<or> \<not> ample \<and> ty \<in> {TEXT, NUMBER, STRING}"
| "token_ok ample ty Unset \<longleftrightarrow> ty = STRING"
| "token_ok ample ty (Value w) \<longleftrightarrow> word_ok w \<and>
     (ty = STRING \<or> ty = TEXT \<and> (\<exists>c\<in>set w. char_is_alpha c \<noteq> 0) \<or>
      ty = NUMBER \<and> (\<forall>c\<in>set w. char_is_alpha c = 0))"

definition tokens_ok :: "bool \<Rightarrow> TokenArr option \<Rightarrow> bool" where
  "tokens_ok ample arr = (case arr of None \<Rightarrow> \<not> ample
     | Some a \<Rightarrow> next_set a \<and> length (tokenList a) \<le> MAX_TOKENS \<and>
         (\<forall>t\<in>set (tokenList a). token_ok ample (t_type t) (t_value t)))"

text \<open>The part of the lexeme array that has been written holds the characters of a word.\<close>

definition lexer_ok :: "bool \<Rightarrow> lexer \<Rightarrow> bool" where
  "lexer_ok ample st \<longleftrightarrow> length (lex_buf st) = MAX_LEXEM_LEN \<and> lex_pos st \<le> MAX_LEXEM_LEN \<and>
     (\<forall>c\<in>set (take (lex_pos st) (lex_buf st)). word_char c) \<and> tokens_ok ample (lex_arr st) \<and>
     (ample \<longrightarrow> False \<notin> set (lex_mem st))"

lemma put_char_ok: "lexer_ok e st \<Longrightarrow> word_char c \<Longrightarrow> put_char c st = Inr st1 \<Longrightarrow> lexer_ok e st1"
  by (auto simp: lexer_ok_def put_char_def take_Suc_conv_app_nth split: if_splits)

text \<open>A terminated lexeme array is the word and a NUL.\<close>

lemma end_lexem_word:
  assumes "lexer_ok e st" "end_lexem st = Inr st1"
  obtains w r where "lex_buf st1 = w @ NUL # r" "\<forall>c\<in>set w. word_char c" "NUL \<notin> set w"
    "length w = lex_pos st" "length w < MAX_LEXEM_LEN" "lex_pos st1 = lex_pos st"
    "lex_arr st1 = lex_arr st" "lex_mem st1 = lex_mem st" "length (lex_buf st1) = MAX_LEXEM_LEN"
proof -
  let ?w = "take (lex_pos st) (lex_buf st)"
  have "\<forall>c\<in>set ?w. word_char c" using assms(1) by (simp add: lexer_ok_def)
  moreover from this have "NUL \<notin> set ?w" using word_char_not(1) by blast
  ultimately show thesis
    using assms
    by (intro that [of ?w "drop (Suc (lex_pos st)) (lex_buf st)"])
      (auto simp: lexer_ok_def end_lexem_def upd_conv_take_nth_drop split: if_splits)
qed

text \<open>A new token is refused by a full array, or appended with one of its possible values.\<close>

lemma cmon_new_token_cases:
  assumes "cmon_new_token ty str (Some a) m = Inr (a1, m1)"
  obtains "a1 = Some a" "m1 = m"
    | v where "a1 = Some (a\<lparr>tokenList := tokenList a @ [\<lparr>t_type = ty, t_value = v\<rparr>]\<rparr>)"
        "length (tokenList a) < MAX_TOKENS" "set m1 \<subseteq> set m"
        "v = No_Value \<and> (str = None \<or> (\<exists>s. str = Some s \<and> NUL \<in> set s \<and> False \<in> set m)) \<or>
         (\<exists>s. str = Some s \<and> NUL \<in> set s \<and> v = (if s ! 0 = NUL then Unset else Value (c_str s)))"
proof (cases "length (tokenList a) \<ge> MAX_TOKENS")
  case True
  then show thesis using assms that(1) by (simp add: cmon_new_token_def)
next
  case False
  show thesis
  proof (cases str)
    case None
    then show thesis using assms False that(2) [of No_Value]
      by (auto simp: cmon_new_token_def split: if_splits)
  next
    case (Some s)
    then show thesis using assms False that(2)
      by (cases m) (auto simp: cmon_new_token_def split: if_splits)
  qed
qed

lemma add_token_ok:
  assumes "lexer_ok e st" "add_token ty str st = Inr st1"
    "str = None \<Longrightarrow> token_ok e ty No_Value"
    "\<And>w r. str = Some (w @ NUL # r) \<Longrightarrow> NUL \<notin> set w \<Longrightarrow>
       token_ok e ty (if w = [] then Unset else Value w) \<and> ty \<in> {TEXT, NUMBER, STRING}"
  shows "lexer_ok e st1"
proof -
  obtain a m where n: "cmon_new_token ty str (lex_arr st) (lex_mem st) = Inr (a, m)"
    "st1 = st\<lparr>lex_arr := a, lex_mem := m\<rparr>"
    using assms(2) by (auto simp: add_token_def bindE_eq_Inr)
  then obtain a0 where a0: "lex_arr st = Some a0" by (cases "lex_arr st") (auto simp: cmon_new_token_def)
  show ?thesis
  proof (rule cmon_new_token_cases [OF n(1) [unfolded a0]], goal_cases)
    case 1
    then show ?case using assms(1) n(2) a0 by (simp add: lexer_ok_def)
  next
    case (2 v)
    have "token_ok e ty v"
      using 2(4)
    proof (elim disjE exE conjE, goal_cases)
      case 1
      then show ?case using assms(3) by simp
    next
      case (2 s)
      then obtain w r where wr: "s = w @ NUL # r" "NUL \<notin> set w" using split_list_first [of NUL s] by blast
      then show ?case using 2 assms(4) [of w r] assms(1) by (auto simp: lexer_ok_def)
    next
      case (3 s)
      then obtain w r where wr: "s = w @ NUL # r" "NUL \<notin> set w" using split_list_first [of NUL s] by blast
      have "s ! 0 = NUL \<longleftrightarrow> w = []" using wr by (cases w) auto
      moreover have "c_str s = w" using wr by simp
      ultimately have v: "v = (if w = [] then Unset else Value w)" using 3(3) by (simp only:)
      show ?case unfolding v using assms(4) [OF 3(1) [unfolded wr(1)] wr(2)] ..
    qed
    then show ?case using 2 assms(1) n(2) a0 by (auto simp: lexer_ok_def tokens_ok_def)
  qed
qed

lemma add_mark_ok:
  "lexer_ok e st \<Longrightarrow> ty \<in> marks \<Longrightarrow> add_token ty None st = Inr st1 \<Longrightarrow> lexer_ok e st1"
  by (erule add_token_ok) auto

text \<open>A token made of the terminated lexeme array.\<close>

lemma add_lexem_ok:
  assumes "lexer_ok e st" "end_lexem st = Inr s" "add_token ty (Some (lex_buf s)) s = Inr s2"
    "\<And>w r. lex_buf s = w @ NUL # r \<Longrightarrow> NUL \<notin> set w \<Longrightarrow> \<forall>c\<in>set w. word_char c \<Longrightarrow>
       length w < MAX_LEXEM_LEN \<Longrightarrow> length w = lex_pos st \<Longrightarrow>
       token_ok e ty (if w = [] then Unset else Value w) \<and> ty \<in> {TEXT, NUMBER, STRING}"
  shows "lexer_ok e (s2\<lparr>lex_pos := 0, in_quotation := q\<rparr>)"
proof -
  obtain w r where w: "lex_buf s = w @ NUL # r" "\<forall>c\<in>set w. word_char c" "NUL \<notin> set w"
    "length w < MAX_LEXEM_LEN" "length w = lex_pos st" "lex_arr s = lex_arr st" "lex_mem s = lex_mem st"
    "length (lex_buf s) = MAX_LEXEM_LEN" "lex_pos s = lex_pos st"
    using end_lexem_word [OF assms(1,2)] by metis
  have "take (lex_pos s) (lex_buf s) = w" using w(1,5,9) by simp
  then have "lexer_ok e s" using assms(1) w by (simp add: lexer_ok_def)
  from this assms(3) have "lexer_ok e s2"
  proof (rule add_token_ok)
    fix v u assume vu: "Some (lex_buf s) = Some (v @ NUL # u)" "NUL \<notin> set v"
    then have "v = c_str (lex_buf s)" by simp
    then have vw: "v = w" using w(1,3) by simp
    show "token_ok e ty (if v = [] then Unset else Value v) \<and> ty \<in> {TEXT, NUMBER, STRING}"
      unfolding vw by (rule assms(4) [OF w(1,3,2,4,5)])
  qed simp
  then show ?thesis by (simp add: lexer_ok_def)
qed

lemma flush_text_ok:
  assumes "lexer_ok e st" "flush_text st = Inr st1"
  shows "lexer_ok e st1"
proof (cases "lex_pos st > 0")
  case True
  then obtain s num s2 where s: "end_lexem st = Inr s" "str_is_number (lex_buf s) = Inr num"
    "add_token (if num \<noteq> 0 then NUMBER else TEXT) (Some (lex_buf s)) s = Inr s2" "st1 = s2\<lparr>lex_pos := 0\<rparr>"
    using assms(2) by (auto simp: flush_text_def bindE_eq_Inr)
  have "lexer_ok e (s2\<lparr>lex_pos := 0, in_quotation := in_quotation s2\<rparr>)"
    using assms(1) s(1,3)
  proof (rule add_lexem_ok)
    fix w r assume w: "lex_buf s = w @ NUL # r" "NUL \<notin> set w" "\<forall>c\<in>set w. word_char c"
      "length w < MAX_LEXEM_LEN" "length w = lex_pos st"
    have "num \<noteq> 0 \<longleftrightarrow> (\<forall>c\<in>set w. char_is_alpha c = 0)"
      using s(2) str_is_number_word [OF w(2), of r] w(1) by (auto split: if_splits)
    then show "token_ok e (if num \<noteq> 0 then NUMBER else TEXT) (if w = [] then Unset else Value w) \<and>
        (if num \<noteq> 0 then NUMBER else TEXT) \<in> {TEXT, NUMBER, STRING}"
      using w True by (auto simp: word_ok_def)
  qed
  then show ?thesis using s(4) by simp
qed (use assms in \<open>simp add: flush_text_def\<close>)

lemma end_string_ok:
  assumes "lexer_ok e st" "end_lexem st = Inr s" "add_token STRING (Some (lex_buf s)) s = Inr s2"
  shows "lexer_ok e (s2\<lparr>lex_pos := 0, in_quotation := q\<rparr>)"
  using assms by (rule add_lexem_ok) (auto simp: word_ok_def)

lemma config_char_ok:
  assumes "lexer_ok e st" "config_char c st = Inr st1"
  shows "lexer_ok e st1"
proof (cases "word_char c")
  case True
  then show ?thesis using assms put_char_ok by (simp add: config_char_def word_char_def)
next
  case False
  then have "char_is_alphanumeric c = 0" "is_valid_special_char c = 0" by (auto simp: word_char_def)
  moreover have "O_CURLY_BARACKET \<in> marks" "C_CURLY_BARACKET \<in> marks" "DOUBLE_COLON \<in> marks"
    by (simp_all add: marks_def)
  ultimately show ?thesis
    using assms flush_text_ok [OF assms(1)] end_string_ok [OF assms(1)]
    by (auto simp: config_char_def bindE_eq_Inr lexer_ok_def [of e "st\<lparr>in_quotation := True\<rparr>"]
        lexer_ok_def [symmetric] intro: add_mark_ok split: if_splits)
qed

lemma config_chars_ok: "lexer_ok e st \<Longrightarrow> config_chars cs st = Inr st1 \<Longrightarrow> lexer_ok e st1"
  using config_char_ok by (rule scan.run_keeps)

lemma config_lines_ok: "lexer_ok e st \<Longrightarrow> config_lines bs st = Inr st1 \<Longrightarrow> lexer_ok e st1"
  by (induction bs st rule: config_lines.induct)
    (auto simp: bindE_eq_Inr dest: config_chars_ok split: prod.splits)

lemma token_arr_new_ok:
  assumes "token_arr_new m = (arr, m1)" "e = (False \<notin> set m)"
  shows "tokens_ok e arr \<and> (e \<longrightarrow> False \<notin> set m1)"
  using assms by (cases m) (auto simp: token_arr_new_def tokens_ok_def split: if_splits)

lemma config_tokenizer_ok:
  assumes "length buf = MAX_LEXEM_LEN" "token_arr_new m = (arr0, m0)"
    "config_tokenizer buf arr0 file m0 = Inr (arr, m1)"
  shows "tokens_ok (False \<notin> set m) arr"
proof -
  let ?st = "lexer_init buf arr0 m0"
  obtain st where st: "config_lines file ?st = Inr st" "arr = lex_arr st"
    using assms(3) by (auto simp: config_tokenizer_def bindE_eq_Inr)
  have "lexer_ok (False \<notin> set m) ?st"
    using assms(1) token_arr_new_ok [OF assms(2) refl] by (simp add: lexer_ok_def lexer_init_def)
  then show ?thesis using config_lines_ok [OF _ st(1)] st(2) by (auto simp: lexer_ok_def)
qed

section \<open>Properties\<close>

text \<open>
  C14. Whatever the file holds, the tokens the tokenizer returns are at most 100 and well typed:
  marks carry no value; a text is a word of letters, digits, points, underscores and slashes, of
  fewer than 100 characters and with a letter in it; a number is such a word without a letter; a
  string is such a word or, for the empty string, a pointer that was never set, and then releasing
  the array is undefined. Only when the allocator refuses a request can a text, a number or a
  string be without its word, or the array itself be \<open>NULL\<close>.
\<close>

theorem config_tokenizer_well_typed:
  assumes "length buf = MAX_LEXEM_LEN" "token_arr_new m = (arr0, m0)"
    "config_tokenizer buf arr0 file m0 = Inr (arr, m1)"
  shows "(case arr of
       None \<Rightarrow> False \<in> set m
     | Some a \<Rightarrow> length (tokenList a) \<le> 100 \<and>
         (\<forall>t\<in>set (tokenList a). token_ok (False \<notin> set m) (t_type t) (t_value t)) \<and>
         (token_arr_free arr = Inr () \<longleftrightarrow> (\<forall>t\<in>set (tokenList a). t_value t \<noteq> Unset)))"
  using config_tokenizer_ok [OF assms]
  by (auto simp: tokens_ok_def MAX_TOKENS_def token_arr_free_def split: option.splits)

definition small_file :: "byte list" where
  "small_file = ''a: { '' @ [CHR 0x22, CHR 0x22] @ ''12 }''"

text \<open>Four requests: the array, and a copy of each of the two words, the second refused.\<close>

theorem config_tokenizer_well_typed_witness:
  "\<exists>a. config_tokenizer (replicate 100 NUL) (Some \<lparr>tokenList = [], next_set = True\<rparr>) small_file [True, False] =
       Inr (Some a, []) \<and>
     length (tokenList a) = 6 \<and> length (tokenList a) \<le> 100 \<and>
     (\<forall>t\<in>set (tokenList a). token_ok False (t_type t) (t_value t))"
proof -
  let ?arr = "Some \<lparr>tokenList = [], next_set = True\<rparr>"
  have len: "length (replicate 100 NUL) = MAX_LEXEM_LEN" by (simp add: MAX_LEXEM_LEN_def)
  have new: "token_arr_new [True, True, False] = (?arr, [True, False])" by (simp add: token_arr_new_def)
  have "map_sum id (map_prod (map_option (\<lambda>a. length (tokenList a))) id)
      (config_tokenizer (replicate 100 NUL) ?arr small_file [True, False]) = Inr (Some 6, [])"
    by code_simp
  then obtain a where a: "config_tokenizer (replicate 100 NUL) ?arr small_file [True, False] = Inr (Some a, [])"
    "length (tokenList a) = 6"
    by (cases "config_tokenizer (replicate 100 NUL) ?arr small_file [True, False]") (auto simp: map_prod_def split: prod.splits)
  then show ?thesis using config_tokenizer_well_typed [OF len new a(1)] by auto
qed

text \<open>
  A run of more than 100 word characters leaves the lexeme array, however the file goes on.
\<close>

lemma scan_too_long:
  assumes "\<forall>c\<in>set w. word_char c" "length (lex_buf st) < lex_pos st + length w" "lex_pos st \<le> length (lex_buf st)"
  shows "config_chars (w @ rest) st = Inl (UB OutOfBounds)"
  using assms
proof (induction w arbitrary: st)
  case (Cons c w)
  let ?st = "st\<lparr>lex_buf := (lex_buf st)[lex_pos st := c], lex_pos := lex_pos st + 1\<rparr>"
  show ?case
  proof (cases "lex_pos st < length (lex_buf st)")
    case True
    then have "config_char c st = Inr ?st"
      using Cons.prems by (simp add: config_char_def put_char_def word_char_def)
    moreover have "config_chars (w @ rest) ?st = Inl (UB OutOfBounds)"
      using Cons.prems True by (intro Cons.IH) simp_all
    ultimately show ?thesis by simp
  next
    case False
    then show ?thesis using Cons.prems by (simp add: config_char_def put_char_def word_char_def)
  qed
qed simp

lemma config_tokenizer_long_lexem:
  assumes "\<forall>c\<in>set w. word_char c" "100 < length w" "length buf = MAX_LEXEM_LEN" "NUL \<notin> set rest"
  shows "config_tokenizer buf arr (w @ rest) m = Inl (UB OutOfBounds)"
proof -
  have "NUL \<notin> set (w @ rest)" using assms(1,4) word_char_not(1) by auto
  then show ?thesis
    using assms
    by (simp add: config_tokenizer_def config_lines_flat scan_too_long lexer_init_def MAX_LEXEM_LEN_def)
qed

text \<open>The old tokenizer cannot add a token.\<close>

definition no_tokens :: "lexer \<Rightarrow> bool" where
  "no_tokens st \<longleftrightarrow> lex_arr st = Some \<lparr>tokenList = [], next_set = False\<rparr>"

lemma add_token_unset: "no_tokens st \<Longrightarrow> add_token ty s st = Inl (UB Uninitialised)"
  by (simp add: no_tokens_def add_token_def cmon_new_token_def MAX_TOKENS_def)

lemma put_end_no_tokens:
  "no_tokens st \<Longrightarrow> put_char c st = Inr st1 \<Longrightarrow> no_tokens st1"
  "no_tokens st \<Longrightarrow> end_lexem st = Inr st1 \<Longrightarrow> no_tokens st1"
  by (auto simp: no_tokens_def put_char_def end_lexem_def split: if_splits)

lemma flush_old_no_tokens: "no_tokens st \<Longrightarrow> flush_old ty st = Inr st1 \<Longrightarrow> st1 = st"
  using put_end_no_tokens(2) [of st]
  by (auto simp: flush_old_def bindE_eq_Inr add_token_unset split: if_splits)

lemma cmon_char_no_tokens: "no_tokens st \<Longrightarrow> cmon_char cs st = Inr st1 \<Longrightarrow> no_tokens st1"
  unfolding cmon_char_def Let_def
  using put_end_no_tokens(1) [of st "cs ! 0" st1] flush_old_no_tokens [of st _ st1]
  by (auto simp: bindE_eq_Inr add_token_unset simp del: One_nat_def split: if_split_asm)

lemma cmon_chars_no_tokens: "no_tokens st \<Longrightarrow> cmon_chars cs st = Inr st1 \<Longrightarrow> no_tokens st1"
  by (induction cs arbitrary: st) (auto simp: bindE_eq_Inr dest: cmon_char_no_tokens)

lemma cmon_lines_no_tokens: "no_tokens st \<Longrightarrow> cmon_lines bs st = Inr st1 \<Longrightarrow> no_tokens st1"
  by (induction bs st rule: cmon_lines.induct)
    (auto simp: bindE_eq_Inr dest: cmon_chars_no_tokens split: prod.splits)

lemma cmon_tokenizer_no_tokens:
  assumes "cmon_tokenizer buf file m = Inr (arr, m1)"
  shows "arr = Some \<lparr>tokenList = [], next_set = False\<rparr>"
proof -
  obtain m2 st where "cmon_lines file (lexer_init buf (Some \<lparr>tokenList = [], next_set = False\<rparr>) m2) = Inr st"
    "arr = lex_arr st"
    using assms by (cases m) (auto simp: cmon_tokenizer_def bindE_eq_Inr split: if_splits)
  then show ?thesis
    using cmon_lines_no_tokens [of "lexer_init buf (Some \<lparr>tokenList = [], next_set = False\<rparr>) m2" _ st]
    by (simp add: no_tokens_def lexer_init_def)
qed

end
