(* ===== verification/Cmon_String_Array.thy ===== *)
theory Cmon_String_Array
  imports C_Utils_String Bounded_Seq
begin

text \<open>
  \<open>src/src/lib/utils/cmon_string_array.c\<close>: an array of at most 50 strings. The array is the list of
  its first \<open>len\<close> strings; the functions return what the C function returns and the array after
  the call.
\<close>

definition INITIAL_ARRAY_SIZE :: nat where
  "INITIAL_ARRAY_SIZE = 50"

type_synonym CmonStringArray = "CmonString list"

section \<open>Operations\<close>

definition cmon_str_arr_new :: "memory \<Rightarrow> CmonStringArray option \<times> memory" where
  "cmon_str_arr_new m = try_alloc m (\<lambda>m1. (None, m1)) (\<lambda>m1. (Some [], m1))"

definition cmon_str_arr_init :: "CmonStringArray option \<Rightarrow> CmonStringArray option" where
  "cmon_str_arr_init arr = (case arr of None \<Rightarrow> None | Some a \<Rightarrow> Some [])"

definition cmon_str_arr_get_str :: "CmonStringArray option \<Rightarrow> nat \<Rightarrow> CmonString option" where
  "cmon_str_arr_get_str arr index = (case arr of
      None \<Rightarrow> None
    | Some a \<Rightarrow> if index \<ge> length a then None else Some (a ! index))"

text \<open>
  A string is built before it is known whether the array has room; when it has none the new string
  is lost.
\<close>

definition cmon_str_arr_add_new_char_arr ::
    "CmonStringArray option \<Rightarrow> byte list option \<Rightarrow> memory \<Rightarrow>
     (CmonString option \<times> CmonStringArray option \<times> memory) res" where
  "cmon_str_arr_add_new_char_arr arr str m = (case (arr, str) of
      (Some a, Some cs) \<Rightarrow>
        if cs = [] then Inl (UB OutOfBounds)
        else if cs ! 0 = NUL then Inr (None, arr, m)
        else bindE (cmon_str_new (Some cs) m) (\<lambda>(newString, m1). (case newString of
            None \<Rightarrow> Inr (None, arr, m1)
          | Some n \<Rightarrow>
              if length a + 1 > INITIAL_ARRAY_SIZE then Inr (None, arr, m1)
              else Inr (Some n, Some (a @ [n]), m1)))
    | _ \<Rightarrow> Inr (None, arr, m))"

definition cmon_str_arr_add_from_str ::
    "CmonStringArray option \<Rightarrow> CmonString option \<Rightarrow> CmonString option \<times> CmonStringArray option" where
  "cmon_str_arr_add_from_str arr str = (case (arr, str) of
      (Some a, Some s) \<Rightarrow>
        if length a + 1 > INITIAL_ARRAY_SIZE then (None, arr)
        else (Some s, Some (a @ [s]))
    | _ \<Rightarrow> (None, arr))"

fun find_loop :: "CmonStringArray \<Rightarrow> CmonString option \<Rightarrow> CmonString option res" where
  "find_loop [] str = Inr None"
| "find_loop (cur_str # arr) str =
     bindE (cmon_str_cmp str (Some cur_str)) (\<lambda>eq.
       if eq then Inr (Some cur_str) else find_loop arr str)"

text \<open>The length of the array is read without a check of the pointer.\<close>

definition cmon_str_arr_find :: "CmonStringArray option \<Rightarrow> CmonString option \<Rightarrow> CmonString option res" where
  "cmon_str_arr_find arr str = (case arr of
      None \<Rightarrow> Inl (UB NullDeref)
    | Some a \<Rightarrow> find_loop a str)"

text \<open>\<open>cmon_str_arr_free\<close> releases every string of the array: the ones freed, and the return code.\<close>

definition cmon_str_arr_free :: "CmonStringArray option \<Rightarrow> int \<times> CmonString list" where
  "cmon_str_arr_free arr = (case arr of None \<Rightarrow> (1, []) | Some a \<Rightarrow> (0, a))"

section \<open>Facts\<close>

definition add_string :: "CmonString \<Rightarrow> CmonStringArray \<Rightarrow> CmonStringArray option" where
  "add_string s arr = (case cmon_str_arr_add_from_str (Some arr) (Some s) of
      (None, a) \<Rightarrow> None | (Some t, a) \<Rightarrow> a)"

interpretation strs: bounded_seq add_string id INITIAL_ARRAY_SIZE "\<lambda>_. True"
  by unfold_locales (auto simp: add_string_def cmon_str_arr_add_from_str_def)

lemma add_from_str_keep:
  "snd (cmon_str_arr_add_from_str (Some arr) (Some s)) = Some (strs.add_or_keep s arr)"
  by (simp add: strs.add_or_keep_def add_string_def cmon_str_arr_add_from_str_def)

lemma add_from_str_None [simp]: "cmon_str_arr_add_from_str (Some arr) None = (None, Some arr)"
  by (simp add: cmon_str_arr_add_from_str_def)

lemma add_new_char_arr_keep [str_simps]:
  assumes "text_ok s" "length s \<le> 257" "s \<noteq> []"
  shows "\<exists>r. cmon_str_arr_add_new_char_arr (Some arr) (Some (cstring s)) [] =
     Inr (r, Some (strs.add_or_keep (cmon_string s) arr), [])"
proof -
  have "cstring s \<noteq> []" "cstring s ! 0 \<noteq> NUL"
    using assms by (cases s; auto simp: cstring_def text_ok_def)+
  then show ?thesis
    using cmon_str_new_text [OF assms(1,2)]
    by (simp add: cmon_str_arr_add_new_char_arr_def strs.add_or_keep_def add_string_def
        cmon_str_arr_add_from_str_def)
qed

text \<open>Whatever the allocator answers, an addition leaves the array as it is or one string longer.\<close>

lemma add_new_char_arr_cases:
  assumes "cmon_str_arr_add_new_char_arr (Some arr) str m = Inr (r, a, m1)"
  obtains "a = Some arr" | s where "a = Some (arr @ [s])" "length arr < INITIAL_ARRAY_SIZE"
  using assms
  by (auto simp: cmon_str_arr_add_new_char_arr_def bindE_eq_Inr
      split: option.splits if_splits prod.splits)

lemma add_from_str_cases:
  assumes "cmon_str_arr_add_from_str (Some arr) str = (r, a)"
  obtains "a = Some arr" | s where "a = Some (arr @ [s])" "length arr < INITIAL_ARRAY_SIZE"
  using assms by (auto simp: cmon_str_arr_add_from_str_def split: option.splits if_splits)

lemma find_text [str_simps]:
  "cmon_str_arr_find (Some (map cmon_string ss)) (Some (cmon_string s)) =
     Inr (if s \<in> set ss then Some (cmon_string s) else None)"
proof -
  have "find_loop (map cmon_string ss) (Some (cmon_string s)) =
      Inr (if s \<in> set ss then Some (cmon_string s) else None)"
    by (induction ss) (auto simp: cmon_str_cmp_text)
  then show ?thesis by (simp add: cmon_str_arr_find_def)
qed

end
