(* ===== verification/Config.thy ===== *)
theory Config
  imports Tokenizer Cmon_String_Array
begin

text \<open>
  \<open>src/src/lib/config/config.c\<close>: the configuration structure, the parser that fills it from the
  tokens, the file that is opened or created, and the initialisation of the program from its
  arguments and its working directory. The kernel's answers (the limit on paths, the working
  directory, what \<open>access\<close> and \<open>fopen\<close> say, the bytes of the file) are arguments, and so are the
  answers of the allocator. The members of a new configuration that nothing has assigned are
  \<open>Unwritten\<close>, and reading one is undefined. Messages to the terminal are not modelled.
\<close>

datatype config_entry = WATCH_FILE_EXT_NAMES | IGNORE_FILES | IGNORE_DIRS

text \<open>The entries can be enumerated, so that a statement on all of them can be evaluated.\<close>

instantiation config_entry :: enum
begin

definition enum_config_entry :: "config_entry list" where
  "enum_config_entry = [WATCH_FILE_EXT_NAMES, IGNORE_FILES, IGNORE_DIRS]"

definition enum_all_config_entry :: "(config_entry \<Rightarrow> bool) \<Rightarrow> bool" where
  "enum_all_config_entry P \<longleftrightarrow> P WATCH_FILE_EXT_NAMES \<and> P IGNORE_FILES \<and> P IGNORE_DIRS"

definition enum_ex_config_entry :: "(config_entry \<Rightarrow> bool) \<Rightarrow> bool" where
  "enum_ex_config_entry P \<longleftrightarrow> P WATCH_FILE_EXT_NAMES \<or> P IGNORE_FILES \<or> P IGNORE_DIRS"

instance
proof
  show "(UNIV :: config_entry set) = set enum_class.enum"
    by (auto simp: enum_config_entry_def intro: config_entry.exhaust)
  show "distinct (enum_class.enum :: config_entry list)" by (simp add: enum_config_entry_def)
  show "enum_class.enum_all P \<longleftrightarrow> Ball UNIV P" for P :: "config_entry \<Rightarrow> bool"
    unfolding enum_all_config_entry_def by (metis UNIV_I config_entry.exhaust)
  show "enum_class.enum_ex P \<longleftrightarrow> Bex UNIV P" for P :: "config_entry \<Rightarrow> bool"
    unfolding enum_ex_config_entry_def by (metis UNIV_I config_entry.exhaust)
qed

end

record CmonConfig =
  ignoreFiles :: CmonStringArray
  ignoreDirs :: CmonStringArray
  watchExtNames :: CmonStringArray
  cwd :: "CmonString option field"
  exe :: "CmonString option field"
  argv :: "byte list list field"
  conf_argc :: "int field"

text \<open>\<open>DEFAULT_CONFIG\<close>, line by line; it is the text of three sections.\<close>

definition default_sections :: "cfg_section list" where
  "default_sections =
     [\<lparr>sec_key = ''WATCH_FILE_EXT_NAMES'', sec_gap = '' '',
       sec_items = [(LF # ''  '', ''html''), ('','' @ [LF] @ ''  '', ''css'')],
       sec_end = [LF], sec_after = [LF, LF]\<rparr>,
      \<lparr>sec_key = ''IGNORE_FILES'', sec_gap = '' '',
       sec_items = [(LF # ''  '', ''.gitignore''), ('','' @ [LF] @ ''  '', ''c000mand1.go'')],
       sec_end = [LF], sec_after = [LF, LF]\<rparr>,
      \<lparr>sec_key = ''IGNORE_DIRS'', sec_gap = '' '',
       sec_items = [(LF # ''  '', ''.git''), ('','' @ [LF] @ ''  '', ''build''),
         ('','' @ [LF] @ ''  '', ''node_modules''), ('','' @ [LF] @ ''  '', ''si/super/com'')],
       sec_end = [LF], sec_after = []\<rparr>]"

definition quoted :: "byte list \<Rightarrow> byte list" where
  "quoted w = CHR 0x22 # w @ [CHR 0x22]"

definition DEFAULT_CONFIG :: "byte list" where
  "DEFAULT_CONFIG =
     ''WATCH_FILE_EXT_NAMES: {'' @ [LF] @ ''  '' @ quoted ''html'' @ '','' @ [LF] @
     ''  '' @ quoted ''css'' @ [LF] @ ''}'' @ [LF] @ [LF] @
     ''IGNORE_FILES: {'' @ [LF] @ ''  '' @ quoted ''.gitignore'' @ '','' @ [LF] @
     ''  '' @ quoted ''c000mand1.go'' @ [LF] @ ''}'' @ [LF] @ [LF] @
     ''IGNORE_DIRS: {'' @ [LF] @ ''  '' @ quoted ''.git'' @ '','' @ [LF] @
     ''  '' @ quoted ''build'' @ '','' @ [LF] @ ''  '' @ quoted ''node_modules'' @ '','' @ [LF] @
     ''  '' @ quoted ''si/super/com'' @ [LF] @ ''}''"

lemma DEFAULT_CONFIG_sections: "DEFAULT_CONFIG = concat (map render_section default_sections)"
  by (simp add: DEFAULT_CONFIG_def default_sections_def render_section_def render_item_def quoted_def)

section \<open>Creation and release\<close>

definition new_config :: CmonConfig where
  "new_config = \<lparr>ignoreFiles = [], ignoreDirs = [], watchExtNames = [],
     cwd = Unwritten, exe = Unwritten, argv = Unwritten, conf_argc = Unwritten\<rparr>"

definition config_new :: "memory \<Rightarrow> (CmonConfig \<times> memory) res" where
  "config_new m = try_alloc m (\<lambda>m1. Inl (Exit 1)) (\<lambda>m1. Inr (new_config, m1))"

text \<open>\<open>config_free\<close> releases the strings of the three arrays, then the other strings.\<close>

definition freed_string :: "CmonString option \<Rightarrow> CmonString list" where
  "freed_string s = (case s of None \<Rightarrow> [] | Some t \<Rightarrow> [t])"

definition config_free :: "CmonConfig \<Rightarrow> (int \<times> CmonString list) res" where
  "config_free conf =
     bindE (read_field (cwd conf)) (\<lambda>c.
     bindE (read_field (exe conf)) (\<lambda>e.
     Inr (0, snd (cmon_str_arr_free (Some (ignoreDirs conf))) @
       snd (cmon_str_arr_free (Some (ignoreFiles conf))) @
       snd (cmon_str_arr_free (Some (watchExtNames conf))) @ freed_string c @ freed_string e)))"

definition print_lines :: "CmonStringArray \<Rightarrow> byte list" where
  "print_lines arr = concat (map (\<lambda>s. CHR 0x09 # c_str (s_string s) @ [LF]) arr)"

definition config_print :: "CmonConfig \<Rightarrow> byte list res" where
  "config_print conf = bindE (read_field (cwd conf)) (\<lambda>d. case d of
      None \<Rightarrow> Inl (UB NullDeref)
    | Some c \<Rightarrow> Inr (''cwd: '' @ c_str (s_string c) @ [LF, LF] @
        ''Ignore Dirs'' @ [LF] @ print_lines (ignoreDirs conf) @
        ''Ignore Files'' @ [LF] @ print_lines (ignoreFiles conf) @
        ''Watch ext'' @ [LF] @ print_lines (watchExtNames conf)))"

section \<open>The working directory and the arguments\<close>

text \<open>
  \<open>_get_cwd\<close>: \<open>path_max\<close> is what \<open>pathconf\<close> answers; with -1 the size of the block is the largest
  \<open>size_t\<close>, which \<open>malloc\<close> refuses. \<open>getcwd\<close> fails when the directory does not fit.
\<close>

definition get_cwd :: "int \<Rightarrow> byte list option \<Rightarrow> memory \<Rightarrow> (CmonString option \<times> memory) res" where
  "get_cwd path_max dir m =
     (let sz = (if path_max = - 1 then 4096 else if path_max > 10240 then 10240 else path_max) in
      if path_max < 0 then Inr (None, m)
      else try_alloc m (\<lambda>m1. Inr (None, m1)) (\<lambda>m1. (case dir of
          None \<Rightarrow> Inr (None, m1)
        | Some d \<Rightarrow>
            if sz < int (length d) + 1 then Inr (None, m1)
            else cmon_str_new_from_char_arrs (Some (cstring d)) [cstring ''/''] m1)))"

text \<open>
  \<open>cmon_parse_argv\<close>: the ten-entry argument array of the command, filled from index 1 and closed
  with \<open>NULL\<close> (\<open>Written None\<close>). The copies of the two names are not checked.
\<close>

record CmonCommand =
  cmd_exe :: "byte list option"
  cmd_process_name :: "byte list option"
  cmd_argc :: "int field"
  cmd_argv :: "byte list option field list"

definition strdup :: "byte list \<Rightarrow> memory \<Rightarrow> byte list option \<times> memory" where
  "strdup s m = try_alloc m (\<lambda>m1. (None, m1)) (\<lambda>m1. (Some s, m1))"

fun argv_loop ::
    "byte list list \<Rightarrow> nat \<Rightarrow> byte list option field list \<Rightarrow> (nat \<times> byte list option field list) res" where
  "argv_loop [] i arr = Inr (i, arr)"
| "argv_loop (a # as) i arr =
     (if length arr \<le> i then Inl (UB OutOfBounds) else argv_loop as (Suc i) (arr[i := Written (Some a)]))"

definition cmon_parse_argv :: "byte list list \<Rightarrow> memory \<Rightarrow> (CmonCommand option \<times> memory) res" where
  "cmon_parse_argv args m = try_alloc m (\<lambda>m1. Inr (None, m1)) (\<lambda>m1.
     if length args < 2 then Inl (Exit 1)
     else (case strdup (args ! 1) m1 of (e, m2) \<Rightarrow>
       case strdup ''Juan Pablo Segundo'' m2 of (n, m3) \<Rightarrow>
         bindE (argv_loop (drop 2 args) 1 ((replicate 10 Unwritten)[0 := Written n])) (\<lambda>(i, arr).
         if length arr \<le> i then Inl (UB OutOfBounds)
         else Inr (Some \<lparr>cmd_exe = e, cmd_process_name = n, cmd_argc = Unwritten,
                         cmd_argv = arr[i := Written None]\<rparr>, m3))))"

definition config_parse_argv :: "CmonConfig \<Rightarrow> byte list list \<Rightarrow> memory \<Rightarrow> (CmonConfig \<times> memory) res" where
  "config_parse_argv conf args m =
     (if length args < 2 then Inl (Exit 1)
      else bindE (cmon_str_new (Some (cstring (args ! 1))) m) (\<lambda>(e, m1).
           Inr (conf\<lparr>exe := Written e, argv := Written args\<rparr>, m1)))"

section \<open>The configuration file\<close>

text \<open>
  A stream is the bytes of the file and a position. A file that does not exist is created, filled
  and returned as it is: positioned behind what was just written.
\<close>

datatype access_rc = Readable | Missing | Access_Error int

definition config_open_file :: "access_rc \<Rightarrow> bool \<Rightarrow> byte list \<Rightarrow> (byte list \<times> nat) res" where
  "config_open_file acc opened content = (case acc of
      Missing \<Rightarrow> if opened then Inr (DEFAULT_CONFIG, length DEFAULT_CONFIG) else Inl (UB NullDeref)
    | Access_Error e \<Rightarrow> Inl (Exit 1)
    | Readable \<Rightarrow> if opened then Inr (content, 0) else Inl (Exit 1))"

definition get_token :: "Token list \<Rightarrow> int \<Rightarrow> Token option" where
  "get_token ts i = (if i < 0 then None else if i \<ge> int (length ts) then None else Some (ts ! nat i))"

section \<open>The parser\<close>

text \<open>The string a token points to, when it is read, and the pointer alone.\<close>

fun read_value :: "token_value \<Rightarrow> byte list res" where
  "read_value No_Value = Inl (UB NullDeref)"
| "read_value Unset = Inl (UB Uninitialised)"
| "read_value (Value s) = Inr s"

fun value_ptr :: "token_value \<Rightarrow> byte list option res" where
  "value_ptr No_Value = Inr None"
| "value_ptr Unset = Inl (UB Uninitialised)"
| "value_ptr (Value s) = Inr (Some (cstring s))"

definition entry_of :: "byte list \<Rightarrow> config_entry option" where
  "entry_of k = (if k = ''WATCH_FILE_EXT_NAMES'' then Some WATCH_FILE_EXT_NAMES
     else if k = ''IGNORE_FILES'' then Some IGNORE_FILES
     else if k = ''IGNORE_DIRS'' then Some IGNORE_DIRS else None)"

fun entry_array :: "config_entry \<Rightarrow> CmonConfig \<Rightarrow> CmonStringArray" where
  "entry_array WATCH_FILE_EXT_NAMES conf = watchExtNames conf"
| "entry_array IGNORE_FILES conf = ignoreFiles conf"
| "entry_array IGNORE_DIRS conf = ignoreDirs conf"

fun set_entry_array :: "config_entry \<Rightarrow> CmonStringArray \<Rightarrow> CmonConfig \<Rightarrow> CmonConfig" where
  "set_entry_array WATCH_FILE_EXT_NAMES a conf = conf\<lparr>watchExtNames := a\<rparr>"
| "set_entry_array IGNORE_FILES a conf = conf\<lparr>ignoreFiles := a\<rparr>"
| "set_entry_array IGNORE_DIRS a conf = conf\<lparr>ignoreDirs := a\<rparr>"

text \<open>
  A word of a block goes to the array of its entry; names of files and directories get the
  working directory in front. A \<open>NULL\<close> value ends the list of the parts that are joined.
\<close>

definition add_word ::
    "config_entry \<Rightarrow> token_value \<Rightarrow> CmonConfig \<Rightarrow> memory \<Rightarrow> (CmonConfig \<times> memory) res" where
  "add_word e v conf m =
     (if e = IGNORE_DIRS \<or> e = IGNORE_FILES then
        bindE (read_field (cwd conf)) (\<lambda>d. case d of
          None \<Rightarrow> Inl (UB NullDeref)
        | Some c \<Rightarrow>
            bindE (value_ptr v) (\<lambda>word.
            bindE (cmon_str_new_from_char_arrs (Some (s_string c)) (case word of None \<Rightarrow> [] | Some w \<Rightarrow> [w]) m)
              (\<lambda>(new_str, m1).
            Inr (set_entry_array e (the (snd (cmon_str_arr_add_from_str (Some (entry_array e conf)) new_str))) conf, m1))))
      else bindE (value_ptr v) (\<lambda>word.
           bindE (cmon_str_arr_add_new_char_arr (Some (entry_array e conf)) word m) (\<lambda>(r, a, m1).
           Inr (set_entry_array e (the a) conf, m1))))"

fun parser_loop ::
    "Token list \<Rightarrow> config_entry option \<Rightarrow> bool \<Rightarrow> CmonConfig \<Rightarrow> memory \<Rightarrow> (CmonConfig \<times> memory) res" where
  "parser_loop [] target in_block conf m = Inr (conf, m)"
| "parser_loop (cur # ts) target in_block conf m = (case t_type cur of
      TEXT \<Rightarrow> (case get_token ts 0 of
          None \<Rightarrow> Inl (UB NullDeref)
        | Some nxt \<Rightarrow>
            if t_type nxt = DOUBLE_COLON then
              bindE (read_value (t_value cur)) (\<lambda>k.
              parser_loop ts (case entry_of k of Some e \<Rightarrow> Some e | None \<Rightarrow> target) in_block conf m)
            else parser_loop ts target in_block conf m)
    | O_CURLY_BARACKET \<Rightarrow> parser_loop ts target True conf m
    | C_CURLY_BARACKET \<Rightarrow> parser_loop ts None False conf m
    | STRING \<Rightarrow> (case target of
          Some e \<Rightarrow>
            if in_block then
              bindE (add_word e (t_value cur) conf m) (\<lambda>(conf1, m1). parser_loop ts target in_block conf1 m1)
            else parser_loop ts target in_block conf m
        | None \<Rightarrow> parser_loop ts target in_block conf m)
    | _ \<Rightarrow> parser_loop ts target in_block conf m)"

definition config_parser :: "TokenArr option \<Rightarrow> CmonConfig \<Rightarrow> memory \<Rightarrow> (CmonConfig \<times> memory) res" where
  "config_parser arr conf m = (case arr of
      None \<Rightarrow> Inl (UB NullDeref)
    | Some a \<Rightarrow> parser_loop (tokenList a) None False conf m)"

text \<open>\<open>cmon_parse_config\<close>, the parser of the old format.\<close>

fun old_parser_loop ::
    "Token list \<Rightarrow> config_entry option \<Rightarrow> bool \<Rightarrow> CmonConfig \<Rightarrow> memory \<Rightarrow> (CmonConfig \<times> memory) res" where
  "old_parser_loop [] target in_block conf m = Inr (conf, m)"
| "old_parser_loop (cur # ts) target in_block conf m = (case t_type cur of
      TEXT \<Rightarrow> (case target of
          Some e \<Rightarrow>
            if in_block then
              bindE (add_word e (t_value cur) conf m) (\<lambda>(conf1, m1). old_parser_loop ts target in_block conf1 m1)
            else old_parser_loop ts target in_block conf m
        | None \<Rightarrow> old_parser_loop ts target in_block conf m)
    | CURLY_BARACKETS \<Rightarrow> bindE (read_value (t_value cur)) (\<lambda>s.
        if s \<noteq> [] \<and> s ! 0 = CHR ''{'' then
          (if \<not> in_block then old_parser_loop ts target True conf m else Inl (Exit 1))
        else if s \<noteq> [] \<and> s ! 0 = CHR ''}'' then old_parser_loop ts target False conf m
        else Inl (Exit 1))
    | DOUBLE_COLON \<Rightarrow> bindE (read_value (t_value cur)) (\<lambda>k. (case entry_of k of
          Some e \<Rightarrow> old_parser_loop ts (Some e) in_block conf m
        | None \<Rightarrow> Inl (Exit 1)))
    | _ \<Rightarrow> old_parser_loop ts target in_block conf m)"

definition cmon_parse_config ::
    "byte list \<Rightarrow> byte list \<Rightarrow> CmonConfig \<Rightarrow> memory \<Rightarrow> (CmonConfig \<times> memory) res" where
  "cmon_parse_config buf file conf m =
     bindE (cmon_tokenizer buf file m) (\<lambda>(arr, m1). (case arr of
         None \<Rightarrow> Inl (UB NullDeref)
       | Some a \<Rightarrow> old_parser_loop (tokenList a) None False conf m1))"

section \<open>Initialisation\<close>

text \<open>Neither the working directory nor the path of the file nor the token array is checked.\<close>

definition config_init ::
    "CmonConfig \<Rightarrow> byte list list \<Rightarrow> int \<Rightarrow> byte list option \<Rightarrow> access_rc \<Rightarrow> bool \<Rightarrow> byte list \<Rightarrow>
     byte list \<Rightarrow> memory \<Rightarrow> (CmonConfig \<times> memory) res" where
  "config_init conf args path_max dir acc opened content buf m =
     (if length args < 2 then Inl (Exit 1)
      else bindE (cmon_str_new (Some (cstring (args ! 1))) m) (\<lambda>(e, m1).
           bindE (get_cwd path_max dir m1) (\<lambda>(c, m2).
           let conf1 = conf\<lparr>exe := Written e, argv := Written (tl args), cwd := Written c\<rparr> in
           (case c of
              None \<Rightarrow> Inl (UB NullDeref)
            | Some c1 \<Rightarrow>
                bindE (cmon_str_new_from_char_arrs (Some (s_string c1)) [cstring ''.config.cmon''] m2) (\<lambda>(path, m3).
                if path = None then Inl (UB NullDeref)
                else bindE (config_open_file acc opened content) (\<lambda>(bs, pos).
                case token_arr_new m3 of (arr, m4) \<Rightarrow>
                bindE (config_tokenizer buf arr (drop pos bs) m4) (\<lambda>(arr1, m5).
                bindE (config_parser arr1 conf1 m5) (\<lambda>(conf2, m6).
                bindE (token_arr_free arr1) (\<lambda>_.
                Inr (conf2, m6))))))))))"

section \<open>Parsing the tokens of sections\<close>

definition entry_key :: "config_entry \<Rightarrow> byte list" where
  "entry_key e = (case e of WATCH_FILE_EXT_NAMES \<Rightarrow> ''WATCH_FILE_EXT_NAMES''
     | IGNORE_FILES \<Rightarrow> ''IGNORE_FILES'' | IGNORE_DIRS \<Rightarrow> ''IGNORE_DIRS'')"

lemma entry_of_key [simp]: "entry_of (entry_key e) = Some e"
  by (cases e) (simp_all add: entry_of_def entry_key_def)

lemma string_token_fields [simp]:
  "t_type (string_token w) = STRING" "t_value (string_token w) = Value w"
  by (simp_all add: string_token_def)

text \<open>The string that a word of an entry becomes, in the working directory \<open>c\<close>.\<close>

definition entry_string :: "byte list \<Rightarrow> config_entry \<Rightarrow> byte list \<Rightarrow> CmonString" where
  "entry_string c e w = cmon_string (if e = WATCH_FILE_EXT_NAMES then w else c @ w)"

lemma entry_array_set [simp]: "entry_array e (set_entry_array e a conf) = a"
  by (cases e) simp_all

lemma entry_array_set_other [simp]: "d \<noteq> e \<Longrightarrow> entry_array d (set_entry_array e a conf) = entry_array d conf"
  by (cases e; cases d) simp_all

lemma cwd_set_entry [simp]: "cwd (set_entry_array e a conf) = cwd conf"
  by (cases e) simp_all

lemma set_entry_array_twice [simp]:
  "set_entry_array e a (set_entry_array e b conf) = set_entry_array e a conf"
  by (cases e) simp_all

lemma set_entry_array_same [simp]: "set_entry_array e (entry_array e conf) conf = conf"
  by (cases e) simp_all

lemma set_entry_array_commute:
  "d \<noteq> e \<Longrightarrow> set_entry_array d a (set_entry_array e b conf) = set_entry_array e b (set_entry_array d a conf)"
  by (cases e; cases d) simp_all

lemma add_word_text:
  assumes "cwd conf = Written (Some (cmon_string c))" "text_ok c" "text_ok w" "w \<noteq> []"
    "length (c @ w) \<le> 257"
  shows "add_word e (Value w) conf [] =
     Inr (set_entry_array e (strs.add_or_keep (entry_string c e w) (entry_array e conf)) conf, [])"
proof (cases "e = WATCH_FILE_EXT_NAMES")
  case True
  obtain r where "cmon_str_arr_add_new_char_arr (Some (watchExtNames conf)) (Some (cstring w)) [] =
      Inr (r, Some (strs.add_or_keep (cmon_string w) (watchExtNames conf)), [])"
    using add_new_char_arr_keep [OF assms(3) _ assms(4), of "watchExtNames conf"] assms(5) by auto
  with True show ?thesis by (simp add: add_word_def entry_string_def)
next
  case False
  have "cmon_str_new_from_char_arrs (Some (cstring c)) [cstring w] [] = Inr (Some (cmon_string (c @ w)), [])"
    using new_from_char_arrs_text [of c "[w]"] assms by simp
  moreover have "e = IGNORE_DIRS \<or> e = IGNORE_FILES" using False by (cases e) auto
  ultimately show ?thesis
    using assms(1) False by (simp add: add_word_def entry_string_def cmon_string_def [of c] add_from_str_keep)
qed

lemma parser_strings:
  assumes "cwd conf = Written (Some (cmon_string c))" "text_ok c"
    "\<forall>w\<in>set ws. text_ok w \<and> w \<noteq> [] \<and> length (c @ w) \<le> 257"
  shows "parser_loop (map string_token ws @ rest) (Some e) True conf [] =
     parser_loop rest (Some e) True (set_entry_array e
       (fold strs.add_or_keep (map (entry_string c e) ws) (entry_array e conf)) conf) []"
  using assms
proof (induction ws arbitrary: conf)
  case (Cons w ws)
  let ?conf1 = "set_entry_array e (strs.add_or_keep (entry_string c e w) (entry_array e conf)) conf"
  have "add_word e (Value w) conf [] = Inr (?conf1, [])" using Cons.prems by (intro add_word_text) simp_all
  then have "parser_loop (map string_token (w # ws) @ rest) (Some e) True conf [] =
      parser_loop (map string_token ws @ rest) (Some e) True ?conf1 []"
    by simp
  also have "\<dots> = parser_loop rest (Some e) True (set_entry_array e
       (fold strs.add_or_keep (map (entry_string c e) ws) (entry_array e ?conf1)) ?conf1) []"
    using Cons.prems by (intro Cons.IH) simp_all
  finally show ?case by simp
qed simp

definition section_words :: "cfg_section \<Rightarrow> byte list list" where
  "section_words s = map snd (sec_items s)"

lemma parser_section:
  assumes "cwd conf = Written (Some (cmon_string c))" "text_ok c" "sec_key s = entry_key e"
    "\<forall>w\<in>set (section_words s). text_ok w \<and> w \<noteq> [] \<and> length (c @ w) \<le> 257"
  shows "parser_loop (section_tokens s @ rest) None False conf [] = parser_loop rest None False
     (set_entry_array e (fold strs.add_or_keep (map (entry_string c e) (section_words s))
        (entry_array e conf)) conf) []"
proof -
  have "section_tokens s @ rest = [\<lparr>t_type = TEXT, t_value = Value (entry_key e)\<rparr>,
     \<lparr>t_type = DOUBLE_COLON, t_value = No_Value\<rparr>, \<lparr>t_type = O_CURLY_BARACKET, t_value = No_Value\<rparr>] @
     map string_token (section_words s) @ \<lparr>t_type = C_CURLY_BARACKET, t_value = No_Value\<rparr> # rest"
    by (simp add: section_tokens_def section_words_def assms(3))
  then show ?thesis
    using parser_strings [OF assms(1,2,4), of "\<lparr>t_type = C_CURLY_BARACKET, t_value = No_Value\<rparr> # rest" e]
    by (simp add: get_token_def)
qed

text \<open>The words that the sections of a file give to an entry, in order.\<close>

definition words_of :: "config_entry \<Rightarrow> cfg_section list \<Rightarrow> byte list list" where
  "words_of e ss = concat (map section_words (filter (\<lambda>s. sec_key s = entry_key e) ss))"

lemma entry_key_eq [simp]: "entry_key d = entry_key e \<longleftrightarrow> d = e"
  by (cases d; cases e) (simp_all add: entry_key_def)

lemma parser_sections:
  assumes "cwd conf = Written (Some (cmon_string c))" "text_ok c" "\<forall>s\<in>set ss. \<exists>e. sec_key s = entry_key e"
    "\<forall>s\<in>set ss. \<forall>w\<in>set (section_words s). text_ok w \<and> w \<noteq> [] \<and> length (c @ w) \<le> 257"
  shows "\<exists>conf1. parser_loop (concat (map section_tokens ss)) None False conf [] = Inr (conf1, []) \<and>
     (\<forall>e. entry_array e conf1 =
        fold strs.add_or_keep (map (entry_string c e) (words_of e ss)) (entry_array e conf))"
  using assms
proof (induction ss arbitrary: conf)
  case Nil
  then show ?case by (simp add: words_of_def)
next
  case (Cons s ss)
  then obtain d where d: "sec_key s = entry_key d" by auto
  let ?conf1 = "set_entry_array d (fold strs.add_or_keep
    (map (entry_string c d) (section_words s)) (entry_array d conf)) conf"
  have "parser_loop (concat (map section_tokens (s # ss))) None False conf [] =
      parser_loop (concat (map section_tokens ss)) None False ?conf1 []"
    using parser_section [OF Cons.prems(1,2) d] Cons.prems(4) by simp
  moreover have "\<exists>conf2. parser_loop (concat (map section_tokens ss)) None False ?conf1 [] = Inr (conf2, []) \<and>
    (\<forall>e. entry_array e conf2 =
        fold strs.add_or_keep (map (entry_string c e) (words_of e ss)) (entry_array e ?conf1))"
    using Cons.prems by (intro Cons.IH) simp_all
  then obtain conf2 where "parser_loop (concat (map section_tokens ss)) None False ?conf1 [] = Inr (conf2, [])"
    "\<forall>e. entry_array e conf2 =
        fold strs.add_or_keep (map (entry_string c e) (words_of e ss)) (entry_array e ?conf1)"
    by blast
  moreover have "entry_array e ?conf1 = (if e = d
      then fold strs.add_or_keep (map (entry_string c e) (section_words s)) (entry_array e conf)
      else entry_array e conf)" for e by simp
  ultimately show ?case using d by (auto simp: words_of_def)
qed

text \<open>Read back from its text, a configuration has the words of its sections, up to 50 each.\<close>

lemma config_read_back:
  assumes "\<forall>s\<in>set ss. section_ok s \<and> (\<exists>e. sec_key s = entry_key e)"
    "length (concat (map section_tokens ss)) \<le> MAX_TOKENS" "length buf = MAX_LEXEM_LEN"
    "cwd conf = Written (Some (cmon_string c))" "text_ok c"
    "\<forall>s\<in>set ss. \<forall>w\<in>set (section_words s). length (c @ w) \<le> 257"
    "\<forall>e. entry_array e conf = []"
  shows "\<exists>arr conf1. config_tokenizer buf (fst (token_arr_new [])) (concat (map render_section ss)) [] = Inr (arr, []) \<and>
     config_parser arr conf [] = Inr (conf1, []) \<and> token_arr_free arr = Inr () \<and>
     (\<forall>e. entry_array e conf1 =
        take INITIAL_ARRAY_SIZE (map (entry_string c e) (words_of e ss)))"
proof -
  let ?arr = "Some \<lparr>tokenList = concat (map section_tokens ss), next_set = True\<rparr>"
  have arr: "config_tokenizer buf (fst (token_arr_new [])) (concat (map render_section ss)) [] = Inr (?arr, [])"
    using tokenizer_render [OF _ assms(2,3)] assms(1) by blast
  have "\<forall>s\<in>set ss. \<forall>w\<in>set (section_words s). text_ok w \<and> w \<noteq> [] \<and> length (c @ w) \<le> 257"
    using assms(1,6) word_ok_text by (auto simp: section_ok_def section_words_def word_ok_def text_ok_def)
  then obtain conf1 where conf1: "parser_loop (concat (map section_tokens ss)) None False conf [] = Inr (conf1, [])"
    "\<forall>e. entry_array e conf1 =
        fold strs.add_or_keep (map (entry_string c e) (words_of e ss)) (entry_array e conf)"
    using parser_sections [OF assms(4,5)] assms(1) by blast
  have "token_arr_free ?arr = Inr ()"
    by (auto simp: token_arr_free_def section_tokens_def string_token_def)
  moreover have "entry_array e conf1 =
      take INITIAL_ARRAY_SIZE (map (entry_string c e) (words_of e ss))" for e
    using conf1(2) assms(7) strs.add_all [of "[]" "map (entry_string c e) (words_of e ss)"]
    by simp
  ultimately show ?thesis using arr conf1(1) by (auto simp: config_parser_def)
qed

section \<open>What the parser keeps\<close>

text \<open>Every array of the configuration has at most 50 strings.\<close>

definition config_ok :: "CmonConfig \<Rightarrow> bool" where
  "config_ok conf \<longleftrightarrow> (\<forall>e. length (entry_array e conf) \<le> INITIAL_ARRAY_SIZE)"

text \<open>One configuration extends another: strings are only added at the end of the arrays.\<close>

definition extends :: "CmonConfig \<Rightarrow> CmonConfig \<Rightarrow> bool" where
  "extends conf conf1 \<longleftrightarrow> cwd conf1 = cwd conf \<and> exe conf1 = exe conf \<and> argv conf1 = argv conf \<and> conf_argc conf1 = conf_argc conf \<and>
     (\<forall>e. prefix (entry_array e conf) (entry_array e conf1))"

lemma extends_refl [simp]: "extends conf conf"
  by (simp add: extends_def)

lemma extends_trans: "extends a b \<Longrightarrow> extends b c \<Longrightarrow> extends a c"
  by (auto simp: extends_def intro: prefix_order.trans)

lemma set_entry_fields [simp]:
  "exe (set_entry_array e a conf) = exe conf" "argv (set_entry_array e a conf) = argv conf"
  "conf_argc (set_entry_array e a conf) = conf_argc conf"
  by (cases e; simp)+

lemma entry_array_after_set:
  "entry_array d (set_entry_array e a conf) = (if d = e then a else entry_array d conf)"
  by simp

lemma set_entry_extends:
  assumes "config_ok conf" "prefix (entry_array e conf) a" "length a \<le> INITIAL_ARRAY_SIZE"
  shows "config_ok (set_entry_array e a conf) \<and> extends conf (set_entry_array e a conf)"
  using assms by (auto simp: config_ok_def extends_def entry_array_after_set)

lemma add_word_extends:
  assumes "config_ok conf" "add_word e v conf m = Inr (conf1, m1)"
  shows "config_ok conf1 \<and> extends conf conf1"
proof -
  have len: "length (entry_array e conf) \<le> INITIAL_ARRAY_SIZE" using assms(1) by (simp add: config_ok_def)
  have set: "config_ok conf1 \<and> extends conf conf1"
    if "conf1 = set_entry_array e (the a) conf" "a = Some (entry_array e conf) \<or>
      (\<exists>s. a = Some (entry_array e conf @ [s]) \<and> length (entry_array e conf) < INITIAL_ARRAY_SIZE)" for a
    using set_entry_extends [OF assms(1)] len that assms(1) by auto
  show ?thesis
  proof (cases "e = IGNORE_DIRS \<or> e = IGNORE_FILES")
    case True
    with assms(2) obtain s where
      "conf1 = set_entry_array e (the (snd (cmon_str_arr_add_from_str (Some (entry_array e conf)) s))) conf"
      by (auto simp: add_word_def bindE_eq_Inr split: option.splits)
    then show ?thesis by (rule set) (metis add_from_str_cases prod.collapse)
  next
    case False
    with assms(2) obtain s r a where
      "cmon_str_arr_add_new_char_arr (Some (entry_array e conf)) s m = Inr (r, a, m1)"
      "conf1 = set_entry_array e (the a) conf"
      by (auto simp: add_word_def bindE_eq_Inr)
    then show ?thesis by (intro set) (auto elim: add_new_char_arr_cases)
  qed
qed

lemma parser_extends:
  "config_ok conf \<Longrightarrow> parser_loop ts target b conf m = Inr (conf1, m1) \<Longrightarrow> config_ok conf1 \<and> extends conf conf1"
proof (induction ts arbitrary: target b conf m)
  case (Cons t ts)
  have step: "config_ok conf1 \<and> extends conf conf1" if "parser_loop ts target1 b1 conf m = Inr (conf1, m1)"
    for target1 b1 using Cons.IH [OF Cons.prems(1) that] .
  have word: "config_ok conf1 \<and> extends conf conf1"
    if "add_word e v conf m = Inr (conf2, m2)" "parser_loop ts target1 b1 conf2 m2 = Inr (conf1, m1)"
    for e v conf2 m2 target1 b1
    using add_word_extends [OF Cons.prems(1) that(1)] Cons.IH [OF _ that(2)] extends_trans by blast
  show ?case
    using Cons.prems(2) step word
    by (auto simp: bindE_eq_Inr split: token_type.splits option.splits if_splits)
qed simp

text \<open>A text as the last token is never parsed: there is no token behind it to look at.\<close>

lemma parser_trailing_text:
  "t_type t = TEXT \<Longrightarrow> parser_loop (ts @ [t]) target b conf m \<noteq> Inr r"
proof (induction ts arbitrary: target b conf m)
  case Nil
  then show ?case by (simp add: get_token_def)
next
  case (Cons u ts)
  have "parser_loop (ts @ [t]) target1 b1 conf2 m2 \<noteq> Inr r" for target1 b1 conf2 m2
    using Cons.IH [OF Cons.prems] .
  then show ?case
    by (cases r) (auto simp: bindE_eq_Inr split: token_type.splits option.splits if_splits)
qed

section \<open>The working directory\<close>

definition cwd_fits :: "int \<Rightarrow> byte list \<Rightarrow> bool" where
  "cwd_fits path_max d \<longleftrightarrow> 0 \<le> path_max \<and> int (length d) < min path_max 10240"

lemma get_cwd_memory:
  assumes "cwd_fits path_max d" "text_ok d" "length d \<le> 257"
  shows "get_cwd path_max (Some d) m = try_alloc m (\<lambda>m1. Inr (None, m1)) (\<lambda>m1.
     try_alloc m1 (\<lambda>m2. Inr (None, m2)) (\<lambda>m2. try_alloc m2 (\<lambda>m3. Inr (None, m3)) (\<lambda>m3.
       Inr (Some (cmon_string (d @ ''/'')), m3))))"
  using assms new_from_char_arrs_memory [of d "[''/'']"]
  by (auto simp: get_cwd_def cwd_fits_def NUL_def Let_def)

lemma get_cwd_text:
  assumes "cwd_fits path_max d" "text_ok d" "length d \<le> 257"
  shows "get_cwd path_max (Some d) [] = Inr (Some (cmon_string (d @ ''/'')), [])"
  by (simp add: get_cwd_memory [OF assms])

lemma get_cwd_too_long:
  assumes "cwd_fits path_max d" "text_ok d" "257 < length d"
  shows "get_cwd path_max (Some d) [] = Inl (UB OutOfBounds)"
  using assms new_from_char_arrs_long [of d "[''/'']"]
  by (auto simp: get_cwd_def cwd_fits_def NUL_def Let_def)

text \<open>The path of the configuration file.\<close>

lemma config_path_memory:
  assumes "text_ok d" "length d \<le> 256"
  shows "cmon_str_new_from_char_arrs (Some (s_string (cmon_string (d @ ''/'')))) [cstring ''.config.cmon''] m =
     try_alloc m (\<lambda>m1. Inr (None, m1)) (\<lambda>m1. try_alloc m1 (\<lambda>m2. Inr (None, m2)) (\<lambda>m2.
       Inr (Some (cmon_string (concat [d @ ''/'', ''.config.cmon''])), m2)))"
  using assms new_from_char_arrs_memory [of "d @ ''/''" "[''.config.cmon'']"]
  by (simp add: NUL_def cmon_string_def [of "d @ ''/''"])

text \<open>What \<open>config_init\<close> does before it opens the file.\<close>

lemma config_init_open:
  assumes "2 \<le> length args" "text_ok (args ! 1)" "length (args ! 1) \<le> 257"
    "cwd_fits path_max d" "text_ok d" "length d \<le> 256"
  shows "config_init conf args path_max (Some d) acc opened content buf [] =
     bindE (config_open_file acc opened content) (\<lambda>(bs, pos).
     bindE (config_tokenizer buf (fst (token_arr_new [])) (drop pos bs) []) (\<lambda>(arr, m1).
     bindE (config_parser arr (conf\<lparr>exe := Written (Some (cmon_string (args ! 1))), argv := Written (tl args),
        cwd := Written (Some (cmon_string (d @ ''/'')))\<rparr>) m1) (\<lambda>(conf2, m2).
     bindE (token_arr_free arr) (\<lambda>_. Inr (conf2, m2)))))"
  using assms cmon_str_new_text get_cwd_text
  by (simp add: config_init_def config_path_memory token_arr_new_def split_def)

text \<open>
  Where the requests of \<open>config_init\<close> go: two for the program's name, three for the working
  directory, two for the path, one for the token array.
\<close>

lemma config_init_refused:
  assumes "2 \<le> length args" "text_ok (args ! 1)" "length (args ! 1) \<le> 257"
    "cwd_fits path_max d" "text_ok d" "length d \<le> 256" "k < 5"
  shows "config_init conf args path_max (Some d) acc opened content buf ([True, True] @ replicate k True @ False # m) =
     Inl (UB NullDeref)"
proof -
  have "k = 0 \<or> k = 1 \<or> k = 2 \<or> k = 3 \<or> k = 4" using assms(7) by auto
  then show ?thesis
    using assms
    by (elim disjE) (simp_all add: config_init_def cmon_str_new_memory get_cwd_memory config_path_memory
        numeral_eq_Suc)
qed

lemma argv_loop_runs:
  "i + length as \<le> length arr \<Longrightarrow>
   argv_loop as i arr = Inr (i + length as, blit arr i (map (\<lambda>a. Written (Some a)) as))"
proof (induction as arbitrary: i arr)
  case (Cons a as)
  then show ?case using blit_upd [of i arr "Written (Some a)" "map (\<lambda>a. Written (Some a)) as"] by simp
qed simp

lemma argv_loop_overflow:
  "length arr < i + length as \<Longrightarrow> i \<le> length arr \<Longrightarrow> argv_loop as i arr = Inl (UB OutOfBounds)"
  by (induction as arbitrary: i arr) auto

lemma default_sections_ok:
  "\<forall>s\<in>set default_sections. section_ok s \<and> (\<exists>e. sec_key s = entry_key e)"
proof -
  have "\<exists>e. sec_key s = entry_key e" if "s \<in> set default_sections" for s
    using that by (auto simp: default_sections_def entry_key_def
        intro: exI [of _ WATCH_FILE_EXT_NAMES] exI [of _ IGNORE_FILES] exI [of _ IGNORE_DIRS])
  moreover have "list_all section_ok default_sections" by code_simp
  ultimately show ?thesis by (simp add: list_all_iff)
qed

lemma default_nonempty: "default_sections \<noteq> []"
  by (simp add: default_sections_def)

lemma default_tokens: "length (concat (map section_tokens default_sections)) = 20"
  by (simp add: default_sections_def section_tokens_def)

text \<open>The configuration before the file is read: the names are set, the arrays are empty.\<close>

definition named_config :: "CmonString option \<Rightarrow> byte list list \<Rightarrow> byte list \<Rightarrow> CmonConfig" where
  "named_config e args c =
     new_config\<lparr>exe := Written e, argv := Written args, cwd := Written (Some (cmon_string c))\<rparr>"

lemma named_config_fields [simp]:
  "exe (named_config e args c) = Written e" "argv (named_config e args c) = Written args"
  "cwd (named_config e args c) = Written (Some (cmon_string c))" "entry_array x (named_config e args c) = []"
  by (cases x; simp add: named_config_def new_config_def)+

lemma parser_from_named:
  assumes "\<forall>s\<in>set ss. section_ok s \<and> (\<exists>e. sec_key s = entry_key e)"
    "length (concat (map section_tokens ss)) \<le> MAX_TOKENS" "length buf = MAX_LEXEM_LEN" "text_ok c"
    "\<forall>s\<in>set ss. \<forall>w\<in>set (section_words s). length (c @ w) \<le> 257"
  shows "\<exists>arr conf1. config_tokenizer buf (fst (token_arr_new [])) (concat (map render_section ss)) [] = Inr (arr, []) \<and>
     config_parser arr (named_config e args c) [] = Inr (conf1, []) \<and> token_arr_free arr = Inr () \<and>
     exe conf1 = Written e \<and> argv conf1 = Written args \<and> cwd conf1 = Written (Some (cmon_string c)) \<and>
     (\<forall>x. entry_array x conf1 = take INITIAL_ARRAY_SIZE (map (entry_string c x) (words_of x ss)))"
proof -
  let ?conf = "named_config e args c"
  obtain arr conf1 where
    t: "config_tokenizer buf (fst (token_arr_new [])) (concat (map render_section ss)) [] = Inr (arr, [])" and
    p: "config_parser arr ?conf [] = Inr (conf1, [])" and f: "token_arr_free arr = Inr ()" and
    e: "\<forall>x. entry_array x conf1 = take INITIAL_ARRAY_SIZE (map (entry_string c x) (words_of x ss))"
    using config_read_back [OF assms(1-3), of ?conf c] assms(4,5) by auto
  have "extends ?conf conf1"
    using parser_extends [of ?conf _ _ _ _ conf1] p
    by (auto simp: config_parser_def config_ok_def split: option.splits)
  then show ?thesis using t p f e by (auto simp: extends_def)
qed

lemma config_init_sections:
  assumes "2 \<le> length args" "text_ok (args ! 1)" "length (args ! 1) \<le> 257"
    "cwd_fits path_max d" "text_ok d" "length d \<le> 256" "length buf = MAX_LEXEM_LEN"
    "\<forall>s\<in>set ss. section_ok s \<and> (\<exists>e. sec_key s = entry_key e)"
    "length (concat (map section_tokens ss)) \<le> MAX_TOKENS"
    "\<forall>s\<in>set ss. \<forall>w\<in>set (section_words s). length ((d @ ''/'') @ w) \<le> 257"
  shows "\<exists>conf. config_init new_config args path_max (Some d) Readable True (concat (map render_section ss)) buf [] = Inr (conf, []) \<and>
     exe conf = Written (Some (cmon_string (args ! 1))) \<and> argv conf = Written (tl args) \<and>
     cwd conf = Written (Some (cmon_string (d @ ''/''))) \<and>
     (\<forall>e. entry_array e conf =
        take INITIAL_ARRAY_SIZE (map (entry_string (d @ ''/'') e) (words_of e ss)))"
proof -
  have "text_ok (d @ ''/'')" using assms(5) by (simp add: NUL_def)
  from parser_from_named [OF assms(8,9,7) this assms(10), of "Some (cmon_string (args ! 1))" "tl args"]
  show ?thesis
    using config_init_open [OF assms(1-6), of new_config Readable True "concat (map render_section ss)" buf]
    by (auto simp: config_open_file_def named_config_def [symmetric])
qed

text \<open>When the name of the program cannot be allocated the initialisation goes on without it.\<close>

lemma config_init_without_name:
  assumes "2 \<le> length args" "text_ok (args ! 1)" "length (args ! 1) \<le> 257"
    "cwd_fits path_max d" "text_ok d" "length d \<le> 256" "ms = [False] \<or> ms = [True, False]"
  shows "config_init conf args path_max (Some d) acc opened content buf ms =
     bindE (config_open_file acc opened content) (\<lambda>(bs, pos).
     bindE (config_tokenizer buf (fst (token_arr_new [])) (drop pos bs) []) (\<lambda>(arr, m1).
     bindE (config_parser arr (conf\<lparr>exe := Written None, argv := Written (tl args),
        cwd := Written (Some (cmon_string (d @ ''/'')))\<rparr>) m1) (\<lambda>(conf2, m2).
     bindE (token_arr_free arr) (\<lambda>_. Inr (conf2, m2)))))"
  using assms get_cwd_text
  by (elim disjE) (simp_all add: config_init_def cmon_str_new_memory config_path_memory token_arr_new_def split_def)

section \<open>Properties\<close>

text \<open>
  C6. In a working directory of at most 256 bytes, initialising from a file whose text is that of
  a list of sections gives a configuration with the program and its arguments, the directory with
  a slash behind it, and in each array the words of its sections in order, file and directory
  names with the directory in front, the first 50 of them.
\<close>

theorem config_init_reads_file:
  assumes "2 \<le> length args" "text_ok (args ! 1)" "length (args ! 1) \<le> 257"
    "cwd_fits path_max d" "text_ok d" "length d \<le> 256" "length buf = MAX_LEXEM_LEN"
    "\<forall>s\<in>set ss. section_ok s \<and> (\<exists>e. sec_key s = entry_key e)"
    "length (concat (map section_tokens ss)) \<le> MAX_TOKENS"
    "\<forall>s\<in>set ss. \<forall>w\<in>set (section_words s). length ((d @ ''/'') @ w) \<le> 257"
  shows "\<exists>conf. config_init new_config args path_max (Some d) Readable True (concat (map render_section ss)) buf [] = Inr (conf, []) \<and>
     exe conf = Written (Some (cmon_string (args ! 1))) \<and> argv conf = Written (tl args) \<and>
     cwd conf = Written (Some (cmon_string (d @ ''/''))) \<and>
     (\<forall>e. entry_array e conf =
        take INITIAL_ARRAY_SIZE (map (entry_string (d @ ''/'') e) (words_of e ss)))"
  using assms by (rule config_init_sections)

lemma default_short:
  "\<forall>s\<in>set default_sections. \<forall>w\<in>set (section_words s). length ((''/w'' @ ''/'') @ w) \<le> 257"
proof -
  have "list_all (\<lambda>s. list_all (\<lambda>w. length ((''/w'' @ ''/'') @ w) \<le> 257) (section_words s)) default_sections"
    by code_simp
  then show ?thesis by (simp only: list_all_iff)
qed

theorem config_init_reads_file_witness:
  "\<exists>conf. config_init new_config [''cmon'', ''go'', ''run''] 4096 (Some ''/w'') Readable True
       (concat (map render_section default_sections)) (replicate 100 NUL) [] = Inr (conf, []) \<and>
     watchExtNames conf = map cmon_string [''html'', ''css''] \<and>
     ignoreFiles conf = map cmon_string [''/w/.gitignore'', ''/w/c000mand1.go'']"
proof -
  have words: "words_of WATCH_FILE_EXT_NAMES default_sections = [''html'', ''css'']"
    "words_of IGNORE_FILES default_sections = [''.gitignore'', ''c000mand1.go'']"
    by code_simp+
  have "\<exists>conf. config_init new_config [''cmon'', ''go'', ''run''] 4096 (Some ''/w'') Readable True
       (concat (map render_section default_sections)) (replicate 100 NUL) [] = Inr (conf, []) \<and>
     exe conf = Written (Some (cmon_string ([''cmon'', ''go'', ''run''] ! 1))) \<and>
     argv conf = Written (tl [''cmon'', ''go'', ''run'']) \<and>
     cwd conf = Written (Some (cmon_string (''/w'' @ ''/''))) \<and>
     (\<forall>e. entry_array e conf =
        take INITIAL_ARRAY_SIZE (map (entry_string (''/w'' @ ''/'') e) (words_of e default_sections)))"
    by (rule config_init_reads_file [OF _ _ _ _ _ _ _ default_sections_ok _ default_short])
      (simp_all add: default_tokens MAX_TOKENS_def MAX_LEXEM_LEN_def NUL_def cwd_fits_def)
  then obtain conf where c: "config_init new_config [''cmon'', ''go'', ''run''] 4096 (Some ''/w'') Readable True
       (concat (map render_section default_sections)) (replicate 100 NUL) [] = Inr (conf, [])"
    "\<forall>e. entry_array e conf =
        take INITIAL_ARRAY_SIZE (map (entry_string (''/w'' @ ''/'') e) (words_of e default_sections))"
    by blast
  from c(2) [rule_format, of WATCH_FILE_EXT_NAMES] c(2) [rule_format, of IGNORE_FILES] c(1) show ?thesis
    by (simp add: words INITIAL_ARRAY_SIZE_def entry_string_def)
qed

text \<open>
  C37. When there is no configuration file, one with the default text is written and then read from
  its end on: the first run watches with empty lists, and when the file cannot be created the
  write goes through a null stream. A directory of 257 bytes or more overflows a buffer before.
\<close>

theorem config_init_first_run:
  assumes "2 \<le> length args" "text_ok (args ! 1)" "length (args ! 1) \<le> 257"
    "cwd_fits path_max d" "text_ok d"
  shows "config_init new_config args path_max (Some d) Missing opened content buf [] =
     (if 256 < length d then Inl (UB OutOfBounds)
      else if \<not> opened then Inl (UB NullDeref)
      else Inr (named_config (Some (cmon_string (args ! 1))) (tl args) (d @ ''/''), []))"
proof (cases "256 < length d")
  case True
  have "cmon_str_new_from_char_arrs (Some (cstring (d @ ''/''))) (map cstring [''.config.cmon'']) [] =
      Inl (UB OutOfBounds)"
    using assms(5) True by (intro new_from_char_arrs_long) (simp_all add: NUL_def)
  moreover have "get_cwd path_max (Some d) [] =
      (if 257 < length d then Inl (UB OutOfBounds) else Inr (Some (cmon_string (d @ ''/'')), []))"
    using get_cwd_too_long [OF assms(4,5)] get_cwd_text [OF assms(4,5)] by simp
  ultimately show ?thesis
    using assms(1) True cmon_str_new_text [OF assms(2,3)]
    by (simp add: config_init_def Let_def cmon_string_def [of "d @ ''/''"])
next
  case False
  then show ?thesis
    using config_init_open [OF assms]
    by (simp add: config_open_file_def config_tokenizer_def lexer_init_def config_parser_def
        token_arr_new_def token_arr_free_def named_config_def)
qed

theorem config_init_first_run_witness:
  "config_init new_config [''cmon'', ''go''] 4096 (Some ''/w'') Missing True [] (replicate 100 NUL) [] =
     Inr (named_config (Some (cmon_string ''go'')) [''go''] ''/w/'', [])"
  using config_init_first_run [of "[''cmon'', ''go'']" 4096 "''/w''" True "[]" "replicate 100 NUL"]
  by (simp add: NUL_def cwd_fits_def)

text \<open>
  C29. What a refusal of each of the first nine requests of \<open>config_new\<close> and \<open>config_init\<close> does. The
  first is for the configuration, and its refusal alone is noticed: the program ends. The next two
  are for the program's name: refused, the configuration is read all the same and has no program
  to start. The other six are for the working directory (three), the path of the configuration file
  (two) and the token array (one): the \<open>NULL\<close> is used without a check, whatever comes after it.
\<close>

theorem config_init_out_of_memory:
  assumes "2 \<le> length args" "text_ok (args ! 1)" "length (args ! 1) \<le> 257"
    "cwd_fits path_max d" "text_ok d" "length d \<le> 256" "length buf = MAX_LEXEM_LEN"
    "\<forall>s\<in>set ss. section_ok s \<and> (\<exists>e. sec_key s = entry_key e)" "ss \<noteq> []"
    "length (concat (map section_tokens ss)) \<le> MAX_TOKENS"
    "\<forall>s\<in>set ss. \<forall>w\<in>set (section_words s). length ((d @ ''/'') @ w) \<le> 257"
    "start = (\<lambda>ms. bindE (config_new ms) (\<lambda>(conf, m1).
       config_init conf args path_max (Some d) Readable True (concat (map render_section ss)) buf m1))"
  shows "start (False # m) = Inl (Exit 1) \<and>
     (\<forall>k\<in>{1, 2}. \<exists>conf. start (replicate k True @ [False]) = Inr (conf, []) \<and> exe conf = Written None \<and>
       (\<forall>e. entry_array e conf =
          take INITIAL_ARRAY_SIZE (map (entry_string (d @ ''/'') e) (words_of e ss)))) \<and>
     (\<forall>k\<in>{3..8}. start (replicate k True @ False # m) = Inl (UB NullDeref))"
proof (intro conjI ballI)
  show "start (False # m) = Inl (Exit 1)" by (simp add: assms(12) config_new_def)
next
  fix k :: nat assume k: "k \<in> {1, 2}"
  then have "replicate k True @ [False] = True # (if k = 1 then [False] else [True, False])" by (auto simp: numeral_2_eq_2)
  then have run: "start (replicate k True @ [False]) = config_init new_config args path_max (Some d) Readable True
      (concat (map render_section ss)) buf (if k = 1 then [False] else [True, False])"
    by (simp add: assms(12) config_new_def)
  have "text_ok (d @ ''/'')" using assms(5) by (simp add: NUL_def)
  from parser_from_named [OF assms(8,10,7) this assms(11), of None "tl args"]
  show "\<exists>conf. start (replicate k True @ [False]) = Inr (conf, []) \<and> exe conf = Written None \<and>
       (\<forall>e. entry_array e conf = take INITIAL_ARRAY_SIZE (map (entry_string (d @ ''/'') e) (words_of e ss)))"
    unfolding run
    using config_init_without_name [OF assms(1-6), of "if k = 1 then [False] else [True, False]" new_config Readable True
        "concat (map render_section ss)" buf]
    by (auto simp: config_open_file_def named_config_def [symmetric])
next
  fix k :: nat assume "k \<in> {3..8}"
  then obtain j where j: "k = Suc (Suc (Suc j))" "j < 6" by (intro that [of "k - 3"]) auto
  then have run: "start (replicate k True @ False # m) = config_init new_config args path_max (Some d) Readable True
      (concat (map render_section ss)) buf ([True, True] @ replicate j True @ False # m)"
    by (simp add: assms(12) config_new_def)
  consider "j < 5" | "j = 5" using j(2) by linarith
  then show "start (replicate k True @ False # m) = Inl (UB NullDeref)"
  proof cases
    case 1
    then show ?thesis unfolding run using config_init_refused [OF assms(1-6)] by simp
  next
    case 2
    have "config_tokenizer buf None (concat (map render_section ss)) m = Inl (UB NullDeref)"
      using assms(7,8,9) by (intro tokenizer_no_array) auto
    then show ?thesis
      unfolding run using 2 assms(1-6)
      by (simp add: config_init_def cmon_str_new_memory get_cwd_memory config_path_memory token_arr_new_def
          config_open_file_def numeral_eq_Suc)
  qed
qed

theorem config_init_out_of_memory_witness:
  "config_init new_config [''cmon'', ''go''] 4096 (Some ''/w'') Readable True
     (concat (map render_section default_sections)) (replicate 100 NUL) [True, True, True, True, False] = Inl (UB NullDeref)"
proof -
  let ?start = "\<lambda>ms. bindE (config_new ms) (\<lambda>(conf, m1). config_init conf [''cmon'', ''go''] 4096 (Some ''/w'') Readable True
      (concat (map render_section default_sections)) (replicate 100 NUL) m1)"
  have "\<forall>k\<in>{3..8}. ?start (replicate k True @ False # []) = Inl (UB NullDeref)"
    by (rule config_init_out_of_memory [OF _ _ _ _ _ _ _ default_sections_ok default_nonempty _ default_short refl,
          THEN conjunct2, THEN conjunct2])
      (simp_all add: default_tokens MAX_TOKENS_def MAX_LEXEM_LEN_def NUL_def cwd_fits_def)
  then have "?start (replicate 5 True @ [False]) = Inl (UB NullDeref)" by simp
  then show ?thesis by (simp add: config_new_def numeral_eq_Suc)
qed

text \<open>
  C18. Whatever the allocator answers, the parser only adds strings at the ends of the arrays and
  never more than fit: each has at most 50 afterwards, and the working directory, the program and
  its arguments stay. It returns only when the last token is not a text.
\<close>

theorem config_parser_bounds:
  assumes "\<forall>e. length (entry_array e conf) \<le> 50" "config_parser (Some arr) conf m = Inr (conf1, m1)"
  shows "(\<forall>e. length (entry_array e conf1) \<le> 50 \<and> prefix (entry_array e conf) (entry_array e conf1)) \<and>
     cwd conf1 = cwd conf \<and> exe conf1 = exe conf \<and> argv conf1 = argv conf \<and>
     (tokenList arr \<noteq> [] \<longrightarrow> t_type (last (tokenList arr)) \<noteq> TEXT)"
proof -
  have run: "parser_loop (tokenList arr) None False conf m = Inr (conf1, m1)"
    using assms(2) by (simp add: config_parser_def)
  have "config_ok conf1 \<and> extends conf conf1"
    using parser_extends [OF _ run] assms(1) by (simp add: config_ok_def INITIAL_ARRAY_SIZE_def)
  moreover have "tokenList arr \<noteq> [] \<longrightarrow> t_type (last (tokenList arr)) \<noteq> TEXT"
    using parser_trailing_text [of "last (tokenList arr)" "butlast (tokenList arr)"] run by fastforce
  ultimately show ?thesis by (simp add: config_ok_def extends_def INITIAL_ARRAY_SIZE_def)
qed

text \<open>The second string of the second block is lost to a refused allocation.\<close>

theorem config_parser_bounds_witness:
  "\<exists>arr conf1. config_parser (Some arr) (named_config None [] ''/'') (replicate 6 True @ [False]) = Inr (conf1, []) \<and>
     length (tokenList arr) = 20 \<and> length (ignoreFiles conf1) \<le> 50 \<and> length (ignoreFiles conf1) = 1"
proof -
  let ?conf = "named_config None [] ''/''"
  let ?arr = "\<lparr>tokenList = concat (map section_tokens default_sections), next_set = True\<rparr>"
  let ?run = "config_parser (Some ?arr) ?conf (replicate 6 True @ [False])"
  have "map_sum id (map_prod (\<lambda>c. length (ignoreFiles c)) id) ?run = Inr (1, [])" by code_simp
  then obtain c where c: "?run = Inr (c, [])" "length (ignoreFiles c) = 1"
    by (cases ?run) (auto simp: map_prod_def split: prod.splits)
  have "\<forall>e. length (entry_array e ?conf) \<le> 50" by code_simp
  then have "length (entry_array IGNORE_FILES c) \<le> 50" using config_parser_bounds [OF _ c(1)] by blast
  with c default_tokens show ?thesis by (intro exI [of _ ?arr] exI [of _ c]) simp
qed

text \<open>
  The parser of the old format never changes the configuration: its tokenizer stops at the
  first token, because the token array it allocates has no position to write to.
\<close>

theorem cmon_parse_config_never_parses:
  assumes "cmon_parse_config buf file conf m = Inr (conf1, m1)"
  shows "conf1 = conf"
  using assms cmon_tokenizer_no_tokens [of buf "file" m]
  by (auto simp: cmon_parse_config_def bindE_eq_Inr split: option.splits)

theorem cmon_parse_config_never_parses_witness:
  "\<exists>conf1. cmon_parse_config (replicate 100 NUL) ''abc'' new_config [] = Inr (conf1, []) \<and> conf1 = new_config"
proof -
  have "map_sum id snd (cmon_parse_config (replicate 100 NUL) ''abc'' new_config []) = Inr []"
    by code_simp
  then obtain c where "cmon_parse_config (replicate 100 NUL) ''abc'' new_config [] = Inr (c, [])"
    by (cases "cmon_parse_config (replicate 100 NUL) ''abc'' new_config []") auto
  then show ?thesis using cmon_parse_config_never_parses by blast
qed

text \<open>
  Of the arguments of the command line the array of the command takes the first nine behind the
  program; with one more the closing \<open>NULL\<close>, and then the arguments themselves, are written
  behind the array.
\<close>

theorem cmon_parse_argv_bounds:
  "cmon_parse_argv args [] =
     (if length args < 2 then Inl (Exit 1)
      else if 10 < length args then Inl (UB OutOfBounds)
      else Inr (Some \<lparr>cmd_exe = Some (args ! 1), cmd_process_name = Some ''Juan Pablo Segundo'', cmd_argc = Unwritten,
        cmd_argv = Written (Some ''Juan Pablo Segundo'') # map (\<lambda>a. Written (Some a)) (drop 2 args) @
          Written None # replicate (10 - length args) Unwritten\<rparr>, []))"
proof -
  let ?f = "\<lambda>a. Written (Some a)"
  let ?arr = "(replicate 10 Unwritten)[0 := Written (Some ''Juan Pablo Segundo'')]"
  have arr: "?arr = Written (Some ''Juan Pablo Segundo'') # replicate 9 Unwritten"
    by (simp add: numeral_eq_Suc)
  consider "length args < 2" | "2 \<le> length args" "length args \<le> 10" | "length args = 11" | "11 < length args"
    by linarith
  then show ?thesis
  proof cases
    case 2
    then obtain x y as where args: "args = x # y # as" by (metis One_nat_def Suc_le_length_iff numeral_2_eq_2)
    then have len: "length as \<le> 8" using 2 by simp
    have rep: "replicate (9 - length as) Unwritten = Unwritten # replicate (8 - length as) (Unwritten :: byte list option field)"
      using len by (simp add: Suc_diff_le flip: replicate_Suc)
    have "argv_loop as 1 ?arr = Inr (Suc (length as), Written (Some ''Juan Pablo Segundo'') #
        map ?f as @ replicate (9 - length as) Unwritten)"
      using argv_loop_runs [of 1 as ?arr] len by (simp add: arr blit_def)
    moreover have "(map ?f as @ Unwritten # r)[length as := Written None] = map ?f as @ Written None # r" for r
      using list_update_length [of "map ?f as" Unwritten r "Written None"] by simp
    ultimately show ?thesis using len by (simp add: cmon_parse_argv_def strdup_def args rep)
  next
    case 3
    have "argv_loop (drop 2 args) 1 ?arr = Inr (10, blit ?arr 1 (map ?f (drop 2 args)))"
      using argv_loop_runs [of 1 "drop 2 args" ?arr] 3 by simp
    then show ?thesis using 3 by (simp add: cmon_parse_argv_def strdup_def)
  next
    case 4
    then show ?thesis using argv_loop_overflow [of ?arr 1 "drop 2 args"] by (simp add: cmon_parse_argv_def strdup_def)
  qed (simp add: cmon_parse_argv_def)
qed

end
