(* ===== verification/Process.thy ===== *)
theory Process
  imports Ps_Tree Config
begin

text \<open>
  \<open>src/src/lib/process/process.c\<close>: starting the watched program and ending it with all its
  children. What \<open>fork\<close> and \<open>execvp\<close> answer are arguments; the signals sent are returned. Whether a
  signal reaches its process only decides on a line of the log.
\<close>

section \<open>Operations\<close>

text \<open>The parent's side: the child's number, or -1.\<close>

definition process_start_child :: "int \<Rightarrow> int" where
  "process_start_child fork_rc = (if fork_rc = - 1 then - 1 else fork_rc)"

text \<open>
  The child's side: the program file with its arguments, or the end of the child with \<open>errno\<close> as its
  status, read after the message was printed (\<open>errno_now\<close>).
\<close>

definition process_child :: "CmonConfig \<Rightarrow> bool \<Rightarrow> int \<Rightarrow> child_end res" where
  "process_child conf exec_ok errno_now =
     bindE (read_field (exe conf)) (\<lambda>e. case e of
       None \<Rightarrow> Inl (UB NullDeref)
     | Some s \<Rightarrow>
         bindE (read_field (argv conf)) (\<lambda>args.
         if exec_ok then Inr (Becomes (c_str (s_string s) # args)) else Inl (Exit errno_now)))"

fun kill_loop :: "int list \<Rightarrow> nat \<Rightarrow> int list" where
  "kill_loop arr 0 = []"
| "kill_loop arr (Suc i) = arr ! i # kill_loop arr i"

definition process_kill_subtree :: "nat option \<Rightarrow> iheap \<Rightarrow> (int \<times> int list) res" where
  "process_kill_subtree pid_arr h = (case pid_arr of
      None \<Rightarrow> Inr (1, [])
    | Some a \<Rightarrow> (case iarrs h a of
        None \<Rightarrow> Inl (UB UseAfterFree)
      | Some r \<Rightarrow>
          if i_len r = 0 then Inr (1, [])
          else if length (i_arr r) < i_len r then Inl (UB OutOfBounds)
          else Inr (0, kill_loop (i_arr r) (i_len r))))"

section \<open>Facts\<close>

lemma kill_loop_rev: "n \<le> length arr \<Longrightarrow> kill_loop arr n = rev (take n arr)"
  by (induction n) (simp_all add: take_Suc_conv_app_nth)

lemma kill_subtree_ints:
  assumes "int_arr_ok h a"
  shows "process_kill_subtree (Some a) h = Inr (if ints h a = [] then 1 else 0, rev (ints h a))"
  using assms
  by (auto simp: int_arr_ok_def ints_def process_kill_subtree_def kill_loop_rev split: option.splits)

end
