(* ===== verification/Cmon_Path.thy ===== *)
theory Cmon_Path
  imports C_Utils_String
begin

text \<open>
  \<open>src/src/lib/utils/cmon_path.c\<close>: paths with their extension. The size of the next buffer and the
  working directory are static variables of the two functions: they are passed in and returned. A
  buffer is the list of the bytes written to it, its size is kept beside it, and the extension is
  an index into it. The allocator's answers are a script.
\<close>

record CmonPath =
  path_len :: nat
  path :: "byte list"
  ext_len :: nat
  ext :: "nat option"

definition MAX_PATH_LEN :: nat where
  "MAX_PATH_LEN = 4096"

section \<open>Operations\<close>

text \<open>
  The loop grows the buffer with \<open>realloc\<close> and does not check it: \<open>held\<close> says whether there still is
  a buffer to write to.
\<close>

fun path_loop ::
    "byte list \<Rightarrow> nat \<Rightarrow> nat \<Rightarrow> nat \<Rightarrow> byte list \<Rightarrow> memory \<Rightarrow> (nat \<times> (byte list \<times> nat) option \<times> memory) res" where
  "path_loop cs i last_point_index buff_size out m =
     (let grow = (i \<ge> buff_size - 1);
          sz = (if grow then buff_size * 2 else buff_size);
          (held, m1) = (if grow then try_alloc m (\<lambda>m1. (False, m1)) (\<lambda>m1. (True, m1)) else (True, m)) in
      if i > MAX_PATH_LEN - 1 then Inr (sz, None, m1)
      else (case cs of
          [] \<Rightarrow> Inl (UB OutOfBounds)
        | c # cs1 \<Rightarrow>
            if \<not> held then Inl (UB NullDeref)
            else if sz \<le> i then Inl (UB OutOfBounds)
            else if c = NUL then Inr (sz, Some (out @ [NUL], last_point_index), m1)
            else path_loop cs1 (Suc i) (if c = CHR ''.'' then i else last_point_index) sz (out @ [c]) m1))"

declare path_loop.simps [simp del]

text \<open>\<open>cmon_path_new\<close>: the size of the next buffer, and the path or \<open>NULL\<close>.\<close>

definition cmon_path_new ::
    "byte list \<Rightarrow> nat \<Rightarrow> memory \<Rightarrow> (nat \<times> CmonPath option \<times> memory) res" where
  "cmon_path_new str_path buff_size m =
     try_alloc m (\<lambda>m1. Inr (buff_size, None, m1)) (\<lambda>m1.
     try_alloc m1 (\<lambda>m2. Inr (buff_size, None, m2)) (\<lambda>m2.
       bindE (path_loop str_path 0 0 buff_size [] m2) (\<lambda>(sz, r, m3). (case r of
          None \<Rightarrow> Inr (sz, None, m3)
        | Some (buf, last_point_index) \<Rightarrow>
            Inr (sz, Some (if last_point_index > 0
              then \<lparr>path_len = length buf - 1, path = buf,
                    ext_len = length (c_str (drop last_point_index buf)), ext = Some last_point_index\<rparr>
              else \<lparr>path_len = length buf - 1, path = buf, ext_len = 0, ext = None\<rparr>), m3)))))"

text \<open>
  \<open>cmon_path_new_full_path\<close>. The working directory is copied into a block of exactly its length,
  without a NUL, and is read as a string from there. \<open>slack\<close> is what the memory behind that block
  holds up to a NUL; \<open>None\<close> is memory that is watched, where the read stops the program.
\<close>

fun find_ext :: "byte list \<Rightarrow> nat \<Rightarrow> nat \<Rightarrow> nat \<Rightarrow> nat option" where
  "find_ext buf len i 0 = None"
| "find_ext buf len i (Suc k) =
     (if buf ! (len - i) = CHR ''.'' then Some i else find_ext buf len (Suc i) k)"

definition full_path_cwd ::
    "byte list option \<Rightarrow> byte list option \<Rightarrow> memory \<Rightarrow> (byte list \<times> memory) res" where
  "full_path_cwd cached dir m = (case cached of
      Some c \<Rightarrow> Inr (c, m)
    | None \<Rightarrow> (case dir of
        None \<Rightarrow> Inl (Exit 1)
      | Some d \<Rightarrow>
          if MAX_PATH_LEN \<le> length d then Inl (Exit 1)
          else try_alloc m (\<lambda>m1. Inl (Exit 1)) (\<lambda>m1. Inr (d, m1))))"

definition cmon_path_new_full_path ::
    "byte list option \<Rightarrow> byte list option \<Rightarrow> byte list option \<Rightarrow> byte list \<Rightarrow> memory \<Rightarrow>
     (byte list option \<times> CmonPath \<times> memory) res" where
  "cmon_path_new_full_path cached dir slack src m =
     bindE (full_path_cwd cached dir m) (\<lambda>(cwd, m1).
       if NUL \<notin> set src then Inl (UB OutOfBounds)
       else try_alloc m1 (\<lambda>m2. Inl (Exit 1)) (\<lambda>m2. try_alloc m2 (\<lambda>m3. Inl (Exit 1)) (\<lambda>m3.
         (case slack of
           None \<Rightarrow> Inl (UB OutOfBounds)
         | Some s \<Rightarrow>
             let src_len = min (length (c_str src)) MAX_PATH_LEN;
                 len = src_len + length cwd + 1;
                 buf = take len (cwd @ s @ ''/'' @ c_str src) @ [NUL] in
             (case find_ext buf len 1 (src_len - 1) of
                Some i \<Rightarrow> Inr (Some cwd, \<lparr>path_len = len, path = buf, ext_len = i, ext = Some (len - i)\<rparr>, m3)
              | None \<Rightarrow> Inr (Some cwd, \<lparr>path_len = len, path = buf, ext_len = 0, ext = None\<rparr>, m3))))))"

text \<open>\<open>cmon_path_free\<close>: the block released.\<close>

definition cmon_path_free :: "CmonPath option \<Rightarrow> byte list option" where
  "cmon_path_free p = (case p of None \<Rightarrow> None | Some q \<Rightarrow> Some (path q))"

text \<open>
  The two casts of a path to a string: the first two fields are a size and a pointer, and so are
  the last two.
\<close>

definition cmon_path_cast_as_cmon_string :: "CmonPath \<Rightarrow> CmonString" where
  "cmon_path_cast_as_cmon_string p = \<lparr>s_size = path_len p, s_string = path p\<rparr>"

definition cmon_path_cast_ext_as_cmon_string :: "CmonPath \<Rightarrow> CmonString" where
  "cmon_path_cast_ext_as_cmon_string p =
     \<lparr>s_size = ext_len p, s_string = (case ext p of None \<Rightarrow> [] | Some i \<Rightarrow> drop i (path p))\<rparr>"

section \<open>The last point\<close>

text \<open>The index of the last point of a name, one at the very beginning not counted.\<close>

definition point_indices :: "byte list \<Rightarrow> nat list" where
  "point_indices s = filter (\<lambda>i. s ! i = CHR ''.'') [1..<length s]"

definition last_point :: "byte list \<Rightarrow> nat option" where
  "last_point s = (if point_indices s = [] then None else Some (last (point_indices s)))"

definition point_or_0 :: "byte list \<Rightarrow> nat" where
  "point_or_0 s = (case last_point s of None \<Rightarrow> 0 | Some k \<Rightarrow> k)"

lemma point_indices_snoc:
  "point_indices (s @ [c]) = point_indices s @ (if c = CHR ''.'' \<and> s \<noteq> [] then [length s] else [])"
proof (cases s)
  case (Cons x xs)
  then have "[1..<length (s @ [c])] = [1..<length s] @ [length s]" by simp
  moreover have "filter (\<lambda>i. (s @ [c]) ! i = CHR ''.'') [1..<length s] = point_indices s"
    unfolding point_indices_def by (rule filter_cong) (auto simp: nth_append)
  ultimately show ?thesis using Cons by (simp add: point_indices_def)
qed (simp add: point_indices_def)

lemma last_point_snoc:
  "last_point (s @ [c]) = (if c = CHR ''.'' \<and> s \<noteq> [] then Some (length s) else last_point s)"
  by (simp add: last_point_def point_indices_snoc)

lemma last_point_Nil [simp]: "last_point [] = None"
  by (simp add: last_point_def point_indices_def)

lemma last_point_Some:
  assumes "last_point s = Some k"
  shows "0 < k \<and> k < length s \<and> s ! k = CHR ''.''"
proof -
  have "point_indices s \<noteq> []" "k = last (point_indices s)"
    using assms by (auto simp: last_point_def split: if_splits)
  then have "k \<in> set (point_indices s)" by simp
  then show ?thesis by (auto simp: point_indices_def)
qed

lemma point_or_0_snoc:
  "point_or_0 (s @ [c]) = (if c = CHR ''.'' then length s else point_or_0 s)"
  by (simp add: point_or_0_def last_point_snoc)

lemma point_or_0_pos: "0 < point_or_0 s \<longleftrightarrow> last_point s = Some (point_or_0 s)"
  using last_point_Some by (auto simp: point_or_0_def split: option.splits)

section \<open>The growing buffer\<close>

text \<open>The sizes the static variable takes: 20 and its doubles, as far as a path can reach.\<close>

definition path_sizes :: "nat set" where
  "path_sizes = {20, 40, 80, 160, 320, 640, 1280, 2560, 5120}"

lemma path_sizes_grow:
  "sz \<in> path_sizes \<Longrightarrow> i \<le> 4096 \<Longrightarrow> (if i \<ge> sz - 1 then sz * 2 else sz) \<in> path_sizes"
  by (auto simp: path_sizes_def)

lemma path_loop_ample:
  "path_loop cs i last_point_index buff_size out [] =
     (let sz = (if i \<ge> buff_size - 1 then buff_size * 2 else buff_size) in
      if i > MAX_PATH_LEN - 1 then Inr (sz, None, [])
      else (case cs of
          [] \<Rightarrow> Inl (UB OutOfBounds)
        | c # cs1 \<Rightarrow>
            if sz \<le> i then Inl (UB OutOfBounds)
            else if c = NUL then Inr (sz, Some (out @ [NUL], last_point_index), [])
            else path_loop cs1 (Suc i) (if c = CHR ''.'' then i else last_point_index) sz (out @ [c]) []))"
  by (subst path_loop.simps) (simp add: Let_def split: list.split)

lemma path_loop_runs:
  assumes "sz \<in> path_sizes" "text_ok s" "length out < sz" "length out \<le> 4096"
  shows "\<exists>sz1\<in>path_sizes. path_loop (s @ NUL # r) (length out) (point_or_0 out) sz out [] =
     Inr (sz1, if 4095 < length out + length s then None else Some (out @ s @ [NUL], point_or_0 (out @ s)), [])"
  using assms
proof (induction s arbitrary: out sz)
  case Nil
  let ?sz = "if length out \<ge> sz - 1 then sz * 2 else sz"
  have "?sz \<in> path_sizes" using path_sizes_grow [OF Nil.prems(1,4)] .
  moreover have "path_loop ([] @ NUL # r) (length out) (point_or_0 out) sz out [] =
     Inr (?sz, if 4095 < length out then None else Some (out @ [NUL], point_or_0 out), [])"
    using Nil.prems by (subst path_loop_ample) (simp add: MAX_PATH_LEN_def Let_def)
  ultimately show ?case by auto
next
  case (Cons c s)
  let ?sz = "if length out \<ge> sz - 1 then sz * 2 else sz"
  have sz: "?sz \<in> path_sizes" using path_sizes_grow [OF Cons.prems(1,4)] .
  show ?case
  proof (cases "4095 < length out")
    case True
    have "path_loop ((c # s) @ NUL # r) (length out) (point_or_0 out) sz out [] = Inr (?sz, None, [])"
      using True by (subst path_loop_ample) (simp add: MAX_PATH_LEN_def Let_def)
    with sz True show ?thesis by auto
  next
    case False
    have room: "length out < ?sz" "Suc (length out) < ?sz" using Cons.prems(3) by auto
    have step: "path_loop ((c # s) @ NUL # r) (length out) (point_or_0 out) sz out [] =
        path_loop (s @ NUL # r) (length (out @ [c])) (point_or_0 (out @ [c])) ?sz (out @ [c]) []"
      using False room Cons.prems(2)
      by (subst path_loop_ample) (simp add: MAX_PATH_LEN_def Let_def point_or_0_snoc del: if_split)
    have "\<exists>sz1\<in>path_sizes. path_loop (s @ NUL # r) (length (out @ [c])) (point_or_0 (out @ [c])) ?sz (out @ [c]) [] =
       Inr (sz1, if 4095 < length (out @ [c]) + length s then None
                 else Some ((out @ [c]) @ s @ [NUL], point_or_0 ((out @ [c]) @ s)), [])"
      using Cons.prems False room by (intro Cons.IH sz) simp_all
    then obtain sz1 where "sz1 \<in> path_sizes"
      "path_loop (s @ NUL # r) (length (out @ [c])) (point_or_0 (out @ [c])) ?sz (out @ [c]) [] =
       Inr (sz1, if 4095 < length (out @ [c]) + length s then None
                 else Some ((out @ [c]) @ s @ [NUL], point_or_0 ((out @ [c]) @ s)), [])"
      by blast
    with step show ?thesis by (intro bexI [of _ sz1]) simp_all
  qed
qed

text \<open>A refused growth is not noticed: the next byte goes through the null pointer.\<close>

lemma path_loop_refused:
  assumes "NUL \<notin> set s" "length out \<le> sz - 1" "sz - 1 \<le> length out + length s" "sz - 1 \<le> 4095" "0 < sz"
  shows "path_loop (s @ NUL # r) (length out) k sz out (False # m) = Inl (UB NullDeref)"
  using assms
proof (induction s arbitrary: out k)
  case Nil
  then show ?case by (subst path_loop.simps) (simp add: MAX_PATH_LEN_def)
next
  case (Cons c s)
  show ?case
  proof (cases "length out = sz - 1")
    case True
    with Cons.prems show ?thesis by (subst path_loop.simps) (simp add: MAX_PATH_LEN_def)
  next
    case False
    have "path_loop (s @ NUL # r) (length (out @ [c])) (if c = CHR ''.'' then length out else k) sz (out @ [c]) (False # m) =
        Inl (UB NullDeref)"
      using Cons.prems False by (intro Cons.IH) auto
    with False Cons.prems show ?thesis
      by (subst path_loop.simps) (auto simp: MAX_PATH_LEN_def)
  qed
qed

section \<open>The path of a name\<close>

definition path_of :: "byte list \<Rightarrow> CmonPath" where
  "path_of s = \<lparr>path_len = length s, path = cstring s,
     ext_len = (case last_point s of None \<Rightarrow> 0 | Some k \<Rightarrow> length s - k), ext = last_point s\<rparr>"

lemma find_ext_last_point:
  "0 < i \<Longrightarrow> find_ext (p @ s @ q) (length p + length s + (i - 1)) i (length s - 1) =
     map_option (\<lambda>k. length s + (i - 1) - k) (last_point s)"
proof (induction s arbitrary: q i rule: rev_induct)
  case (snoc c s)
  show ?case
  proof (cases "s = []")
    case False
    then obtain k where k: "length s = Suc k" by (cases s) auto
    have "(p @ (s @ [c]) @ q) ! (length p + length (s @ [c]) + (i - 1) - i) = c"
      using snoc.prems by (simp add: nth_append)
    moreover have "find_ext (p @ s @ c # q) (length p + length s + (Suc i - 1)) (Suc i) (length s - 1) =
        map_option (\<lambda>k. length s + (Suc i - 1) - k) (last_point s)"
      by (rule snoc.IH) simp
    ultimately show ?thesis using snoc.prems k False by (simp add: last_point_snoc)
  qed (simp add: last_point_def point_indices_def)
qed simp

text \<open>
  The path that a program sees when \<open>sl\<close> stands behind the block of the working directory: the name
  is cut by as much as was read too far.
\<close>

definition seen_path :: "byte list \<Rightarrow> byte list \<Rightarrow> byte list \<Rightarrow> byte list" where
  "seen_path d sl s = take (length d + 1 + length s) (d @ sl @ ''/'' @ s)"

lemma seen_path_Nil [simp]: "seen_path d [] s = d @ ''/'' @ s"
  by (simp add: seen_path_def)

lemma length_seen_path [simp]: "length (seen_path d sl s) = length d + 1 + length s"
  by (simp add: seen_path_def)

lemma full_path_seen:
  assumes "text_ok s" "length s \<le> 4096" "full_path_cwd cached dir [] = Inr (d, [])"
  shows "\<exists>p. cmon_path_new_full_path cached dir (Some sl) (cstring s) [] = Inr (Some d, p, []) \<and>
     cmon_path_cast_as_cmon_string p = cmon_string (seen_path d sl s) \<and>
     cmon_path_cast_ext_as_cmon_string p =
       cmon_path_cast_ext_as_cmon_string (path_of (drop (length d + 1) (seen_path d sl s)))"
proof -
  define q t where "q = take (length d + 1) (seen_path d sl s)" and "t = drop (length d + 1) (seen_path d sl s)"
  have split: "seen_path d sl s = q @ t" by (simp add: q_def t_def)
  have t: "length t = length s" "length q = Suc (length d)" by (simp_all add: q_def t_def)
  have buf: "take (Suc (length s + length d)) (d @ sl @ CHR ''/'' # s) = q @ t"
    unfolding split [symmetric] by (simp add: seen_path_def add.commute del: take_append)
  have ext: "find_ext (q @ t @ [NUL]) (Suc (length s + length d)) (Suc 0) (length s - Suc 0) =
      map_option (\<lambda>k. length s - k) (last_point t)"
    using find_ext_last_point [of 1 q t "[NUL]"] t by (simp add: add_ac)
  have src: "c_str (cstring s) = s" "NUL \<in> set (cstring s)"
    using assms(1) by (simp_all add: cstring_def text_ok_def)
  have run: "cmon_path_new_full_path cached dir (Some sl) (cstring s) [] = Inr (Some d,
      (case last_point t of
         None \<Rightarrow> \<lparr>path_len = Suc (length s + length d), path = q @ t @ [NUL], ext_len = 0, ext = None\<rparr>
       | Some k \<Rightarrow> \<lparr>path_len = Suc (length s + length d), path = q @ t @ [NUL], ext_len = length s - k,
           ext = Some (Suc (length s + length d) - (length s - k))\<rparr>), [])"
    using assms(2,3) src
    by (simp add: cmon_path_new_full_path_def MAX_PATH_LEN_def Let_def buf ext del: take_append split: option.split)
  have "\<exists>p. cmon_path_new_full_path cached dir (Some sl) (cstring s) [] = Inr (Some d, p, []) \<and>
     cmon_path_cast_as_cmon_string p = cmon_string (q @ t) \<and>
     cmon_path_cast_ext_as_cmon_string p = cmon_path_cast_ext_as_cmon_string (path_of t)"
  proof (cases "last_point t")
    case None
    with run t show ?thesis
      by (simp add: path_of_def cstring_def cmon_path_cast_as_cmon_string_def cmon_path_cast_ext_as_cmon_string_def
          cmon_string_def)
  next
    case (Some k)
    then have "k < length s" using last_point_Some [of t k] t by simp
    then have "drop (Suc (length s + length d) - (length s - k)) (q @ t @ [NUL]) = drop k (t @ [NUL])" using t by simp
    with Some run t show ?thesis
      by (simp add: path_of_def cstring_def cmon_path_cast_as_cmon_string_def cmon_path_cast_ext_as_cmon_string_def
          cmon_string_def del: drop_append)
  qed
  then show ?thesis by (simp only: split [symmetric] t_def [symmetric])
qed

lemma full_path_text:
  assumes "text_ok s" "length s \<le> 4096" "full_path_cwd cached dir [] = Inr (d, [])"
  shows "\<exists>p. cmon_path_new_full_path cached dir (Some []) (cstring s) [] = Inr (Some d, p, []) \<and>
     cmon_path_cast_as_cmon_string p = cmon_string (d @ ''/'' @ s) \<and>
     cmon_path_cast_ext_as_cmon_string p = cmon_path_cast_ext_as_cmon_string (path_of s)"
  using full_path_seen [OF assms, of "[]"] by simp

lemma full_path_unread:
  assumes "full_path_cwd cached dir [] = Inr (d, [])"
  shows "cmon_path_new_full_path cached dir None src [] = Inl (UB OutOfBounds)"
  using assms by (simp add: cmon_path_new_full_path_def)

lemma cmon_path_new_text:
  assumes "sz \<in> path_sizes" "text_ok s"
  shows "\<exists>sz1\<in>path_sizes. cmon_path_new (cstring s) sz [] =
     Inr (sz1, if 4095 < length s then None else Some (path_of s), [])"
proof -
  have "0 < sz" using assms(1) by (auto simp: path_sizes_def)
  then obtain sz1 where sz1: "sz1 \<in> path_sizes" "path_loop (cstring s) 0 0 sz [] [] =
     Inr (sz1, if 4095 < length s then None else Some (cstring s, point_or_0 s), [])"
    using path_loop_runs [OF assms, of "[]" "[]"] by (auto simp: cstring_def point_or_0_def)
  have "NUL \<notin> set (drop k s)" for k using assms(2) by (meson in_set_dropD text_ok_def)
  then have "c_str (drop k (cstring s)) = drop k s" if "k < length s" for k
    using that by (simp add: cstring_def)
  then have "cmon_path_new (cstring s) sz [] = Inr (sz1, if 4095 < length s then None else Some (path_of s), [])"
    using sz1(2) point_or_0_pos [of s] last_point_Some [of s]
    by (auto simp: cmon_path_new_def path_of_def point_or_0_def cstring_def split: option.splits)
  with sz1(1) show ?thesis by blast
qed

section \<open>Properties\<close>

text \<open>
  C17. From any size the static variable can have, \<open>cmon_path_new\<close> copies a name of fewer than 4096
  bytes with its NUL, never writing behind its growing buffer, and finds the extension: from the
  last point on, unless that point is the first character. A longer name is refused. The size the
  variable has afterwards is again one of those, so it never exceeds 5120. When one of the two
  blocks is refused the result is \<open>NULL\<close>; when a growth is, the copy goes through a null pointer.
\<close>

theorem cmon_path_new_spec:
  assumes "sz \<in> path_sizes" "text_ok s"
  shows "(\<exists>sz1\<in>path_sizes. cmon_path_new (cstring s) sz [] =
       Inr (sz1, if 4095 < length s then None else Some (path_of s), [])) \<and>
     (\<not> grants 2 m \<longrightarrow> (\<exists>m1. cmon_path_new (cstring s) sz m = Inr (sz, None, m1))) \<and>
     (sz \<le> length s + 1 \<longrightarrow> sz \<le> 4096 \<longrightarrow>
       cmon_path_new (cstring s) sz ([True, True, False] @ m) = Inl (UB NullDeref))"
proof (intro conjI impI)
  show "\<exists>sz1\<in>path_sizes. cmon_path_new (cstring s) sz [] =
      Inr (sz1, if 4095 < length s then None else Some (path_of s), [])"
    using assms by (rule cmon_path_new_text)
  show "\<not> grants 2 m \<Longrightarrow> \<exists>m1. cmon_path_new (cstring s) sz m = Inr (sz, None, m1)"
    by (auto simp: cmon_path_new_def numeral_2_eq_2 split: try_alloc_split)
  show "cmon_path_new (cstring s) sz ([True, True, False] @ m) = Inl (UB NullDeref)"
    if "sz \<le> length s + 1" "sz \<le> 4096"
    using path_loop_refused [of s "[]" sz "[]" 0 m] assms that
    by (auto simp: cmon_path_new_def cstring_def text_ok_def path_sizes_def)
qed

theorem cmon_path_new_spec_witness:
  "(\<exists>sz1\<in>path_sizes. cmon_path_new (cstring ''src/main.rs'') 20 [] =
     Inr (sz1, Some \<lparr>path_len = 11, path = cstring ''src/main.rs'', ext_len = 3, ext = Some 8\<rparr>, [])) \<and>
   cmon_path_new (cstring (replicate 19 (CHR ''x''))) 20 [True, True, False] = Inl (UB NullDeref)"
proof -
  have p: "path_of ''src/main.rs'' = \<lparr>path_len = 11, path = cstring ''src/main.rs'', ext_len = 3, ext = Some 8\<rparr>"
    by (simp add: path_of_def last_point_def point_indices_def upt_rec)
  have "text_ok (replicate 19 (CHR ''x''))" by (simp add: text_ok_def NUL_def)
  then show ?thesis
    using cmon_path_new_spec [of 20 "''src/main.rs''" "[]"] cmon_path_new_spec [of 20 "replicate 19 (CHR ''x'')" "[]"]
    by (simp add: path_sizes_def NUL_def p)
qed

text \<open>
  C30. \<open>cmon_path_new_full_path\<close> gives the working directory, a slash and the name, with the
  extension that \<open>cmon_path_new\<close> finds in the name alone: provided the memory behind the block of
  the working directory happens to begin with a NUL. The block has none, so on memory that is
  watched the call does not return.
\<close>

theorem cmon_path_new_full_path_equiv:
  assumes "text_ok s" "length s < 4096" "length d < 4096" "sz \<in> path_sizes" "cached = None \<or> cached = Some d"
  shows "(\<exists>p q sz1. cmon_path_new_full_path cached (Some d) (Some []) (cstring s) [] = Inr (Some d, p, []) \<and>
       cmon_path_new (cstring s) sz [] = Inr (sz1, Some q, []) \<and>
       cmon_path_cast_as_cmon_string p = cmon_string (d @ ''/'' @ s) \<and>
       cmon_path_cast_ext_as_cmon_string p = cmon_path_cast_ext_as_cmon_string q) \<and>
     cmon_path_new_full_path cached (Some d) None (cstring s) [] = Inl (UB OutOfBounds)"
proof -
  have cwd: "full_path_cwd cached (Some d) [] = Inr (d, [])"
    using assms(3,5) by (auto simp: full_path_cwd_def MAX_PATH_LEN_def)
  obtain sz1 where new: "cmon_path_new (cstring s) sz [] = Inr (sz1, Some (path_of s), [])"
    using cmon_path_new_text [OF assms(4,1)] assms(2) by auto
  have "cmon_path_new_full_path cached (Some d) None (cstring s) [] = Inl (UB OutOfBounds)"
    using cwd by (simp add: cmon_path_new_full_path_def cstring_def)
  then show ?thesis
    using new full_path_text [OF assms(1) _ cwd] assms(2) by (metis order_less_imp_le)
qed

theorem cmon_path_new_full_path_equiv_witness:
  "\<exists>p q sz1. cmon_path_new_full_path None (Some ''/w'') (Some []) (cstring ''a.c'') [] = Inr (Some ''/w'', p, []) \<and>
     cmon_path_new (cstring ''a.c'') 20 [] = Inr (sz1, Some q, []) \<and>
     cmon_path_cast_as_cmon_string p = cmon_string ''/w/a.c'' \<and>
     cmon_path_cast_ext_as_cmon_string p = cmon_path_cast_ext_as_cmon_string q"
  using cmon_path_new_full_path_equiv [of "''a.c''" "''/w''" 20 None]
  by (simp add: path_sizes_def NUL_def)

end
