(* ===== verification/Inotify.thy ===== *)
theory Inotify
  imports Process Cmon_Path
begin

text \<open>
  \<open>src/src/lib/inotify/inotify.c\<close>, the handling of events: the buffer of an inotify descriptor is
  decoded into events, a modified file is looked up in the two lists of the configuration, and the
  program is restarted. The kernel's answers to the restart number \<open>n\<close> are a function of \<open>n\<close>, and so is
  what stands in memory behind the working directory when the path number \<open>n\<close> is built; the
  signals, waits and starts are recorded in order. Lines of the log are not modelled, except that
  a line whose format reads an argument that is not passed is undefined behaviour.
\<close>

section \<open>Operations\<close>

datatype action = Kill int | Wait int | Start int

record round =
  r_ps :: ps_env
  r_child_ends :: bool
  r_fork :: int

record ino_env =
  e_dir :: "byte list option"
  e_slack :: "nat \<Rightarrow> byte list option"
  e_round :: "nat \<Rightarrow> round"

record ino_state =
  child_pid :: int
  cwd_cache :: "byte list option"
  ino_heap :: iheap
  paths :: nat
  restarts :: nat
  actions :: "action list"

definition IN_MODIFY :: nat where
  "IN_MODIFY = 2"

definition EVENT_HEADER :: nat where
  "EVENT_HEADER = 16"

text \<open>The four bytes of an unsigned number, least first.\<close>

definition le32 :: "byte list \<Rightarrow> nat" where
  "le32 bs = foldr (\<lambda>c v. code_of c + 256 * v) (take 4 bs) 0"

definition free_int_array :: "nat option \<Rightarrow> iheap \<Rightarrow> iheap" where
  "free_int_array p h = (case p of None \<Rightarrow> h | Some a \<Rightarrow> h\<lparr>iarrs := (iarrs h)(a := None)\<rparr>)"

text \<open>A child is started: its number is what the caller knows it by.\<close>

definition start_child :: "int \<Rightarrow> ino_state \<Rightarrow> ino_state" where
  "start_child fork_rc st = st\<lparr>child_pid := process_start_child fork_rc,
     actions := actions st @ [Start (process_start_child fork_rc)]\<rparr>"

text \<open>The end of the loop body: the tree is killed, the child waited for and started again.\<close>

definition ino_restart :: "ino_env \<Rightarrow> ino_state \<Rightarrow> ino_state res" where
  "ino_restart env st = (let r = e_round env (restarts st) in
     bindE (ps_tree_get_pid_arr (child_pid st) (r_ps r) (ino_heap st)) (\<lambda>(pid_arr, h).
     bindE (process_kill_subtree pid_arr h) (\<lambda>(rc, kills).
     if \<not> r_child_ends r then Inl Diverge
     else Inr (start_child (r_fork r) (st\<lparr>ino_heap := free_int_array pid_arr h, restarts := Suc (restarts st),
            actions := actions st @ map Kill kills @ [Wait (child_pid st)]\<rparr>)))))"

text \<open>
  One event, with the bytes its name points to. The log line of a file with a listed extension has
  a \<open>%s\<close> and no argument for it.
\<close>

definition ino_event :: "CmonConfig \<Rightarrow> ino_env \<Rightarrow> nat \<Rightarrow> byte list \<Rightarrow> ino_state \<Rightarrow> ino_state res" where
  "ino_event conf env msk name st =
     (if (msk div IN_MODIFY) mod 2 = 0 then Inr st
      else bindE (cmon_path_new_full_path (cwd_cache st) (e_dir env) (e_slack env (paths st)) name (imem (ino_heap st))) (\<lambda>(c, p, m).
        let st1 = st\<lparr>cwd_cache := c, ino_heap := (ino_heap st)\<lparr>imem := m\<rparr>, paths := Suc (paths st)\<rparr> in
        bindE (cmon_str_arr_find (Some (ignoreFiles conf)) (Some (cmon_path_cast_as_cmon_string p))) (\<lambda>find_res.
        if find_res \<noteq> None then Inr st1
        else bindE (cmon_str_arr_find (Some (watchExtNames conf)) (Some (cmon_path_cast_ext_as_cmon_string p))) (\<lambda>find_ext_name_res.
        if find_ext_name_res \<noteq> None then Inl (UB Uninitialised)
        else ino_restart env st1))))"

text \<open>
  The loop over the buffer: \<open>ptr\<close> and \<open>last\<close> are indices into it. The name of every event is
  logged, and so read up to a NUL.
\<close>

function events_loop :: "CmonConfig \<Rightarrow> ino_env \<Rightarrow> byte list \<Rightarrow> nat \<Rightarrow> nat \<Rightarrow> ino_state \<Rightarrow> ino_state res" where
  "events_loop conf env buff ptr endp st =
     (if ptr < endp then
        (if length buff < ptr + EVENT_HEADER \<or> NUL \<notin> set (drop (ptr + EVENT_HEADER) buff)
         then Inl (UB OutOfBounds)
         else bindE (ino_event conf env (le32 (drop (ptr + 4) buff)) (drop (ptr + EVENT_HEADER) buff) st)
                (events_loop conf env buff (ptr + EVENT_HEADER + le32 (drop (ptr + 12) buff)) endp))
      else Inr st)"
  by pat_completeness auto
termination
  by (relation "measure (\<lambda>(conf, env, buff, ptr, endp, st). endp - ptr)") (simp_all add: EVENT_HEADER_def)

declare events_loop.simps [simp del]

text \<open>\<open>readSize\<close> is unsigned: the -1 of a failed read is the largest size.\<close>

definition ino_procees_events ::
    "CmonConfig \<Rightarrow> ino_env \<Rightarrow> size_t \<Rightarrow> byte list \<Rightarrow> ino_state \<Rightarrow> ino_state res" where
  "ino_procees_events conf env readSize buff st =
     (if length buff < unat readSize then Inl (UB OutOfBounds)
      else events_loop conf env buff 0 (unat readSize) st)"

section \<open>Encoded events\<close>

text \<open>
  An event as the kernel writes it. A name is followed by NULs, one at least; an event about a
  watched directory itself, as when it is deleted or the queue overflows, has neither a name nor
  NULs, and is not a modification: that is one of a file in the directory.
\<close>

record event =
  ev_wd :: nat
  ev_mask :: nat
  ev_cookie :: nat
  ev_name :: "byte list"
  ev_pad :: nat

definition le32_bytes :: "nat \<Rightarrow> byte list" where
  "le32_bytes n = map (\<lambda>i. char_of (n div 256 ^ i mod 256)) [0..<4]"

definition ev_len :: "event \<Rightarrow> nat" where
  "ev_len ev = length (ev_name ev) + ev_pad ev"

definition encode_event :: "event \<Rightarrow> byte list" where
  "encode_event ev = le32_bytes (ev_wd ev) @ le32_bytes (ev_mask ev) @ le32_bytes (ev_cookie ev) @
     le32_bytes (ev_len ev) @ ev_name ev @ replicate (ev_pad ev) NUL"

definition event_ok :: "event \<Rightarrow> bool" where
  "event_ok ev \<longleftrightarrow> text_ok (ev_name ev) \<and> (ev_pad ev = 0 \<longrightarrow> ev_name ev = [] \<and> even (ev_mask ev div IN_MODIFY)) \<and>
     ev_mask ev < 2 ^ 32 \<and> ev_len ev < 2 ^ 32"

text \<open>
  The name of the last event ends in the buffer: when it has none, the line for the log reads what
  is left there from an earlier time.
\<close>

definition last_name_ends :: "event list \<Rightarrow> byte list \<Rightarrow> bool" where
  "last_name_ends evs rest \<longleftrightarrow> evs \<noteq> [] \<longrightarrow> ev_pad (last evs) = 0 \<longrightarrow> NUL \<in> set rest"

lemma length_le32_bytes [simp]: "length (le32_bytes n) = 4"
  by (simp add: le32_bytes_def)

lemma le32_bytes_eq:
  "le32_bytes n = [char_of n, char_of (n div 256), char_of (n div 65536), char_of (n div 16777216)]"
  by (simp add: le32_bytes_def upt_rec)

lemma le32_le32_bytes:
  assumes "n < 2 ^ 32"
  shows "le32 (le32_bytes n @ r) = n"
proof -
  have "n div 65536 = n div 256 div 256" "n div 16777216 = n div 65536 div 256"
    by (simp_all add: div_mult2_eq [symmetric])
  then have "n = n mod 256 + 256 * (n div 256 mod 256 + 256 * (n div 65536 mod 256 + 256 * (n div 16777216)))"
    by (simp only: mod_mult_div_eq)
  moreover have "n div 16777216 mod 256 = n div 16777216" using assms by simp
  ultimately show ?thesis by (simp add: le32_def le32_bytes_eq code_of_def)
qed

lemma encode_event_fields:
  assumes "event_ok ev"
  shows "le32 (drop 4 (encode_event ev @ r)) = ev_mask ev"
    "le32 (drop 12 (encode_event ev @ r)) = ev_len ev"
    "drop EVENT_HEADER (encode_event ev @ r) = ev_name ev @ replicate (ev_pad ev) NUL @ r"
    "length (encode_event ev) = EVENT_HEADER + ev_len ev"
  using assms le32_le32_bytes [of "ev_mask ev"] le32_le32_bytes [of "ev_len ev"]
  by (simp_all add: encode_event_def event_ok_def EVENT_HEADER_def ev_len_def)

text \<open>The length of a short event has a NUL in it.\<close>

lemma encode_event_NUL:
  assumes "ev_len ev < 16777216"
  shows "NUL \<in> set (encode_event ev)"
proof -
  have "char_of (ev_len ev div 16777216) = NUL" using assms by (simp add: char_of_def NUL_def)
  then show ?thesis by (simp add: encode_event_def le32_bytes_eq)
qed

lemma name_ends:
  assumes "last_name_ends (ev # evs) rest" "\<forall>ev\<in>set evs. ev_len ev < 16777216"
  shows "NUL \<in> set (ev_name ev @ replicate (ev_pad ev) NUL @ concat (map encode_event evs) @ rest)"
proof (cases evs)
  case Nil
  then show ?thesis using assms(1) by (auto simp: last_name_ends_def)
next
  case (Cons e es)
  then show ?thesis using assms(2) encode_event_NUL [of e] by simp
qed

text \<open>What a list of events does, one after the other.\<close>

fun run_events :: "CmonConfig \<Rightarrow> ino_env \<Rightarrow> event list \<Rightarrow> byte list \<Rightarrow> ino_state \<Rightarrow> ino_state res" where
  "run_events conf env [] rest st = Inr st"
| "run_events conf env (ev # evs) rest st =
     bindE (ino_event conf env (ev_mask ev)
        (ev_name ev @ replicate (ev_pad ev) NUL @ concat (map encode_event evs) @ rest) st)
       (run_events conf env evs rest)"

lemma events_loop_run:
  assumes "\<forall>ev\<in>set evs. event_ok ev \<and> ev_len ev < 16777216" "last_name_ends evs rest"
    "length pre + length (concat (map encode_event evs)) = endp"
  shows "events_loop conf env (pre @ concat (map encode_event evs) @ rest) (length pre) endp st =
     run_events conf env evs rest st"
  using assms
proof (induction evs arbitrary: pre st)
  case Nil
  then show ?case by (simp add: events_loop.simps)
next
  case (Cons ev evs)
  let ?r = "concat (map encode_event evs) @ rest"
  have ok: "event_ok ev" using Cons.prems(1) by simp
  note f = encode_event_fields [OF ok]
  have header: "0 < EVENT_HEADER" by (simp add: EVENT_HEADER_def)
  have d: "drop (length pre + k) (pre @ encode_event ev @ ?r) = drop k (encode_event ev @ ?r)" for k by simp
  have nul: "NUL \<in> set (ev_name ev @ replicate (ev_pad ev) NUL @ ?r)"
    using name_ends [OF Cons.prems(2)] Cons.prems(1) by simp
  have "events_loop conf env (pre @ encode_event ev @ ?r) (length pre) endp st =
      bindE (ino_event conf env (ev_mask ev) (ev_name ev @ replicate (ev_pad ev) NUL @ ?r) st)
        (events_loop conf env (pre @ encode_event ev @ ?r) (length (pre @ encode_event ev)) endp)"
    using Cons.prems(3) f(4) header nul
    by (subst events_loop.simps) (simp add: d f(1-3) add.assoc del: drop_append set_append)
  moreover have "last_name_ends evs rest" using Cons.prems(2) by (auto simp: last_name_ends_def split: if_splits)
  then have "events_loop conf env ((pre @ encode_event ev) @ ?r) (length (pre @ encode_event ev)) endp =
      run_events conf env evs rest"
    using Cons.prems by (intro ext Cons.IH) simp_all
  ultimately show ?case by simp
qed

lemma ev_len_le:
  assumes "ev \<in> set evs"
  shows "ev_len ev \<le> length (concat (map encode_event evs))"
  using assms by (induction evs) (auto simp: encode_event_def ev_len_def)

lemma procees_events_run:
  assumes "\<forall>ev\<in>set evs. event_ok ev" "last_name_ends evs rest"
    "length (concat (map encode_event evs) @ rest) = 4096"
  shows "ino_procees_events conf env (word_of_nat (length (concat (map encode_event evs))))
     (concat (map encode_event evs) @ rest) st = run_events conf env evs rest st"
proof -
  let ?n = "length (concat (map encode_event evs))"
  have n: "?n \<le> 4096" using assms(3) by simp
  then have "unat (word_of_nat ?n :: size_t) = ?n" by (simp add: unat_of_nat)
  moreover have "\<forall>ev\<in>set evs. event_ok ev \<and> ev_len ev < 16777216"
    using assms(1) ev_len_le n by fastforce
  ultimately show ?thesis
    using events_loop_run [OF _ assms(2), of "[]" ?n conf env st] n assms(3)
    by (simp add: ino_procees_events_def del: of_nat_sum)
qed

section \<open>One event\<close>

text \<open>The extension of a name, with its point; empty when there is none.\<close>

definition ext_bytes :: "byte list \<Rightarrow> byte list" where
  "ext_bytes s = (case last_point s of None \<Rightarrow> [] | Some k \<Rightarrow> drop k s)"

lemma find_ext_text:
  "cmon_str_arr_find (Some (map cmon_string ws)) (Some (cmon_path_cast_ext_as_cmon_string (path_of s))) =
     Inr (if ext_bytes s \<in> set ws then Some (cmon_string (ext_bytes s)) else None)"
proof (cases "last_point s")
  case None
  have "find_loop (map cmon_string ws) (Some \<lparr>s_size = 0, s_string = []\<rparr>) =
      Inr (if [] \<in> set ws then Some (cmon_string []) else None)"
    by (induction ws) (auto simp: cmon_str_cmp_def cmon_string_def)
  with None show ?thesis
    by (simp add: cmon_str_arr_find_def cmon_path_cast_ext_as_cmon_string_def path_of_def ext_bytes_def)
next
  case (Some k)
  then have "k < length s" using last_point_Some by blast
  then have "cmon_path_cast_ext_as_cmon_string (path_of s) = cmon_string (ext_bytes s)"
    using Some by (simp add: cmon_path_cast_ext_as_cmon_string_def path_of_def ext_bytes_def cmon_string_def cstring_def)
  then show ?thesis by (simp add: find_text)
qed

lemma full_path_more:
  assumes "text_ok s"
  shows "cmon_path_new_full_path cached dir slack (cstring s @ r) m =
     cmon_path_new_full_path cached dir slack (cstring s) m"
proof -
  have "c_str (cstring s @ r) = c_str (cstring s)"
    "(NUL \<notin> set (cstring s @ r)) = (NUL \<notin> set (cstring s))"
    using assms by (simp_all add: cstring_def text_ok_def)
  note eqs = this
  show ?thesis unfolding cmon_path_new_full_path_def eqs by (rule refl)
qed

definition path_built :: "byte list \<Rightarrow> ino_state \<Rightarrow> ino_state" where
  "path_built d st = st\<lparr>cwd_cache := Some d, paths := Suc (paths st)\<rparr>"

lemma event_outcome:
  assumes "ignoreFiles conf = map cmon_string fs" "watchExtNames conf = map cmon_string ws"
    "text_ok s" "length s \<le> 4096" "full_path_cwd (cwd_cache st) (e_dir env) [] = Inr (d, [])"
    "imem (ino_heap st) = []" "odd (msk div IN_MODIFY)"
  shows "ino_event conf env msk (cstring s @ r) st = (case e_slack env (paths st) of
       None \<Rightarrow> Inl (UB OutOfBounds)
     | Some sl \<Rightarrow>
         if seen_path d sl s \<in> set fs then Inr (path_built d st)
         else if ext_bytes (drop (length d + 1) (seen_path d sl s)) \<in> set ws then Inl (UB Uninitialised)
         else ino_restart env (path_built d st))"
proof -
  have modified: "(msk div IN_MODIFY) mod 2 \<noteq> 0" using assms(7) by presburger
  show ?thesis
  proof (cases "e_slack env (paths st)")
    case None
    with modified assms(6) show ?thesis
      by (simp add: ino_event_def full_path_more [OF assms(3)] full_path_unread [OF assms(5)])
  next
    case (Some sl)
    obtain p where p: "cmon_path_new_full_path (cwd_cache st) (e_dir env) (Some sl) (cstring s) [] = Inr (Some d, p, [])"
      "cmon_path_cast_as_cmon_string p = cmon_string (seen_path d sl s)"
      "cmon_path_cast_ext_as_cmon_string p =
         cmon_path_cast_ext_as_cmon_string (path_of (drop (length d + 1) (seen_path d sl s)))"
      using full_path_seen [OF assms(3,4,5)] by blast
    with Some modified assms(1,2,6) show ?thesis
      by (simp add: ino_event_def full_path_more [OF assms(3)] find_text find_ext_text Let_def path_built_def
          del: drop_append)
  qed
qed

lemma restart_outcome:
  assumes "e_round env (restarts st) = rnd" "r_child_ends rnd"
    "\<forall>p\<in>set ps. proc_ok p" "length (concat (map proc_numbers ps)) \<le> 5000"
    "pipe_ok (r_ps rnd)" "ps_fork (r_ps rnd) \<noteq> - 1" "In_Err \<notin> set (ps_out (r_ps rnd))"
    "stream (ps_out (r_ps rnd)) = concat (map render_proc ps) @ [LF]"
    "wait_loop False (ps_wait (r_ps rnd)) = Inr ()" "\<forall>b \<ge> inext (ino_heap st). iarrs (ino_heap st) b = None"
    "imem (ino_heap st) = []"
  shows "\<exists>h. ino_restart env st = Inr (st\<lparr>child_pid := r_fork rnd, ino_heap := h, restarts := Suc (restarts st),
       actions := actions st @ map Kill (rev (concat (map proc_numbers ps))) @
         [Wait (child_pid st), Start (r_fork rnd)]\<rparr>) \<and>
     (\<forall>b \<ge> inext h. iarrs h b = None) \<and> imem h = []"
proof -
  obtain a h1 where a: "ps_tree_get_pid_arr (child_pid st) (r_ps rnd) (ino_heap st) = Inr (Some a, h1)"
    "int_arr_ok h1 a" "ints h1 a = concat (map proc_numbers ps)"
    using pid_arr_of_procs [OF assms(3-11)] by blast
  have f: "process_start_child (r_fork rnd) = r_fork rnd" by (simp add: process_start_child_def)
  have "ino_restart env st = Inr (st\<lparr>child_pid := r_fork rnd, ino_heap := free_int_array (Some a) h1,
       restarts := Suc (restarts st),
       actions := actions st @ map Kill (rev (concat (map proc_numbers ps))) @
         [Wait (child_pid st), Start (r_fork rnd)]\<rparr>)"
    using assms(1,2) a(1,3) kill_subtree_ints [OF a(2)] f by (simp add: ino_restart_def start_child_def Let_def)
  moreover have "\<forall>b \<ge> inext (free_int_array (Some a) h1). iarrs (free_int_array (Some a) h1) b = None"
    "imem (free_int_array (Some a) h1) = []"
    using a(2) by (simp_all add: free_int_array_def int_arr_ok_def)
  ultimately show ?thesis by blast
qed

section \<open>The watcher as it is seen from outside\<close>

text \<open>
  The abstract watcher: the running child, the number of paths it has looked up, the number of
  restarts and what has been done so far. \<open>procs n\<close> is the process tree found at restart \<open>n\<close> and
  \<open>kid n\<close> the child started then; \<open>behind k\<close> is what the memory has behind the working directory when
  path \<open>k\<close> is built. A modified file is looked up as \<open>seen_path\<close>, which is the directory, a slash and
  the name when a NUL stands there. Unless that path is ignored the program is restarted; memory
  that may not be read, and a listed extension, are the ends of the defined runs.
\<close>

type_synonym watch = "int \<times> nat \<times> nat \<times> action list"

definition watch_restart :: "(nat \<Rightarrow> (byte list \<times> nat) list) \<Rightarrow> (nat \<Rightarrow> int) \<Rightarrow> watch \<Rightarrow> watch" where
  "watch_restart procs kid w = (case w of (child, k, n, acts) \<Rightarrow>
     (kid n, k, Suc n, acts @ map Kill (rev (concat (map proc_numbers (procs n)))) @ [Wait child, Start (kid n)]))"

definition watch_modified ::
    "byte list set \<Rightarrow> byte list set \<Rightarrow> (nat \<Rightarrow> (byte list \<times> nat) list) \<Rightarrow> (nat \<Rightarrow> int) \<Rightarrow>
     (nat \<Rightarrow> byte list option) \<Rightarrow> byte list \<Rightarrow> byte list \<Rightarrow> watch \<Rightarrow> watch res" where
  "watch_modified ignored exts procs kid behind d name w = (case w of (child, k, n, acts) \<Rightarrow> (case behind k of
       None \<Rightarrow> Inl (UB OutOfBounds)
     | Some sl \<Rightarrow>
         if seen_path d sl name \<in> ignored then Inr (child, Suc k, n, acts)
         else if ext_bytes (drop (length d + 1) (seen_path d sl name)) \<in> exts then Inl (UB Uninitialised)
         else Inr (watch_restart procs kid (child, Suc k, n, acts))))"

fun watch_run ::
    "byte list set \<Rightarrow> byte list set \<Rightarrow> (nat \<Rightarrow> (byte list \<times> nat) list) \<Rightarrow> (nat \<Rightarrow> int) \<Rightarrow>
     (nat \<Rightarrow> byte list option) \<Rightarrow> byte list \<Rightarrow> event list \<Rightarrow> watch \<Rightarrow> watch res" where
  "watch_run ignored exts procs kid behind d [] w = Inr w"
| "watch_run ignored exts procs kid behind d (ev # evs) w =
     (if even (ev_mask ev div IN_MODIFY) then watch_run ignored exts procs kid behind d evs w
      else bindE (watch_modified ignored exts procs kid behind d (ev_name ev) w)
             (watch_run ignored exts procs kid behind d evs))"

definition round_ok :: "round \<Rightarrow> (byte list \<times> nat) list \<Rightarrow> bool" where
  "round_ok rnd ps \<longleftrightarrow> r_child_ends rnd \<and> (\<forall>p\<in>set ps. proc_ok p) \<and>
     length (concat (map proc_numbers ps)) \<le> 5000 \<and> pipe_ok (r_ps rnd) \<and> ps_fork (r_ps rnd) \<noteq> - 1 \<and>
     In_Err \<notin> set (ps_out (r_ps rnd)) \<and>
     stream (ps_out (r_ps rnd)) = concat (map render_proc ps) @ [LF] \<and> wait_loop False (ps_wait (r_ps rnd)) = Inr ()"

definition watch_of :: "ino_state \<Rightarrow> watch" where
  "watch_of st = (child_pid st, paths st, restarts st, actions st)"

definition watch_ok :: "byte list \<Rightarrow> ino_env \<Rightarrow> ino_state \<Rightarrow> bool" where
  "watch_ok d env st \<longleftrightarrow> full_path_cwd (cwd_cache st) (e_dir env) [] = Inr (d, []) \<and> imem (ino_heap st) = [] \<and>
     (\<forall>b \<ge> inext (ino_heap st). iarrs (ino_heap st) b = None)"

lemma watch_ok_path_built: "watch_ok d env st \<Longrightarrow> watch_ok d env (path_built d st)"
  by (simp add: watch_ok_def full_path_cwd_def path_built_def)

lemma restart_refines:
  assumes "round_ok (e_round env (restarts st)) (procs (restarts st))" "watch_ok d env st"
  shows "\<exists>st1. ino_restart env st = Inr st1 \<and> watch_ok d env st1 \<and>
     watch_of st1 = watch_restart procs (\<lambda>n. r_fork (e_round env n)) (watch_of st)"
proof -
  note ok = assms(1) [unfolded round_ok_def]
  have heap: "\<forall>b \<ge> inext (ino_heap st). iarrs (ino_heap st) b = None" "imem (ino_heap st) = []" using assms(2) by (simp_all add: watch_ok_def)
  obtain h where h: "ino_restart env st = Inr (st\<lparr>child_pid := r_fork (e_round env (restarts st)), ino_heap := h,
       restarts := Suc (restarts st),
       actions := actions st @ map Kill (rev (concat (map proc_numbers (procs (restarts st))))) @
         [Wait (child_pid st), Start (r_fork (e_round env (restarts st)))]\<rparr>)"
    "\<forall>b \<ge> inext h. iarrs h b = None" "imem h = []"
    using restart_outcome [OF refl, of env st "procs (restarts st)"] ok heap by blast
  then show ?thesis
    using assms(2) by (simp add: watch_ok_def watch_of_def watch_restart_def)
qed

text \<open>A run does what the abstract watcher does.\<close>

definition follows :: "byte list \<Rightarrow> ino_env \<Rightarrow> watch res \<Rightarrow> ino_state res \<Rightarrow> bool" where
  "follows d env wo r = (case wo of
       Inl e \<Rightarrow> r = Inl e
     | Inr w \<Rightarrow> \<exists>st1. r = Inr st1 \<and> watch_ok d env st1 \<and> watch_of st1 = w)"

lemma event_follows:
  assumes "ignoreFiles conf = map cmon_string fs" "watchExtNames conf = map cmon_string ws"
    "\<forall>n. round_ok (e_round env n) (procs n)" "text_ok s" "length s \<le> 4096" "watch_ok d env st"
    "odd (msk div IN_MODIFY)"
  shows "follows d env (watch_modified (set fs) (set ws) procs (\<lambda>n. r_fork (e_round env n)) (e_slack env) d s (watch_of st))
     (ino_event conf env msk (cstring s @ r) st)"
proof -
  have cwd: "full_path_cwd (cwd_cache st) (e_dir env) [] = Inr (d, [])" "imem (ino_heap st) = []"
    using assms(6) by (simp_all add: watch_ok_def)
  note built = watch_ok_path_built [OF assms(6)]
  obtain st1 where st1: "ino_restart env (path_built d st) = Inr st1" "watch_ok d env st1"
    "watch_of st1 = watch_restart procs (\<lambda>n. r_fork (e_round env n)) (watch_of (path_built d st))"
    using restart_refines [OF _ built] assms(3) by blast
  have same: "watch_of (path_built d st) = (child_pid st, Suc (paths st), restarts st, actions st)"
    by (simp add: watch_of_def path_built_def)
  show ?thesis
    unfolding event_outcome [OF assms(1,2,4,5) cwd assms(7)]
    using built st1 same
    by (auto simp: follows_def watch_modified_def watch_of_def [of st] split: option.splits)
qed

lemma run_events_refines:
  assumes "ignoreFiles conf = map cmon_string fs" "watchExtNames conf = map cmon_string ws"
    "\<forall>n. round_ok (e_round env n) (procs n)"
    "\<forall>ev\<in>set evs. event_ok ev \<and> length (ev_name ev) \<le> 255" "watch_ok d env st"
  shows "follows d env
     (watch_run (set fs) (set ws) procs (\<lambda>n. r_fork (e_round env n)) (e_slack env) d evs (watch_of st))
     (run_events conf env evs rest st)"
  using assms(4,5)
proof (induction evs arbitrary: st)
  case (Cons ev evs)
  let ?name = "ev_name ev @ replicate (ev_pad ev) NUL @ concat (map encode_event evs) @ rest"
  show ?case
  proof (cases "even (ev_mask ev div IN_MODIFY)")
    case True
    then have "ino_event conf env (ev_mask ev) ?name st = Inr st"
      by (simp add: ino_event_def even_iff_mod_2_eq_zero)
    with True Cons show ?thesis by simp
  next
    case False
    then have "ev_pad ev \<noteq> 0" using Cons.prems(1) by (auto simp: event_ok_def)
    then obtain k where "ev_pad ev = Suc k" using not0_implies_Suc by blast
    then have name: "?name = cstring (ev_name ev) @ replicate k NUL @ concat (map encode_event evs) @ rest"
      by (simp add: cstring_def)
    have texts: "text_ok (ev_name ev)" "length (ev_name ev) \<le> 4096" using Cons.prems(1) by (simp_all add: event_ok_def)
    let ?w = "watch_modified (set fs) (set ws) procs (\<lambda>n. r_fork (e_round env n)) (e_slack env) d (ev_name ev) (watch_of st)"
    have "follows d env ?w (ino_event conf env (ev_mask ev) ?name st)"
      unfolding name by (rule event_follows [OF assms(1-3) texts Cons.prems(2) False])
    then have "(\<exists>e. ?w = Inl e \<and> ino_event conf env (ev_mask ev) ?name st = Inl e) \<or>
        (\<exists>st1. ?w = Inr (watch_of st1) \<and> ino_event conf env (ev_mask ev) ?name st = Inr st1 \<and> watch_ok d env st1)"
      unfolding follows_def by (cases ?w) auto
    then consider e where "?w = Inl e" "ino_event conf env (ev_mask ev) ?name st = Inl e"
      | st1 where "?w = Inr (watch_of st1)" "ino_event conf env (ev_mask ev) ?name st = Inr st1" "watch_ok d env st1"
      by blast
    then show ?thesis
    proof cases
      case 1
      with False show ?thesis by (simp add: follows_def)
    next
      case 2
      with False Cons show ?thesis by simp
    qed
  qed
qed (simp add: follows_def)

section \<open>Properties\<close>

text \<open>
  C2. The handling of a buffer of events refines the abstract watcher. Every modified file that is
  not in the ignore list restarts the program: the numbers that \<open>pstree\<close> shows are signalled from
  the last to the first, the child is waited for, and a new one is started, whose tree the next
  event ends. The path that is looked up is the one that the memory gives: the block with the
  working directory has no NUL, and \<open>e_slack env k\<close> is what stands behind it when path \<open>k\<close> is built.
  With a NUL there it is the directory, a slash and the name; with other bytes these are in it and
  the end of the name is lost; when the memory may not be read, the first modified file is
  undefined behaviour. An extension is compared with its point: a list of extensions without points,
  as the default one is, never matches, and one that matches reads an argument that is not there.
  Events without a name are among the events; a modification, which only files in a watched
  directory have, carries the name of the file.
\<close>

theorem ino_procees_events_refines:
  assumes "ignoreFiles conf = map cmon_string fs" "watchExtNames conf = map cmon_string ws"
    "e_dir env = Some d" "length d < 4096" "cwd_cache st = None \<or> cwd_cache st = Some d"
    "\<forall>n. round_ok (e_round env n) (procs n)"
    "\<forall>ev\<in>set evs. event_ok ev \<and> length (ev_name ev) \<le> 255" "last_name_ends evs rest"
    "\<forall>b \<ge> inext (ino_heap st). iarrs (ino_heap st) b = None" "imem (ino_heap st) = []"
    "length (concat (map encode_event evs) @ rest) = 4096"
  shows "case watch_run (set fs) (set ws) procs (\<lambda>n. r_fork (e_round env n)) (e_slack env) d evs
         (child_pid st, paths st, restarts st, actions st) of
       Inl e \<Rightarrow> ino_procees_events conf env (word_of_nat (length (concat (map encode_event evs))))
           (concat (map encode_event evs) @ rest) st = Inl e
     | Inr (child, k, n, acts) \<Rightarrow> \<exists>st1. ino_procees_events conf env (word_of_nat (length (concat (map encode_event evs))))
           (concat (map encode_event evs) @ rest) st = Inr st1 \<and>
         child_pid st1 = child \<and> paths st1 = k \<and> restarts st1 = n \<and> actions st1 = acts"
proof -
  have "\<forall>ev\<in>set evs. event_ok ev" using assms(7) by blast
  note run = procees_events_run [OF this assms(8,11)]
  have ok: "watch_ok d env st"
    using assms(3-5,9,10) by (auto simp: watch_ok_def full_path_cwd_def MAX_PATH_LEN_def)
  show ?thesis
    using run_events_refines [OF assms(1,2,6,7) ok, of rest] unfolding run
    by (auto simp: follows_def watch_of_def split: sum.splits)
qed

text \<open>A sample: two modifications, of a file and of an ignored one, and a watch that is gone.\<close>

definition sample_round :: round where
  "sample_round = \<lparr>r_ps = sample_env, r_child_ends = True, r_fork = 900\<rparr>"

definition sample_procs :: "(byte list \<times> nat) list" where
  "sample_procs = [(''node18'', 123), (''---sh'', 456)]"

definition sample_events :: "event list" where
  "sample_events =
     [\<lparr>ev_wd = 1, ev_mask = 2, ev_cookie = 0, ev_name = ''a.c'', ev_pad = 13\<rparr>,
      \<lparr>ev_wd = 1, ev_mask = 2, ev_cookie = 0, ev_name = ''log'', ev_pad = 13\<rparr>,
      \<lparr>ev_wd = 1, ev_mask = 32768, ev_cookie = 0, ev_name = [], ev_pad = 0\<rparr>]"

definition sample_state :: ino_state where
  "sample_state = \<lparr>child_pid = 123, cwd_cache = None, ino_heap = \<lparr>iarrs = (\<lambda>_. None), inext = 0, imem = []\<rparr>,
     paths = 0, restarts = 0, actions = []\<rparr>"

definition sample_ino :: "(nat \<Rightarrow> byte list option) \<Rightarrow> ino_env" where
  "sample_ino behind = \<lparr>e_dir = Some ''/w'', e_slack = behind, e_round = (\<lambda>_. sample_round)\<rparr>"

lemma sample_events_ok:
  "\<forall>ev\<in>set sample_events. event_ok ev \<and> length (ev_name ev) \<le> 255"
  "length (concat (map encode_event sample_events)) = 80"
  by (simp_all add: sample_events_def event_ok_def ev_len_def NUL_def IN_MODIFY_def encode_event_def)

lemma sample_round_ok: "round_ok sample_round sample_procs"
proof -
  have runs: "runs_short [] (''node18'' @ ''('')" "runs_short [] (''---sh'' @ ''('')" by code_simp+
  have nums: "concat (map proc_numbers sample_procs) = [18, 123, 456]" by code_simp
  have out: "stream (ps_out sample_env) = concat (map render_proc sample_procs) @ [LF]" by code_simp
  show ?thesis
    unfolding round_ok_def nums
    using runs out
    by (simp add: sample_round_def sample_procs_def proc_ok_def del: runs_short.simps) (simp add: sample_env_def)
qed

theorem ino_procees_events_refines_witness:
  "(\<exists>st1. ino_procees_events (new_config\<lparr>ignoreFiles := map cmon_string [''/w/log'']\<rparr>) (sample_ino (\<lambda>_. Some [])) 80
       (concat (map encode_event sample_events) @ replicate 4016 NUL) sample_state = Inr st1 \<and>
     child_pid st1 = 900 \<and> actions st1 = [Kill 456, Kill 123, Kill 18, Wait 123, Start 900]) \<and>
   ino_procees_events (new_config\<lparr>ignoreFiles := map cmon_string [''/w/log'']\<rparr>) (sample_ino (\<lambda>_. None)) 80
       (concat (map encode_event sample_events) @ replicate 4016 NUL) sample_state = Inl (UB OutOfBounds)"
proof -
  let ?conf = "new_config\<lparr>ignoreFiles := map cmon_string [''/w/log'']\<rparr>"
  let ?b = "concat (map encode_event sample_events) @ replicate 4016 NUL"
  let ?w = "(child_pid sample_state, paths sample_state, restarts sample_state, actions sample_state)"
  have nums: "concat (map proc_numbers sample_procs) = [18, 123, 456]" by code_simp
  have run: "watch_run (set [''/w/log'']) (set []) (\<lambda>_. sample_procs) (\<lambda>n. r_fork (e_round (sample_ino behind) n))
      (e_slack (sample_ino behind)) ''/w'' sample_events ?w =
    (case behind 0 of None \<Rightarrow> Inl (UB OutOfBounds) | Some sl \<Rightarrow>
      watch_run {''/w/log''} {} (\<lambda>_. sample_procs) (\<lambda>n. 900) behind ''/w'' sample_events ?w)" for behind
    by (simp add: sample_events_def IN_MODIFY_def watch_modified_def sample_round_def sample_ino_def sample_state_def
        split: option.split)
  have run0: "watch_run {''/w/log''} {} (\<lambda>_. sample_procs) (\<lambda>n. 900) (\<lambda>_. Some []) ''/w'' sample_events ?w =
    Inr (900, 2, 1, [Kill 456, Kill 123, Kill 18, Wait 123, Start 900])"
    by (simp add: sample_events_def IN_MODIFY_def watch_modified_def watch_restart_def nums sample_state_def)
  have tot: "length ?b = 4096" by (simp only: length_append sample_events_ok(2) length_replicate)
  have nul: "last_name_ends sample_events (replicate 4016 NUL)" by (simp add: last_name_ends_def)
  have "case watch_run (set [''/w/log'']) (set []) (\<lambda>_. sample_procs) (\<lambda>n. r_fork (e_round (sample_ino behind) n))
         (e_slack (sample_ino behind)) ''/w'' sample_events ?w of
       Inl e \<Rightarrow> ino_procees_events ?conf (sample_ino behind) (word_of_nat (length (concat (map encode_event sample_events)))) ?b sample_state = Inl e
     | Inr (child, k, n, acts) \<Rightarrow> \<exists>st1. ino_procees_events ?conf (sample_ino behind)
           (word_of_nat (length (concat (map encode_event sample_events)))) ?b sample_state = Inr st1 \<and>
         child_pid st1 = child \<and> paths st1 = k \<and> restarts st1 = n \<and> actions st1 = acts" for behind
    by (rule ino_procees_events_refines [OF _ _ _ _ _ _ sample_events_ok(1) nul _ _ tot])
      (simp_all add: sample_round_ok new_config_def sample_ino_def sample_state_def)
  from this [of "\<lambda>_. Some []"] this [of "\<lambda>_. None"] show ?thesis unfolding run sample_events_ok(2) by (auto simp: run0)
qed

text \<open>
  C28. Without a number to signal the running program is never told to end: when \<open>pstree\<close> prints no
  digit, as when it is not installed, the restart waits until the program ends by itself, and
  forever if it does not. The child that was to become \<open>pstree\<close> goes on in the code of its parent and
  reads the pipe it has closed, out of the bounds of its buffer.
\<close>

theorem ino_restart_without_pstree:
  assumes "\<forall>c\<in>set (stream (ps_out (r_ps (e_round env (restarts st))))). \<not> is_digit c"
    "pipe_ok (r_ps (e_round env (restarts st)))" "ps_fork (r_ps (e_round env (restarts st))) \<noteq> - 1"
    "In_Err \<notin> set (ps_out (r_ps (e_round env (restarts st))))"
    "wait_loop False (ps_wait (r_ps (e_round env (restarts st)))) = Inr ()"
    "\<forall>b \<ge> inext (ino_heap st). iarrs (ino_heap st) b = None" "imem (ino_heap st) = []"
    "0 < child_pid st" "child_pid st \<le> 100000000"
  shows "ps_tree_get_pid_arr_child (child_pid st) False (ino_heap st) = Inl (UB OutOfBounds) \<and>
     (if r_child_ends (e_round env (restarts st))
      then \<exists>st1. ino_restart env st = Inr st1 \<and> child_pid st1 = r_fork (e_round env (restarts st)) \<and>
        actions st1 = actions st @ [Wait (child_pid st), Start (r_fork (e_round env (restarts st)))]
      else ino_restart env st = Inl Diverge)"
proof -
  obtain a h1 where a: "ps_tree_get_pid_arr (child_pid st) (r_ps (e_round env (restarts st))) (ino_heap st) = Inr (Some a, h1)"
    "int_arr_ok h1 a" "ints h1 a = []"
    using pid_arr_of_no_digits [OF assms(1-7)] by blast
  then show ?thesis
    using child_without_pstree [OF assms(8,9)] kill_subtree_ints [OF a(2)]
    by (simp add: ino_restart_def start_child_def Let_def process_start_child_def)
qed

theorem ino_restart_without_pstree_witness:
  "ino_restart
       \<lparr>e_dir = Some ''/w'', e_slack = (\<lambda>_. Some []),
        e_round = (\<lambda>_. \<lparr>r_ps = \<lparr>pipe_ok = True, ps_fork = 77, ps_out = [], ps_wait = [Exited 0]\<rparr>, r_child_ends = False, r_fork = 900\<rparr>)\<rparr>
       sample_state = Inl Diverge"
  using ino_restart_without_pstree [of
      "\<lparr>e_dir = Some ''/w'', e_slack = (\<lambda>_. Some []),
        e_round = (\<lambda>_. \<lparr>r_ps = \<lparr>pipe_ok = True, ps_fork = 77, ps_out = [], ps_wait = [Exited 0]\<rparr>, r_child_ends = False, r_fork = 900\<rparr>)\<rparr>"
      sample_state]
  by (simp add: sample_state_def)

end
