(* ===== verification/Watch_Dirs.thy ===== *)
theory Watch_Dirs
  imports C_Int_Array Config
begin

text \<open>
  \<open>src/src/lib/inotify/inotify.c\<close>, the directories: the inotify instance, one watch, and the
  recursion over a directory tree. The tree is given with what \<open>readdir\<close> delivers for each
  directory, in order; a directory that cannot be opened has no entries to give. The array of
  watch descriptors is passed by value: after a call below, the caller goes on with the pointer it
  had.
\<close>

section \<open>Operations\<close>

datatype dir_entry =
    Dot
  | DotDot
  | Sub "byte list" "dir_entry list option"
  | Other_Entry "byte list"

record wstate =
  w_heap :: iheap
  watch_calls :: "byte list list"

definition ino_init :: "int \<Rightarrow> int res" where
  "ino_init init_rc = (if init_rc < 0 then Inl (Exit (- 1)) else Inr init_rc)"

text \<open>
  \<open>watch_calls\<close> has the paths inotify was asked to watch, in order, the refused ones among them; a
  refusal is the -1 that is returned.
\<close>

definition ino_watch_dir :: "(byte list \<Rightarrow> int) \<Rightarrow> byte list \<Rightarrow> wstate \<Rightarrow> int \<times> wstate" where
  "ino_watch_dir add_watch p g =
     (if add_watch p < 0 then - 1 else add_watch p, g\<lparr>watch_calls := watch_calls g @ [p]\<rparr>)"

fun entry_name :: "dir_entry \<Rightarrow> byte list" where
  "entry_name Dot = ''.''"
| "entry_name DotDot = ''..''"
| "entry_name (Sub n es) = n"
| "entry_name (Other_Entry n) = n"

text \<open>A path with a name behind it, a new string.\<close>

definition new_path :: "CmonString \<Rightarrow> byte list \<Rightarrow> wstate \<Rightarrow> (CmonString option \<times> wstate) res" where
  "new_path p n g =
     bindE (cmon_str_new_from_char_arrs (Some (s_string p)) [cstring n] (imem (w_heap g))) (\<lambda>(s, m).
     Inr (s, g\<lparr>w_heap := (w_heap g)\<lparr>imem := m\<rparr>\<rparr>))"

text \<open>
  A directory entry that is not \<open>..\<close>: unless it is ignored inotify is asked to watch it, the answer is added
  to the array, and the path of what is below it is built. The result has the array, the state
  and that path, if the entry was not ignored.
\<close>

definition visit_dir ::
    "CmonConfig \<Rightarrow> (byte list \<Rightarrow> int) \<Rightarrow> CmonString option \<Rightarrow> nat option \<Rightarrow> wstate \<Rightarrow>
     (nat option \<times> wstate \<times> CmonString option option) res" where
  "visit_dir conf add_watch entryPath wdArr g =
     bindE (cmon_str_arr_find (Some (ignoreDirs conf)) entryPath) (\<lambda>found.
       if found \<noteq> None then Inr (wdArr, g, None)
       else (case entryPath of
           None \<Rightarrow> Inl (UB NullDeref)
         | Some e \<Rightarrow> (case ino_watch_dir add_watch (c_str (s_string e)) g of (wd, g1) \<Rightarrow>
             bindE (cmon_int_arr_add wdArr wd (w_heap g1)) (\<lambda>(q, h).
             bindE (new_path e ''/'' (g1\<lparr>w_heap := h\<rparr>)) (\<lambda>(newPath, g2).
             Inr (q, g2, Some newPath))))))"

text \<open>
  A path that could not be allocated is passed on: it is in no list, and using it stops the program.
\<close>

fun dir_loop ::
    "CmonConfig \<Rightarrow> (byte list \<Rightarrow> int) \<Rightarrow> CmonString \<Rightarrow> dir_entry list \<Rightarrow> nat option \<Rightarrow> wstate \<Rightarrow> wstate res" where
  "dir_loop conf aw p [] wdArr g = Inr g"
| "dir_loop conf aw p (Other_Entry n # es) wdArr g =
     bindE (new_path p n g) (\<lambda>(entryPath, g0). dir_loop conf aw p es wdArr g0)"
| "dir_loop conf aw p (DotDot # es) wdArr g =
     bindE (new_path p ''..'' g) (\<lambda>(entryPath, g0). dir_loop conf aw p es wdArr g0)"
| "dir_loop conf aw p (Dot # es) wdArr g =
     bindE (new_path p ''.'' g) (\<lambda>(entryPath, g0).
     bindE (visit_dir conf aw entryPath wdArr g0) (\<lambda>(q, g1, newPath).
     dir_loop conf aw p es q g1))"
| "dir_loop conf aw p (Sub n sub # es) wdArr g =
     bindE (new_path p n g) (\<lambda>(entryPath, g0).
     bindE (visit_dir conf aw entryPath wdArr g0) (\<lambda>(q, g1, newPath). (case newPath of
         None \<Rightarrow> dir_loop conf aw p es q g1
       | Some None \<Rightarrow> Inl (UB NullDeref)
       | Some (Some np) \<Rightarrow> (case sub of
           None \<Rightarrow> Inl (UB NullDeref)
         | Some es1 \<Rightarrow>
             bindE (dir_loop conf aw np es1 q g1) (\<lambda>g2. dir_loop conf aw p es q g2)))))"

definition ino_recursive_dir_add ::
    "CmonConfig \<Rightarrow> (byte list \<Rightarrow> int) \<Rightarrow> CmonString option \<Rightarrow> dir_entry list option \<Rightarrow> nat option \<Rightarrow>
     wstate \<Rightarrow> wstate res" where
  "ino_recursive_dir_add conf add_watch p entries wdArr g = (case (p, entries) of
      (Some q, Some es) \<Rightarrow> dir_loop conf add_watch q es wdArr g
    | _ \<Rightarrow> Inl (UB NullDeref))"

section \<open>The directories to watch\<close>

text \<open>The paths under \<open>p\<close> to watch, in order: every directory twice, by its name and by its dot.\<close>

fun watch_paths :: "byte list set \<Rightarrow> byte list \<Rightarrow> dir_entry list \<Rightarrow> byte list list" where
  "watch_paths ign p [] = []"
| "watch_paths ign p (Other_Entry n # es) = watch_paths ign p es"
| "watch_paths ign p (DotDot # es) = watch_paths ign p es"
| "watch_paths ign p (Dot # es) =
     (if p @ ''.'' \<in> ign then [] else [p @ ''.'']) @ watch_paths ign p es"
| "watch_paths ign p (Sub n sub # es) =
     (if p @ n \<in> ign then []
      else (p @ n) # (case sub of None \<Rightarrow> [] | Some es1 \<Rightarrow> watch_paths ign (p @ n @ ''/'') es1)) @
     watch_paths ign p es"

text \<open>A tree whose names are C strings, whose paths stay short, and whose directories can be read.\<close>

fun tree_ok :: "byte list set \<Rightarrow> byte list \<Rightarrow> dir_entry list \<Rightarrow> bool" where
  "tree_ok ign p [] \<longleftrightarrow> text_ok p \<and> length p \<le> 257"
| "tree_ok ign p (Other_Entry n # es) \<longleftrightarrow> text_ok n \<and> length n \<le> 257 \<and> tree_ok ign p es"
| "tree_ok ign p (DotDot # es) \<longleftrightarrow> tree_ok ign p es"
| "tree_ok ign p (Dot # es) \<longleftrightarrow> length p \<le> 256 \<and> tree_ok ign p es"
| "tree_ok ign p (Sub n sub # es) \<longleftrightarrow> text_ok n \<and> length (p @ n) \<le> 257 \<and> tree_ok ign p es \<and>
     (p @ n \<in> ign \<or> (case sub of None \<Rightarrow> False | Some es1 \<Rightarrow> tree_ok ign (p @ n @ ''/'') es1))"

lemma tree_ok_path: "tree_ok ign p es \<Longrightarrow> text_ok p \<and> length p \<le> 257"
  by (induction ign p es rule: tree_ok.induct) auto

text \<open>An array with room for \<open>k\<close> more elements in its block, in a memory that does not run out.\<close>

definition room_for :: "iheap \<Rightarrow> nat \<Rightarrow> nat \<Rightarrow> bool" where
  "room_for h a k \<longleftrightarrow> imem h = [] \<and> (case iarrs h a of None \<Rightarrow> False
     | Some r \<Rightarrow> i_len r + k \<le> i_size r \<and> length (i_arr r) = i_size r \<and> i_size r \<le> 5000)"

text \<open>Two stores that differ in one array at most.\<close>

definition only_array :: "nat \<Rightarrow> iheap \<Rightarrow> iheap \<Rightarrow> bool" where
  "only_array a h h1 \<longleftrightarrow> inext h1 = inext h \<and> (\<forall>b. b \<noteq> a \<longrightarrow> iarrs h1 b = iarrs h b)"

lemma room_for_add:
  assumes "room_for h a (Suc k)"
  shows "\<exists>h1. cmon_int_arr_add (Some a) x h = Inr (Some a, h1) \<and> room_for h1 a k \<and>
     ints h1 a = ints h a @ [x] \<and> only_array a h h1"
  using assms
  by (auto simp: room_for_def cmon_int_arr_add_def MAX_INT_ARRAY_SIZE_def ints_def take_Suc_conv_app_nth only_array_def
      split: option.splits)

lemma room_for_le: "room_for h a k \<Longrightarrow> j \<le> k \<Longrightarrow> room_for h a j"
  by (auto simp: room_for_def split: option.splits)

definition wd_of :: "(byte list \<Rightarrow> int) \<Rightarrow> byte list \<Rightarrow> int" where
  "wd_of aw p = (if aw p < 0 then - 1 else aw p)"

lemma new_path_text:
  assumes "text_ok p" "length p \<le> 257" "text_ok n" "length n \<le> 257" "imem (w_heap g) = []"
  shows "new_path (cmon_string p) n g = Inr (Some (cmon_string (p @ n)), g)"
  using new_from_char_arrs_text [of p "[n]"] assms by (simp add: new_path_def cmon_string_def)

lemma visit_dir_ignored:
  assumes "ignoreDirs conf = map cmon_string is" "s \<in> set is"
  shows "visit_dir conf aw (Some (cmon_string s)) wdArr g = Inr (wdArr, g, None)"
  using assms by (simp add: visit_dir_def find_text)

lemma visit_dir_watched:
  assumes "ignoreDirs conf = map cmon_string is" "s \<notin> set is" "text_ok s" "length s \<le> 257"
    "cmon_int_arr_add wdArr (wd_of aw s) (w_heap g) = Inr (q, h)" "imem h = []"
  shows "visit_dir conf aw (Some (cmon_string s)) wdArr g =
     Inr (q, g\<lparr>watch_calls := watch_calls g @ [s], w_heap := h\<rparr>, Some (Some (cmon_string (s @ ''/''))))"
proof -
  have "c_str (s_string (cmon_string s)) = s"
    using assms(3) by (simp add: cmon_string_def cstring_def text_ok_def)
  then show ?thesis
    using assms new_path_text [of s "''/''"]
    by (simp add: visit_dir_def find_text ino_watch_dir_def wd_of_def NUL_def cong: if_cong)
qed

lemma visit_dir_fails:
  assumes "ignoreDirs conf = map cmon_string is" "s \<notin> set is" "text_ok s"
    "cmon_int_arr_add wdArr (wd_of aw s) (w_heap g) = Inl e"
  shows "visit_dir conf aw (Some (cmon_string s)) wdArr g = Inl e"
proof -
  have "c_str (s_string (cmon_string s)) = s"
    using assms(3) by (simp add: cmon_string_def cstring_def text_ok_def)
  then show ?thesis
    using assms by (simp add: visit_dir_def find_text ino_watch_dir_def wd_of_def cong: if_cong)
qed

text \<open>What a walk that stays within its array does to the state.\<close>

definition walked :: "(byte list \<Rightarrow> int) \<Rightarrow> nat \<Rightarrow> nat \<Rightarrow> byte list list \<Rightarrow> wstate \<Rightarrow> wstate \<Rightarrow> bool" where
  "walked aw a k ws g g1 \<longleftrightarrow> watch_calls g1 = watch_calls g @ ws \<and> room_for (w_heap g1) a k \<and>
     ints (w_heap g1) a = ints (w_heap g) a @ map (wd_of aw) ws \<and> only_array a (w_heap g) (w_heap g1)"

lemma walked_trans: "walked aw a j ws g g1 \<Longrightarrow> walked aw a k vs g1 g2 \<Longrightarrow> walked aw a k (ws @ vs) g g2"
  by (simp add: walked_def only_array_def)

lemma visit_dir_room:
  assumes "ignoreDirs conf = map cmon_string is" "s \<notin> set is" "text_ok s" "length s \<le> 257"
    "room_for (w_heap g) a (Suc k)"
  shows "\<exists>g1. visit_dir conf aw (Some (cmon_string s)) (Some a) g =
       Inr (Some a, g1, Some (Some (cmon_string (s @ ''/'')))) \<and> walked aw a k [s] g g1"
proof -
  obtain h where h: "cmon_int_arr_add (Some a) (wd_of aw s) (w_heap g) = Inr (Some a, h)" "room_for h a k"
    "ints h a = ints (w_heap g) a @ [wd_of aw s]" "only_array a (w_heap g) h"
    using room_for_add [OF assms(5)] by blast
  then have "imem h = []" by (simp add: room_for_def)
  from visit_dir_watched [OF assms(1-4) h(1) this] h(2-4) show ?thesis by (simp add: walked_def)
qed

lemma dir_loop_walks:
  assumes "ignoreDirs conf = map cmon_string is" "tree_ok (set is) p es"
    "room_for (w_heap g) a (length (watch_paths (set is) p es) + k)"
  shows "\<exists>g1. dir_loop conf aw (cmon_string p) es (Some a) g = Inr g1 \<and>
     walked aw a k (watch_paths (set is) p es) g g1"
  using assms(2,3)
proof (induction "set is" p es arbitrary: g k rule: watch_paths.induct)
  case (1 p)
  then show ?case by (simp add: walked_def only_array_def)
next
  case (2 p n es)
  then show ?case using new_path_text [of p n g] tree_ok_path by (fastforce simp: room_for_def)
next
  case (3 p es)
  then show ?case using new_path_text [of p "''..''" g] tree_ok_path by (fastforce simp: NUL_def room_for_def)
next
  case (4 p es)
  have e: "new_path (cmon_string p) ''.'' g = Inr (Some (cmon_string (p @ ''.'')), g)"
    using new_path_text [of p "''.''" g] tree_ok_path 4(2,3) by (simp add: NUL_def room_for_def)
  show ?case
  proof (cases "p @ ''.'' \<in> set is")
    case True
    with 4 e show ?thesis by (simp add: visit_dir_ignored [OF assms(1)])
  next
    case False
    let ?j = "length (watch_paths (set is) p es) + k"
    obtain g1 where g1: "visit_dir conf aw (Some (cmon_string (p @ ''.''))) (Some a) g =
        Inr (Some a, g1, Some (Some (cmon_string ((p @ ''.'') @ ''/''))))" "walked aw a ?j [p @ ''.''] g g1"
      using visit_dir_room [OF assms(1) False, of g a ?j] 4(2,3) False tree_ok_path [of "set is" p es]
      by (fastforce simp: NUL_def)
    then obtain g2 where "dir_loop conf aw (cmon_string p) es (Some a) g1 = Inr g2"
      "walked aw a k (watch_paths (set is) p es) g1 g2"
      using 4(1) [of g1 k] 4(2) by (auto simp: walked_def)
    with e g1 False walked_trans [OF g1(2)] show ?thesis by simp
  qed
next
  case (5 p n sub es)
  note path = tree_ok_path [of "set is" p es]
  have e: "new_path (cmon_string p) n g = Inr (Some (cmon_string (p @ n)), g)"
    using new_path_text [of p n g] path 5(3,4) by (simp add: room_for_def)
  show ?case
  proof (cases "p @ n \<in> set is")
    case True
    with 5 e show ?thesis by (simp add: visit_dir_ignored [OF assms(1)])
  next
    case False
    then obtain es1 where sub: "sub = Some es1" "tree_ok (set is) (p @ n @ ''/'') es1"
      using 5(3) by (auto split: option.splits)
    let ?ws = "watch_paths (set is) (p @ n @ ''/'') es1"
    let ?j = "length (watch_paths (set is) p es) + k"
    obtain g1 where g1: "visit_dir conf aw (Some (cmon_string (p @ n))) (Some a) g =
        Inr (Some a, g1, Some (Some (cmon_string ((p @ n) @ ''/''))))" "walked aw a (length ?ws + ?j) [p @ n] g g1"
      using visit_dir_room [OF assms(1) False, of g a "length ?ws + ?j"] 5(3,4) False sub path
      by (fastforce simp: add_ac)
    obtain g2 where g2: "dir_loop conf aw (cmon_string (p @ n @ ''/'')) es1 (Some a) g1 = Inr g2"
      "walked aw a ?j ?ws g1 g2"
      using 5(1) [OF False sub, of g1 ?j] g1(2) by (auto simp: walked_def)
    obtain g3 where g3: "dir_loop conf aw (cmon_string p) es (Some a) g2 = Inr g3"
      "walked aw a k (watch_paths (set is) p es) g2 g3"
      using 5(2) [of g2 k] 5(3) g2(2) by (auto simp: walked_def)
    have "walked aw a k ([p @ n] @ ?ws @ watch_paths (set is) p es) g g3"
      using walked_trans [OF g1(2) walked_trans [OF g2(2) g3(2)]] .
    with e g1(1) g2(1) g3(1) False sub show ?thesis by simp
  qed
qed

text \<open>A full array moves: the old pointer is dead.\<close>

lemma full_array_moves:
  assumes "iarrs h a = Some r" "i_len r = i_size r" "length (i_arr r) = i_size r" "i_size r < 5000"
    "\<forall>b \<ge> inext h. iarrs h b = None" "imem h = []"
  shows "\<exists>b h1. cmon_int_arr_add (Some a) x h = Inr (Some b, h1) \<and> iarrs h1 a = None \<and> imem h1 = []"
proof -
  have "a \<noteq> inext h" using assms(1,5) by auto
  with assms show ?thesis
    by (simp add: cmon_int_arr_add_def cmon_int_arr_new_def MAX_INT_ARRAY_SIZE_def MEMORY_INCREMENT_def)
qed

lemma add_last_place:
  assumes "iarrs h a = Some r" "i_len r + 1 = i_size r" "length (i_arr r) = i_size r" "i_size r < 5000"
  shows "cmon_int_arr_add (Some a) x h =
     Inr (Some a, h\<lparr>iarrs := (iarrs h)(a \<mapsto> r\<lparr>i_arr := (i_arr r)[i_len r := x], i_len := i_size r\<rparr>)\<rparr>)"
  using assms by (simp add: cmon_int_arr_add_def MAX_INT_ARRAY_SIZE_def)

lemma add_dead_pointer: "iarrs h a = None \<Longrightarrow> cmon_int_arr_add (Some a) x h = Inl (UB UseAfterFree)"
  by (simp add: cmon_int_arr_add_def)

section \<open>Properties\<close>

text \<open>
  C13. While the descriptors fit into the block the array was made with, the walk over a directory
  tree asks inotify to watch exactly the directories that are not ignored, and none below an ignored
  one, in the order of the listing, each once by its name and once by the dot in it; it adds the
  descriptor of each watch, -1 for one that was refused, to the caller's array.
\<close>

theorem ino_recursive_dir_add_watches:
  assumes "ignoreDirs conf = map cmon_string igs" "tree_ok (set igs) p es"
    "room_for (w_heap g) a (length (watch_paths (set igs) p es))"
  shows "\<exists>g1. ino_recursive_dir_add conf aw (Some (cmon_string p)) (Some es) (Some a) g = Inr g1 \<and>
     watch_calls g1 = watch_calls g @ watch_paths (set igs) p es \<and>
     ints (w_heap g1) a = ints (w_heap g) a @ map (wd_of aw) (watch_paths (set igs) p es)"
  using dir_loop_walks [OF assms(1,2), of g a 0 aw] assms(3)
  by (auto simp: ino_recursive_dir_add_def walked_def)

definition sample_tree :: "dir_entry list" where
  "sample_tree = [Dot, DotDot, Sub ''.git'' None, Sub ''src'' (Some [DotDot, Dot, Other_Entry ''a.c'']), Other_Entry ''log'']"

theorem ino_recursive_dir_add_watches_witness:
  "\<exists>g1. ino_recursive_dir_add (new_config\<lparr>ignoreDirs := map cmon_string [''/w/.git'']\<rparr>) (\<lambda>p. int (length p))
       (Some (cmon_string ''/w/'')) (Some sample_tree) (Some 0)
       \<lparr>w_heap = \<lparr>iarrs = [0 \<mapsto> \<lparr>i_len = 0, i_size = 100, i_arr = replicate 100 0\<rparr>], inext = 7, imem = []\<rparr>, watch_calls = []\<rparr> = Inr g1 \<and>
     watch_calls g1 = [''/w/.'', ''/w/src'', ''/w/src/.''] \<and> ints (w_heap g1) 0 = [4, 6, 8]"
proof -
  let ?g = "\<lparr>w_heap = \<lparr>iarrs = [0 \<mapsto> \<lparr>i_len = 0, i_size = 100, i_arr = replicate 100 0\<rparr>], inext = 7, imem = []\<rparr>, watch_calls = []\<rparr>"
  have ws: "watch_paths (set [''/w/.git'']) ''/w/'' sample_tree = [''/w/.'', ''/w/src'', ''/w/src/.'']"
    by (simp add: sample_tree_def)
  have ok: "tree_ok (set [''/w/.git'']) ''/w/'' sample_tree" by (simp add: sample_tree_def NUL_def)
  have "\<exists>g1. ino_recursive_dir_add (new_config\<lparr>ignoreDirs := map cmon_string [''/w/.git'']\<rparr>) (\<lambda>p. int (length p))
       (Some (cmon_string ''/w/'')) (Some sample_tree) (Some 0) ?g = Inr g1 \<and>
     watch_calls g1 = watch_calls ?g @ watch_paths (set [''/w/.git'']) ''/w/'' sample_tree \<and>
     ints (w_heap g1) 0 = ints (w_heap ?g) 0 @ map (wd_of (\<lambda>p. int (length p))) (watch_paths (set [''/w/.git'']) ''/w/'' sample_tree)"
    by (rule ino_recursive_dir_add_watches [OF _ ok]) (simp_all add: ws [simplified] room_for_def)
  then show ?thesis unfolding ws by (simp add: ints_def wd_of_def)
qed

text \<open>
  C24. The array is passed by value: when it becomes full at a subdirectory, the call for the
  subdirectory moves it and frees the block, and the next directory of the caller is added to the
  freed block.
\<close>

theorem ino_recursive_dir_add_stale:
  assumes "ignoreDirs conf = map cmon_string igs" "text_ok p" "text_ok n" "text_ok m"
    "length (p @ n) \<le> 250" "length (p @ m) \<le> 250"
    "p @ n \<notin> set igs" "p @ n @ ''/.'' \<notin> set igs" "p @ m \<notin> set igs"
    "iarrs (w_heap g) a = Some r" "i_len r + 1 = i_size r" "length (i_arr r) = i_size r" "i_size r < 5000"
    "\<forall>b \<ge> inext (w_heap g). iarrs (w_heap g) b = None" "imem (w_heap g) = []"
  shows "ino_recursive_dir_add conf aw (Some (cmon_string p))
     (Some (Sub n (Some [Dot, DotDot]) # Sub m sub # es)) (Some a) g = Inl (UB UseAfterFree)"
proof -
  let ?np = "p @ n @ ''/''"
  have texts: "text_ok ?np" "length ?np \<le> 251" "text_ok (?np @ ''.'')" "text_ok (p @ n)" "text_ok (p @ m)"
    using assms(2-5) by (simp_all add: NUL_def)
  let ?h = "(w_heap g)\<lparr>iarrs := (iarrs (w_heap g))(a \<mapsto> r\<lparr>i_arr := (i_arr r)[i_len r := wd_of aw (p @ n)], i_len := i_size r\<rparr>)\<rparr>"
  let ?g = "g\<lparr>watch_calls := watch_calls g @ [p @ n], w_heap := ?h\<rparr>"
  have add1: "cmon_int_arr_add (Some a) (wd_of aw (p @ n)) (w_heap g) = Inr (Some a, ?h)"
    using add_last_place [OF assms(10-13)] .
  have v1: "visit_dir conf aw (Some (cmon_string (p @ n))) (Some a) g = Inr (Some a, ?g, Some (Some (cmon_string ?np)))"
    using visit_dir_watched [OF assms(1,7) texts(4) _ add1] assms(5,15) by simp
  have "\<forall>b \<ge> inext ?h. iarrs ?h b = None" using assms(10,14) by auto
  then obtain b h1 where moved: "cmon_int_arr_add (Some a) (wd_of aw (?np @ ''.'')) ?h = Inr (Some b, h1)"
    "iarrs h1 a = None" "imem h1 = []"
    using full_array_moves [of ?h a "r\<lparr>i_arr := (i_arr r)[i_len r := wd_of aw (p @ n)], i_len := i_size r\<rparr>"
        "wd_of aw (?np @ ''.'')"] assms(12,13,15) by auto
  let ?g2 = "?g\<lparr>watch_calls := watch_calls ?g @ [?np @ ''.''], w_heap := h1\<rparr>"
  have v2: "visit_dir conf aw (Some (cmon_string (?np @ ''.''))) (Some a) ?g =
      Inr (Some b, ?g2, Some (Some (cmon_string ((?np @ ''.'') @ ''/''))))"
    by (rule visit_dir_watched [OF assms(1) _ texts(3)]) (use texts(2) assms(8) moved in simp_all)
  have v3: "visit_dir conf aw (Some (cmon_string (p @ m))) (Some a) ?g2 = Inl (UB UseAfterFree)"
    by (rule visit_dir_fails [OF assms(1,9) texts(5)]) (use add_dead_pointer [OF moved(2)] in simp)
  have paths: "new_path (cmon_string p) n g = Inr (Some (cmon_string (p @ n)), g)"
    "new_path (cmon_string p) m ?g2 = Inr (Some (cmon_string (p @ m)), ?g2)"
    "new_path (cmon_string ?np) ''.'' ?g = Inr (Some (cmon_string (?np @ ''.'')), ?g)"
    "new_path (cmon_string ?np) ''..'' ?g2 = Inr (Some (cmon_string (?np @ ''..'')), ?g2)"
    using assms(2-6,15) texts moved(3) by (intro new_path_text; simp add: NUL_def)+
  have "dir_loop conf aw (cmon_string ?np) [Dot, DotDot] (Some a) ?g = Inr ?g2"
    using paths(3,4) v2 by simp
  then show ?thesis
    using paths(1,2) v1 v3 by (simp add: ino_recursive_dir_add_def)
qed

theorem ino_recursive_dir_add_stale_witness:
  "ino_recursive_dir_add new_config (\<lambda>p. 1) (Some (cmon_string ''/''))
     (Some [Sub ''a'' (Some [Dot, DotDot]), Sub ''b'' None]) (Some 0)
     \<lparr>w_heap = \<lparr>iarrs = [0 \<mapsto> \<lparr>i_len = 99, i_size = 100, i_arr = replicate 100 0\<rparr>], inext = 7, imem = []\<rparr>, watch_calls = []\<rparr> =
   Inl (UB UseAfterFree)"
  by (rule ino_recursive_dir_add_stale [where r = "\<lparr>i_len = 99, i_size = 100, i_arr = replicate 100 0\<rparr>" and igs = "[]"])
    (simp_all add: new_config_def NUL_def)

end
