(* ===== verification/Cmon_Main.thy ===== *)
theory Cmon_Main
  imports Inotify Watch_Dirs Stepper
begin

text \<open>
  \<open>src/src/main.c\<close>: the start of the program and its loop. The loop is never left; the model runs it
  over a list of answers of \<open>poll\<close> and \<open>read\<close>, so that what holds after every list holds at every
  moment. Printing, and the second of sleep before the loop, are not modelled.
\<close>

section \<open>The start\<close>

record main_env =
  m_args :: "byte list list"
  m_path_max :: int
  m_dir :: "byte list option"
  m_access :: access_rc
  m_opened :: bool
  m_content :: "byte list"
  m_lexem :: "byte list"
  m_inotify :: int
  m_tree :: "dir_entry list option"
  m_add_watch :: "byte list \<Rightarrow> int"
  m_fork :: int

text \<open>The state before the first child is started; nothing reads \<open>sub_pid\<close> then.\<close>

definition before_child :: "iheap \<Rightarrow> ino_state" where
  "before_child h = \<lparr>child_pid = 0, cwd_cache = None, ino_heap = h, paths = 0, restarts = 0, actions = []\<rparr>"

definition main_start :: "main_env \<Rightarrow> iheap \<Rightarrow> (CmonConfig \<times> byte list list \<times> ino_state) res" where
  "main_start m h0 = (case cmon_int_arr_new 100 h0 of (wdArr, h) \<Rightarrow>
     bindE (config_new (imem h)) (\<lambda>(conf0, m1).
     bindE (config_init conf0 (m_args m) (m_path_max m) (m_dir m) (m_access m) (m_opened m)
              (m_content m) (m_lexem m) m1) (\<lambda>(conf, m2).
     bindE (ino_init (m_inotify m)) (\<lambda>inotifyFd.
     bindE (read_field (cwd conf)) (\<lambda>c.
     bindE (cmon_str_copy c m2) (\<lambda>(p, m3).
     bindE (ino_recursive_dir_add conf (m_add_watch m) p (m_tree m) wdArr
              \<lparr>w_heap = h\<lparr>imem := m3\<rparr>, watch_calls = []\<rparr>) (\<lambda>g.
     let st = start_child (m_fork m) (before_child (w_heap g)) in
     bindE (config_print conf) (\<lambda>out. Inr (conf, watch_calls g, st)))))))))"

section \<open>The loop\<close>

text \<open>What \<open>poll\<close> reports: events to read, with what \<open>read\<close> then returns (\<open>None\<close> for -1), or anything else.\<close>

datatype poll_result = Poll_Other | Poll_In "byte list option"

definition main_turn ::
    "CmonConfig \<Rightarrow> ino_env \<Rightarrow> poll_result \<Rightarrow> byte list \<times> ino_state \<Rightarrow> (byte list \<times> ino_state) res" where
  "main_turn conf env pr s = (case (pr, s) of
      (Poll_Other, s) \<Rightarrow> Inr s
    | (Poll_In None, (buff, st)) \<Rightarrow>
        bindE (ino_procees_events conf env (- 1) buff st) (\<lambda>st1. Inr (buff, st1))
    | (Poll_In (Some bs), (buff, st)) \<Rightarrow>
        if length buff < length bs then Inl (UB OutOfBounds)
        else bindE (ino_procees_events conf env (word_of_nat (length bs)) (blit buff 0 bs) st) (\<lambda>st1.
             Inr (blit buff 0 bs, st1)))"

fun main_loop ::
    "CmonConfig \<Rightarrow> ino_env \<Rightarrow> poll_result list \<Rightarrow> byte list \<times> ino_state \<Rightarrow> (byte list \<times> ino_state) res" where
  "main_loop conf env [] s = Inr s"
| "main_loop conf env (pr # prs) s = bindE (main_turn conf env pr s) (main_loop conf env prs)"

text \<open>\<open>main\<close>, with a buffer of 4096 bytes that holds anything.\<close>

definition cmon_main ::
    "main_env \<Rightarrow> ino_env \<Rightarrow> byte list \<Rightarrow> iheap \<Rightarrow> poll_result list \<Rightarrow> (byte list \<times> ino_state) res" where
  "cmon_main m env buff h prs =
     bindE (main_start m h) (\<lambda>(conf, ws, st). main_loop conf env prs (buff, st))"

section \<open>Facts\<close>

interpretation turns: stepper "main_turn conf env" "main_loop conf env" for conf env
  by unfold_locales simp_all

lemma failed_read_stops:
  assumes "length buff = 4096"
  shows "main_turn conf env (Poll_In None) (buff, st) = Inl (UB OutOfBounds)"
proof -
  have "unat (- 1 :: size_t) = 2 ^ 64 - 1" by (simp add: unsigned_minus_1_eq_mask mask_eq_exp_minus_1)
  with assms show ?thesis by (simp add: main_turn_def ino_procees_events_def)
qed

text \<open>A list of event lists, each read by one turn of the loop.\<close>

definition reads :: "event list list \<Rightarrow> poll_result list" where
  "reads evss = map (\<lambda>evs. Poll_In (Some (concat (map encode_event evs)))) evss"

text \<open>
  Reads of at most 4096 bytes each into a buffer that holds \<open>buff\<close> before; what a read does not
  write is left from the ones before.
\<close>

fun reads_ok :: "byte list \<Rightarrow> event list list \<Rightarrow> bool" where
  "reads_ok buff [] \<longleftrightarrow> True"
| "reads_ok buff (evs # evss) \<longleftrightarrow> (\<forall>ev\<in>set evs. event_ok ev \<and> length (ev_name ev) \<le> 255) \<and>
     length (concat (map encode_event evs)) \<le> 4096 \<and>
     last_name_ends evs (drop (length (concat (map encode_event evs))) buff) \<and>
     reads_ok (blit buff 0 (concat (map encode_event evs))) evss"

text \<open>It is enough that the reads never fill the buffer and that a NUL is left in its last byte.\<close>

lemma reads_ok_room:
  assumes "length buff = 4096" "buff ! 4095 = NUL"
    "\<forall>evs\<in>set evss. (\<forall>ev\<in>set evs. event_ok ev \<and> length (ev_name ev) \<le> 255) \<and>
       length (concat (map encode_event evs)) < 4096"
  shows "reads_ok buff evss"
  using assms
proof (induction evss arbitrary: buff)
  case (Cons evs evss)
  define b where "b = concat (map encode_event evs)"
  have b: "length b < 4096" using Cons.prems(3) by (simp add: b_def)
  then have "drop (length b) buff ! (4095 - length b) = NUL" "4095 - length b < length (drop (length b) buff)"
    using Cons.prems(1,2) by simp_all
  then have nul: "NUL \<in> set (drop (length b) buff)" by (metis nth_mem)
  have blit: "blit buff 0 b = b @ drop (length b) buff" by (simp add: blit_def)
  have "reads_ok (blit buff 0 b) evss"
    using Cons.prems b by (intro Cons.IH) (simp_all add: blit nth_append)
  then show ?case using Cons.prems(3) nul b unfolding b_def by (simp add: last_name_ends_def del: length_concat)
qed simp

lemma watch_run_append:
  "watch_run ig ex procs kid behind d (a @ b) w =
     bindE (watch_run ig ex procs kid behind d a w) (watch_run ig ex procs kid behind d b)"
proof (induction a arbitrary: w)
  case (Cons ev a)
  then show ?case by (cases "watch_modified ig ex procs kid behind d (ev_name ev) w") simp_all
qed simp

lemma main_loop_reads:
  assumes "ignoreFiles conf = map cmon_string fs" "watchExtNames conf = map cmon_string ws"
    "\<forall>n. round_ok (e_round env n) (procs n)" "reads_ok buff evss" "watch_ok d env st" "length buff = 4096"
  shows "case watch_run (set fs) (set ws) procs (\<lambda>n. r_fork (e_round env n)) (e_slack env) d (concat evss) (watch_of st) of
       Inl e \<Rightarrow> main_loop conf env (reads evss) (buff, st) = Inl e
     | Inr w \<Rightarrow> \<exists>buff1 st1. main_loop conf env (reads evss) (buff, st) = Inr (buff1, st1) \<and>
         length buff1 = 4096 \<and> watch_of st1 = w"
  using assms(4-6)
proof (induction evss arbitrary: st buff)
  case (Cons evs evss)
  let ?b = "concat (map encode_event evs)"
  let ?run = "watch_run (set fs) (set ws) procs (\<lambda>n. r_fork (e_round env n)) (e_slack env) d"
  have len: "length ?b \<le> 4096" using Cons.prems(1) by simp
  have blit: "blit buff 0 ?b = ?b @ drop (length ?b) buff" by (simp add: blit_def)
  have evs: "\<forall>ev\<in>set evs. event_ok ev \<and> length (ev_name ev) \<le> 255"
    "last_name_ends evs (drop (length ?b) buff)" "reads_ok (?b @ drop (length ?b) buff) evss"
    using Cons.prems(1) blit by simp_all
  then have ok: "\<forall>ev\<in>set evs. event_ok ev" by blast
  have len2: "length (?b @ drop (length ?b) buff) = 4096" using len Cons.prems(3) by simp
  have turn: "main_turn conf env (Poll_In (Some ?b)) (buff, st) =
      bindE (run_events conf env evs (drop (length ?b) buff) st) (\<lambda>st1. Inr (?b @ drop (length ?b) buff, st1))"
    using procees_events_run [OF ok evs(2) len2] len Cons.prems(3) by (simp add: main_turn_def blit)
  have follow: "follows d env (?run evs (watch_of st)) (run_events conf env evs (drop (length ?b) buff) st)"
    using run_events_refines [OF assms(1-3) evs(1) Cons.prems(2)] .
  show ?case
  proof (cases "?run evs (watch_of st)")
    case (Inl e)
    with follow turn show ?thesis by (simp add: follows_def reads_def watch_run_append)
  next
    case (Inr w)
    then obtain st1 where st1: "run_events conf env evs (drop (length ?b) buff) st = Inr st1"
      "watch_ok d env st1" "watch_of st1 = w" using follow by (auto simp: follows_def)
    have loop: "main_loop conf env (reads (evs # evss)) (buff, st) =
        main_loop conf env (reads evss) (?b @ drop (length ?b) buff, st1)"
      using turn st1(1) by (simp add: reads_def)
    have run: "?run (concat (evs # evss)) (watch_of st) = ?run (concat evss) (watch_of st1)"
      using Inr st1(3) by (simp add: watch_run_append)
    show ?thesis
      unfolding loop run by (rule Cons.IH [OF evs(3) st1(2) len2])
  qed
qed (simp add: reads_def)

section \<open>A start that succeeds\<close>

text \<open>The entries of the configuration with the working directory in front.\<close>

definition in_dir :: "byte list \<Rightarrow> byte list list \<Rightarrow> byte list list" where
  "in_dir d ws = map (\<lambda>w. d @ ''/'' @ w) ws"

text \<open>
  The environment of a start without surprises: arguments and a directory of the usual size, a
  configuration file made of the sections \<open>ss\<close> with at most 50 directories to ignore, and a tree \<open>es\<close> with
  at most 100 watches.
\<close>

definition start_ok :: "main_env \<Rightarrow> byte list \<Rightarrow> cfg_section list \<Rightarrow> dir_entry list \<Rightarrow> bool" where
  "start_ok m d ss es \<longleftrightarrow>
     2 \<le> length (m_args m) \<and> text_ok (m_args m ! 1) \<and> length (m_args m ! 1) \<le> 257 \<and>
     m_dir m = Some d \<and> cwd_fits (m_path_max m) d \<and> text_ok d \<and> length d \<le> 256 \<and>
     length (m_lexem m) = MAX_LEXEM_LEN \<and> m_access m = Readable \<and> m_opened m \<and>
     m_content m = concat (map render_section ss) \<and>
     (\<forall>s\<in>set ss. section_ok s \<and> (\<exists>e. sec_key s = entry_key e)) \<and>
     length (concat (map section_tokens ss)) \<le> MAX_TOKENS \<and>
     (\<forall>s\<in>set ss. \<forall>w\<in>set (section_words s). length ((d @ ''/'') @ w) \<le> 257) \<and>
     length (words_of IGNORE_DIRS ss) \<le> 50 \<and> 0 \<le> m_inotify m \<and> m_tree m = Some es \<and>
     tree_ok (set (in_dir d (words_of IGNORE_DIRS ss))) (d @ ''/'') es \<and>
     length (watch_paths (set (in_dir d (words_of IGNORE_DIRS ss))) (d @ ''/'') es) \<le> 100"

lemma main_started:
  assumes "start_ok m d ss es" "\<forall>b \<ge> inext h. iarrs h b = None" "imem h = []"
  shows "\<exists>conf st. main_start m h =
       Inr (conf, watch_paths (set (in_dir d (words_of IGNORE_DIRS ss))) (d @ ''/'') es, st) \<and>
     exe conf = Written (Some (cmon_string (m_args m ! 1))) \<and>
     ignoreFiles conf = map cmon_string (in_dir d (take INITIAL_ARRAY_SIZE (words_of IGNORE_FILES ss))) \<and>
     watchExtNames conf = map cmon_string (take INITIAL_ARRAY_SIZE (words_of WATCH_FILE_EXT_NAMES ss)) \<and>
     child_pid st = m_fork m \<and> cwd_cache st = None \<and> paths st = 0 \<and> restarts st = 0 \<and> actions st = [Start (m_fork m)] \<and>
     (\<forall>b \<ge> inext (ino_heap st). iarrs (ino_heap st) b = None) \<and> imem (ino_heap st) = []"
proof -
  note ok = assms(1) [unfolded start_ok_def]
  let ?ign = "set (in_dir d (words_of IGNORE_DIRS ss))"
  obtain conf where conf: "config_init new_config (m_args m) (m_path_max m) (m_dir m) (m_access m) (m_opened m)
        (m_content m) (m_lexem m) [] = Inr (conf, [])"
    "exe conf = Written (Some (cmon_string (m_args m ! 1)))" "cwd conf = Written (Some (cmon_string (d @ ''/'')))"
    "\<forall>e. entry_array e conf = take INITIAL_ARRAY_SIZE (map (entry_string (d @ ''/'') e) (words_of e ss))"
    using config_init_sections [of "m_args m" "m_path_max m" d "m_lexem m" ss] ok by auto
  have "length (words_of IGNORE_DIRS ss) \<le> INITIAL_ARRAY_SIZE" using ok by (simp add: INITIAL_ARRAY_SIZE_def)
  then have dirs: "ignoreDirs conf = map cmon_string (in_dir d (words_of IGNORE_DIRS ss))"
    "ignoreFiles conf = map cmon_string (in_dir d (take INITIAL_ARRAY_SIZE (words_of IGNORE_FILES ss)))"
    "watchExtNames conf = map cmon_string (take INITIAL_ARRAY_SIZE (words_of WATCH_FILE_EXT_NAMES ss))"
    using conf(4) [rule_format, of IGNORE_DIRS] conf(4) [rule_format, of IGNORE_FILES]
      conf(4) [rule_format, of WATCH_FILE_EXT_NAMES]
    by (simp_all add: entry_string_def in_dir_def take_map)
  let ?h = "h\<lparr>iarrs := (iarrs h)(inext h \<mapsto> \<lparr>i_len = 0, i_size = 100, i_arr = replicate 100 0\<rparr>), inext := Suc (inext h)\<rparr>"
  have new: "cmon_int_arr_new 100 h = (Some (inext h), ?h)" using assms(3) by (simp add: cmon_int_arr_new_def)
  have mem: "?h\<lparr>imem := []\<rparr> = ?h" "imem ?h = []" using assms(3) by simp_all
  have room: "room_for ?h (inext h) (length (watch_paths ?ign (d @ ''/'') es) + 0)"
    using ok mem(2) by (simp add: room_for_def)
  obtain g where g: "ino_recursive_dir_add conf (m_add_watch m) (Some (cmon_string (d @ ''/''))) (m_tree m)
        (Some (inext h)) \<lparr>w_heap = ?h, watch_calls = []\<rparr> = Inr g" "watch_calls g = watch_paths ?ign (d @ ''/'') es"
    "only_array (inext h) ?h (w_heap g)" "imem (w_heap g) = []"
    using dir_loop_walks [OF dirs(1), of "d @ ''/''" es "\<lparr>w_heap = ?h, watch_calls = []\<rparr>" "inext h" 0 "m_add_watch m"]
      ok room by (auto simp: ino_recursive_dir_add_def walked_def room_for_def)
  have fresh: "\<forall>b \<ge> inext (w_heap g). iarrs (w_heap g) b = None"
    using g(3) assms(2) by (auto simp: only_array_def)
  have copy: "cmon_str_copy (Some (cmon_string (d @ ''/''))) [] = Inr (Some (cmon_string (d @ ''/'')), [])"
    using cmon_str_new_text [of "d @ ''/''"] ok by (simp add: cmon_str_copy_def cmon_string_def NUL_def)
  obtain out where out: "config_print conf = Inr out" using conf(3) by (simp add: config_print_def)
  have "0 \<le> m_inotify m" using ok by blast
  then have "main_start m h = Inr (conf, watch_calls g, start_child (m_fork m) (before_child (w_heap g)))"
    using new mem conf(1,3) copy g(1) out
    by (simp add: main_start_def config_new_def ino_init_def Let_def)
  then show ?thesis
    using conf(2) dirs(2,3) g(2,4) fresh by (simp add: start_child_def before_child_def process_start_child_def)
qed

end
