(* ===== verification/Logger.thy ===== *)
theory Logger
  imports Ps_Tree
begin

text \<open>
  \<open>src/src/logger/logger.c\<close>: the log file is chosen and opened once, at the first line, and every
  line is appended to it and flushed. The environment variables, the clock, \<open>errno\<close> and the
  allocator are arguments; a message is given as it comes out of its format.
\<close>

datatype log_priority = LOG_DEBUG | LOG_INFO | LOG_WARNING | LOG_ERROR | Other_Priority int

record Logger =
  file_p :: "byte list"
  l_pid :: int
  file_path :: "byte list"

record log_env =
  le_logger_mem :: bool
  le_path_mem :: bool
  le_xdg :: "byte list option"
  le_home :: "byte list option"
  le_errno :: int
  le_open :: "byte list \<Rightarrow> byte list option"
  le_pid :: int

record tm =
  tm_year :: int
  tm_mon :: int
  tm_mday :: int
  tm_hour :: int
  tm_min :: int
  tm_sec :: int

definition MAX_PATH_SIZE :: nat where
  "MAX_PATH_SIZE = 2048"

text \<open>
  \<open>snprintf\<close> into a block of 2048 bytes keeps 2047 of them and returns the length of all. The file
  opened for appending is given by its content.
\<close>

definition log_init :: "Logger option \<Rightarrow> log_env \<Rightarrow> Logger res" where
  "log_init logger env = (case logger of
      Some l \<Rightarrow> Inr l
    | None \<Rightarrow>
        if \<not> le_logger_mem env then Inl (Exit 1)
        else if \<not> le_path_mem env then Inl (Exit 2)
        else bindE (case le_xdg env of
               Some p \<Rightarrow> Inr (p @ ''/cmon.log'')
             | None \<Rightarrow> (case le_home env of
                 None \<Rightarrow> Inl (Exit (le_errno env))
               | Some p \<Rightarrow> Inr (p @ ''/.local/state/cmon.log''))) (\<lambda>p.
             if length p > MAX_PATH_SIZE then Inl (Exit (le_errno env))
             else (case le_open env (take (MAX_PATH_SIZE - 1) p) of
                 None \<Rightarrow> Inl (Exit (le_errno env))
               | Some content \<Rightarrow>
                   Inr \<lparr>file_p = content, l_pid = le_pid env, file_path = take (MAX_PATH_SIZE - 1) p\<rparr>)))"

fun priority_str :: "log_priority \<Rightarrow> byte list" where
  "priority_str LOG_DEBUG = ''DEBUG''"
| "priority_str LOG_INFO = ''INFO''"
| "priority_str LOG_WARNING = ''WARNING''"
| "priority_str LOG_ERROR = ''ERROR''"
| "priority_str (Other_Priority n) = ''UNDEFINED''"

definition log_line :: "int \<Rightarrow> tm \<Rightarrow> log_priority \<Rightarrow> byte list \<Rightarrow> byte list" where
  "log_line p t prio msg =
     show_int p @ '' | '' @ show_int (tm_year t + 1900) @ ''-'' @ show_int (tm_mon t) @ ''-'' @
     show_int (tm_mday t) @ '' | '' @ show_int (tm_hour t) @ '':'' @ show_int (tm_min t) @ '':'' @
     show_int (tm_sec t) @ '' | '' @ priority_str prio @ '' | '' @ msg @ [LF]"

definition log_write :: "Logger option \<Rightarrow> log_env \<Rightarrow> tm \<Rightarrow> log_priority \<Rightarrow> byte list \<Rightarrow> Logger res" where
  "log_write logger env t prio msg =
     bindE (case logger of None \<Rightarrow> log_init None env | Some l \<Rightarrow> Inr l) (\<lambda>l.
     Inr (l\<lparr>file_p := file_p l @ log_line (l_pid l) t prio msg\<rparr>))"

text \<open>A sequence of lines, each with its time, by the same process.\<close>

fun log_writes :: "Logger option \<Rightarrow> log_env \<Rightarrow> (tm \<times> log_priority \<times> byte list) list \<Rightarrow> Logger option res" where
  "log_writes l env [] = Inr l"
| "log_writes l env ((t, prio, msg) # ls) =
     bindE (log_write l env t prio msg) (\<lambda>l1. log_writes (Some l1) env ls)"

section \<open>Facts\<close>

lemma log_writes_open:
  "log_writes (Some l) env ls =
     Inr (Some (l\<lparr>file_p := file_p l @ concat (map (\<lambda>(t, prio, msg). log_line (l_pid l) t prio msg) ls)\<rparr>))"
  by (induction ls arbitrary: l) (auto simp: log_write_def)

definition log_path :: "log_env \<Rightarrow> byte list option" where
  "log_path env = (case le_xdg env of
      Some p \<Rightarrow> Some (p @ ''/cmon.log'')
    | None \<Rightarrow> map_option (\<lambda>p. p @ ''/.local/state/cmon.log'') (le_home env))"

section \<open>Properties\<close>

text \<open>
  C38. The first line chooses the file: under the state directory of the environment if it is set,
  else under the home directory, and the program ends when there is neither or the path has more
  than 2048 bytes. From then on every call appends one line to that file, after all the lines
  before it. A path of exactly 2048 bytes is accepted and loses its last byte.
\<close>

theorem log_writes_append:
  assumes "le_logger_mem env" "le_path_mem env" "ls \<noteq> []"
  shows "log_writes None env ls = (case log_path env of
       None \<Rightarrow> Inl (Exit (le_errno env))
     | Some p \<Rightarrow>
         if 2048 < length p then Inl (Exit (le_errno env))
         else (case le_open env (take 2047 p) of
             None \<Rightarrow> Inl (Exit (le_errno env))
           | Some content \<Rightarrow> Inr (Some \<lparr>file_p = content @ concat (map (\<lambda>(t, prio, msg). log_line (le_pid env) t prio msg) ls),
               l_pid = le_pid env, file_path = take 2047 p\<rparr>)))"
  using assms
  by (cases ls)
    (auto simp: log_write_def log_init_def log_path_def MAX_PATH_SIZE_def log_writes_open simp del: take_append
      split: option.split)

definition sample_time :: tm where
  "sample_time = \<lparr>tm_year = 125, tm_mon = 0, tm_mday = 31, tm_hour = 7, tm_min = 5, tm_sec = 9\<rparr>"

theorem log_writes_append_witness:
  "log_writes None \<lparr>le_logger_mem = True, le_path_mem = True, le_xdg = None, le_home = Some ''/root'',
       le_errno = 0, le_open = (\<lambda>p. Some ''''), le_pid = 42\<rparr> [(sample_time, LOG_INFO, ''up'')] =
     Inr (Some \<lparr>file_p = ''42 | 2025-0-31 | 7:5:9 | INFO | up'' @ [LF], l_pid = 42,
       file_path = ''/root/.local/state/cmon.log''\<rparr>)"
proof -
  have line: "log_line 42 sample_time LOG_INFO ''up'' = ''42 | 2025-0-31 | 7:5:9 | INFO | up'' @ [LF]" by code_simp
  show ?thesis
    by (subst log_writes_append) (simp_all add: log_path_def line)
qed

end
