(* ===== verification/Unit_Tests.thy ===== *)
theory Unit_Tests
  imports Buffer_History Http_Header Cmon_Path
begin

text \<open>
  The unit tests of the repository (\<open>src/tests\<close>), run on the model: the buffers
  (\<open>test_cmon_utils.c\<close>), paths (\<open>test_cmon_path.c\<close>) and the copy and the search of strings
  (\<open>test_2\<close> and \<open>test_3\<close> of \<open>test_cmon_sse.c\<close>; its \<open>strcmp\<close> with a constant of ten bytes is the
  comparison of eleven). A test returns what its C function returns; what it prints is left out. The
  results are proved for every heap and every allocator that refuses nothing, so that a test whose
  outcome depends on the memory or on the directory it runs in is found out.
\<close>

section \<open>What the tests use\<close>

text \<open>A string constant, in a block of its own, and \<open>memcmp\<close> of memory with one.\<close>

definition literal :: "byte list \<Rightarrow> 'z heap_scheme \<Rightarrow> ptr \<times> 'z heap_scheme" where
  "literal s h = new_block (s @ [NUL]) h"

definition memcmp_eq :: "ptr \<Rightarrow> byte list \<Rightarrow> nat \<Rightarrow> 'z heap_scheme \<Rightarrow> bool res" where
  "memcmp_eq p s n h = bindE (mem_from p h) (\<lambda>m. (case m of
      None \<Rightarrow> Inl (UB NullDeref)
    | Some bs \<Rightarrow>
        if length bs < n \<or> length s + 1 < n then Inl (UB OutOfBounds)
        else Inr (take n bs = take n (s @ [NUL]))))"

text \<open>\<open>c_u_buffer_new\<close> of a string constant and its \<open>strlen\<close>.\<close>

definition buffer_of :: "byte list \<Rightarrow> 'z bheap_scheme \<Rightarrow> (buf_ptr \<times> 'z bheap_scheme) res" where
  "buffer_of s h = (case literal s h of (t, h1) \<Rightarrow> c_u_buffer_new t (word_of_nat (length s)) h1)"

section \<open>The buffers\<close>

definition view_check :: "CmonBufferView option \<Rightarrow> byte list \<Rightarrow> 'z heap_scheme \<Rightarrow> bool res" where
  "view_check view s h = (case view of
      None \<Rightarrow> Inl (UB NullDeref)
    | Some v \<Rightarrow> memcmp_eq (v_buf v) s (unat (v_len v)) h)"

definition utils_test_1 :: "'z bheap_scheme \<Rightarrow> (int \<times> 'z bheap_scheme) res" where
  "utils_test_1 h =
     bindE (buffer_of ''hello hello'' h) (\<lambda>(buf1, h1).
     if buf1 = None then Inr (- 1, h1)
     else bindE (deref buf1 h1) (\<lambda>r1.
     bindE (memcmp_eq (b_buf r1) ''hello hello'' (unat (b_len r1)) h1) (\<lambda>same.
     if \<not> same then Inr (- 1, h1)
     else if b_len r1 \<noteq> 11 then Inr (- 1, h1)
     else bindE (buffer_of ''hello hello|'' h1) (\<lambda>(buf2, h2).
     bindE (deref buf2 h2) (\<lambda>r2.
     case c_u_view_buffer_new (b_buf r2) (b_len r2) 6 5 h2 of (view2, h3) \<Rightarrow>
     bindE (view_check view2 ''hello'' h3) (\<lambda>same2.
     if \<not> same2 then Inr (- 1, h3)
     else case c_u_view_buffer_new (b_buf r2) (b_len r2) 6 C_U_BUFFER_VIEW_END h3 of (view3, h4) \<Rightarrow>
     bindE (view_check view3 ''hello|'' h4) (\<lambda>same3.
     if \<not> same3 then Inr (- 1, h4)
     else if v_len (the view3) \<noteq> 6 then Inr (- 1, h4)
     else Inr (0, h4))))))))"

text \<open>
  One part of \<open>test_2\<close>: a payload inserted into a new buffer at an index, which may be its length.
  \<open>utils_test_2\<close> frees the buffer of each part but the last.
\<close>

definition utils_txt :: "byte list" where
  "utils_txt = ''abcdeabcde|''"

definition insert_check ::
    "byte list \<times> (CmonBuffer \<Rightarrow> size_t) \<times> byte list \<Rightarrow> 'z bheap_scheme \<Rightarrow> (bool \<times> buf_ptr \<times> 'z bheap_scheme) res" where
  "insert_check c h = (case c of (payload, index, expected) \<Rightarrow>
     case literal payload h of (p, h1) \<Rightarrow>
     bindE (buffer_of utils_txt h1) (\<lambda>(buf, h2).
     bindE (deref buf h2) (\<lambda>r.
     bindE (c_u_buffer_insert_at buf p (word_of_nat (length payload)) (index r) h2) (\<lambda>(rc, h3).
     bindE (deref buf h3) (\<lambda>r1.
     bindE (memcmp_eq (b_buf r1) expected (length expected) h3) (\<lambda>same. Inr (same, buf, h3)))))))"

fun insert_checks ::
    "(byte list \<times> (CmonBuffer \<Rightarrow> size_t) \<times> byte list) list \<Rightarrow> 'z bheap_scheme \<Rightarrow> (int \<times> 'z bheap_scheme) res" where
  "insert_checks [] h = Inr (0, h)"
| "insert_checks (c # cs) h = bindE (insert_check c h) (\<lambda>(same, buf, h1).
     if \<not> same then Inr (- 1, h1)
     else if cs = [] then Inr (0, h1)
     else bindE (c_u_buffer_free buf h1) (insert_checks cs))"

definition payload1 :: "byte list" where
  "payload1 = ''12345''"

definition payload2 :: "byte list" where
  "payload2 = ''123456789 123456789 123456789''"

definition utils_test_2 :: "'z bheap_scheme \<Rightarrow> (int \<times> 'z bheap_scheme) res" where
  "utils_test_2 = insert_checks
     [(payload1, (\<lambda>r. 5), ''abcde12345abcde|''),
      (payload2, (\<lambda>r. 5), ''abcde123456789 123456789 123456789abcde|''),
      (payload1, (\<lambda>r. 0), ''12345abcdeabcde|''),
      (payload1, b_len, ''abcdeabcde|12345''),
      (payload2, (\<lambda>r. 0), ''123456789 123456789 123456789abcdeabcde|''),
      (payload2, b_len, ''abcdeabcde|123456789 123456789 123456789'')]"

text \<open>One part of \<open>test_3\<close>: a shift, the bytes compared and the length expected.\<close>

definition shift_check ::
    "byte list \<times> size_t \<times> size_t \<times> byte list \<times> nat \<times> size_t \<Rightarrow> 'z bheap_scheme \<Rightarrow> (bool \<times> buf_ptr \<times> 'z bheap_scheme) res" where
  "shift_check c h = (case c of (s, index, n, expected, compared, len) \<Rightarrow>
     bindE (buffer_of s h) (\<lambda>(buf, h1).
     bindE (c_u_buffer_shift_from buf index n h1) (\<lambda>(rc, h2).
     bindE (deref buf h2) (\<lambda>r.
     bindE (memcmp_eq (b_buf r) expected compared h2) (\<lambda>same.
     Inr (same \<and> b_len r = len, buf, h2))))))"

fun shift_checks ::
    "(byte list \<times> size_t \<times> size_t \<times> byte list \<times> nat \<times> size_t) list \<Rightarrow> 'z bheap_scheme \<Rightarrow> (int \<times> 'z bheap_scheme) res" where
  "shift_checks [] h = Inr (0, h)"
| "shift_checks (c # cs) h = bindE (shift_check c h) (\<lambda>(same, buf, h1).
     if \<not> same then Inr (- 1, h1)
     else if cs = [] then Inr (0, h1)
     else bindE (c_u_buffer_free buf h1) (shift_checks cs))"

definition utils_test_3 :: "'z bheap_scheme \<Rightarrow> (int \<times> 'z bheap_scheme) res" where
  "utils_test_3 = shift_checks
     [(''abcdeabcde'', 5, 4, ''abcdeabcdabcde'', 14, 14),
      (''abcdeabcde'', 0, 4, ''abcdabcdeabcde'', 14, 14),
      (''1234ab'', 4, 4, ''1234ab'' @ [NUL, NUL] @ ''ab'', 10, 10),
      (''1234ab'', 4, 30, ''1234'' @ replicate 30 NUL @ ''ab'', 37, 36),
      (''_234ab'', 0, 30, replicate 30 NUL @ ''_234ab'', 37, 36)]"

text \<open>The exit status of the program.\<close>

definition test_cmon_utils :: "'z bheap_scheme \<Rightarrow> int res" where
  "test_cmon_utils h =
     bindE (utils_test_1 h) (\<lambda>(rc1, h1).
     if rc1 \<noteq> 0 then Inr (- 1)
     else bindE (utils_test_2 h1) (\<lambda>(rc2, h2).
     if rc2 \<noteq> 0 then Inr (- 2)
     else bindE (utils_test_3 h2) (\<lambda>(rc3, h3).
     if rc3 \<noteq> 0 then Inr (- 3) else Inr 0)))"

section \<open>The paths\<close>

definition path_1 :: "byte list" where
  "path_1 = ''/home/narval/programing''"

definition path_2 :: "byte list" where
  "path_2 = ''/home/narval.12/programing.c''"

text \<open>\<open>strcmp\<close> with the extension of a path; a path without one has a null pointer there.\<close>

definition ext_is :: "CmonPath \<Rightarrow> byte list \<Rightarrow> bool res" where
  "ext_is p s = (case ext p of None \<Rightarrow> Inl (UB NullDeref) | Some i \<Rightarrow> Inr (c_str (drop i (path p)) = s))"

text \<open>\<open>buff_size\<close> is the static variable of \<open>cmon_path_new\<close>; a path that is \<open>NULL\<close> is used all the same.\<close>

definition path_test_1 :: "nat \<Rightarrow> memory \<Rightarrow> int res" where
  "path_test_1 buff_size m =
     bindE (cmon_path_new (cstring path_1) buff_size m) (\<lambda>(sz, p, m1). (case p of
       None \<Rightarrow> Inl (UB NullDeref)
     | Some q \<Rightarrow>
         if c_str (path q) \<noteq> path_1 \<or> path_len q \<noteq> length path_1 \<or> ext q \<noteq> None \<or> ext_len q \<noteq> 0 then Inr 1
         else bindE (cmon_str_new (Some (cstring path_1)) m1) (\<lambda>(s, m2).
         bindE (cmon_str_cmp s (Some (cmon_path_cast_as_cmon_string q))) (\<lambda>eq.
         if \<not> eq then Inr 1
         else bindE (cmon_path_new (cstring path_2) sz m2) (\<lambda>(sz2, p2, m3). (case p2 of
           None \<Rightarrow> Inl (UB NullDeref)
         | Some q2 \<Rightarrow>
             if c_str (path q2) \<noteq> path_2 \<or> path_len q2 \<noteq> length path_2 then Inr 1
             else bindE (ext_is q2 ''.c'') (\<lambda>same.
             if \<not> same \<or> ext_len q2 \<noteq> length (c_str (drop (the (ext q2)) (path q2))) then Inr 1
             else bindE (cmon_str_new (Some (cstring ''.c'')) m3) (\<lambda>(s2, m4).
             bindE (cmon_str_cmp s2 (Some (cmon_path_cast_ext_as_cmon_string q2))) (\<lambda>eq2.
             if \<not> eq2 then Inr 1 else Inr 0)))))))))"

definition test_path :: "byte list" where
  "test_path = ''/home/narval/programing/proyects/cmon/velocirraptor.py''"

text \<open>
  \<open>dir\<close> is the working directory of the test and \<open>behind k\<close> what the memory has behind its copy at the
  call number \<open>k\<close>.
\<close>

definition path_test_2 :: "(nat \<Rightarrow> byte list option) \<Rightarrow> byte list \<Rightarrow> memory \<Rightarrow> int res" where
  "path_test_2 behind dir m =
     bindE (cmon_path_new_full_path None (Some dir) (behind 0) (cstring ''velocirraptor.py'') m) (\<lambda>(c, p, m1).
     if c_str (path p) \<noteq> test_path then Inr 1
     else bindE (ext_is p ''.py'') (\<lambda>same.
     if \<not> same \<or> path_len p \<noteq> length test_path \<or> ext_len p \<noteq> 3 then Inr 1
     else bindE (cmon_path_new_full_path c (Some dir) (behind 1) (cstring ''velocirraptor'') m1) (\<lambda>(c2, p2, m2).
     if ext p2 \<noteq> None \<or> ext_len p2 \<noteq> 0 then Inr 1 else Inr 0)))"

text \<open>The results of the two tests; the program itself prints them and returns 0.\<close>

definition test_cmon_path ::
    "(nat \<Rightarrow> byte list option) \<Rightarrow> byte list \<Rightarrow> memory \<Rightarrow> (int \<times> int) res" where
  "test_cmon_path behind dir m =
     bindE (path_test_1 20 m) (\<lambda>rc1. bindE (path_test_2 behind dir m) (\<lambda>rc2. Inr (rc1, rc2)))"

section \<open>The strings\<close>

text \<open>\<open>test_2\<close> of \<open>test_cmon_sse.c\<close> prints the index found; the array has room for two bytes more.\<close>

definition sse_test_2 :: "int res" where
  "sse_test_2 = c_u_str_find_pattern (Some ([CR, LF, CR, LF] @ [NUL])) 4
     (Some (''hello i am '' @ [CR, LF, CR, LF] @ [NUL, NUL])) 15"

definition sse_test_3 :: "'z heap_scheme \<Rightarrow> int res" where
  "sse_test_3 h =
     (case literal ''hola 12345'' h of (dst, h1) \<Rightarrow>
      case literal ''perro'' h1 of (src, h2) \<Rightarrow>
      bindE (c_u_str_copy_n src 5 (ptr_add dst 5) 5 h2) (\<lambda>(rc, h3).
      bindE (memcmp_eq dst ''hola perro'' 11 h3) (\<lambda>same.
      if \<not> same then Inr (- 1)
      else (case literal ''hola 12345'' h3 of (dst2, h4) \<Rightarrow>
        case literal ''perro1'' h4 of (src2, h5) \<Rightarrow>
        bindE (c_u_str_copy_n src2 6 (ptr_add dst2 5) 5 h5) (\<lambda>(rc2, h6).
        if rc2 \<noteq> - 3 then Inr (- 1) else Inr 0)))))"

section \<open>Clean heaps\<close>

text \<open>
  A heap in which every allocation succeeds, with unused numbers ahead; \<open>j\<close> is what the allocator
  leaves in new blocks.
\<close>

definition clean :: "(nat \<Rightarrow> nat \<Rightarrow> byte) \<Rightarrow> 'z bheap_scheme \<Rightarrow> bool" where
  "clean j h \<longleftrightarrow> heap_ok h \<and> granting h \<and> junk h = j \<and> (\<forall>a \<ge> next_blk h. cbufs h a = None)"

lemma literal_clean:
  assumes "clean j h"
  obtains h1 where "literal s h = (Ptr (next_blk h) 0, h1)" "clean j h1"
    "blocks h1 = (blocks h)(next_blk h \<mapsto> s @ [NUL])" "cbufs h1 = cbufs h" "next_blk h1 = Suc (next_blk h)"
  using assms
  by (intro that [of "snd (literal s h)"])
    (auto simp: literal_def new_block_def clean_def heap_ok_def granting_def)

lemma holds_clean:
  assumes "holds_text a m h xs" "steady j n h" "a < n" "\<forall>x \<ge> n. snd m x = None"
  shows "clean j h"
proof -
  have "cbufs h x = None" if "next_blk h \<le> x" for x
  proof -
    have "snd m x = None" "x \<noteq> a" using assms(2-4) that by (auto simp: steady_def)
    then show ?thesis using assms(1) by (auto simp: holds_text_def others_def split: if_splits)
  qed
  then show ?thesis using assms(1,2) by (simp add: clean_def holds_text_def steady_def)
qed

lemma clean_steady: "clean j h \<Longrightarrow> steady j (next_blk h) h"
  by (simp add: clean_def steady_def)

lemma new_clean:
  assumes "clean j h" "blocks h t = Some (s @ NUL # past)" "NUL \<notin> set s" "length s + 20 < 2 ^ 64"
  obtains a h1 where "c_u_buffer_new (Ptr t 0) (word_of_nat (length s)) h = Inr (Some a, h1)"
    "holds_text a (blocks h, cbufs h) h1 s" "clean j h1" "a < next_blk h1" "\<forall>x \<ge> next_blk h1. cbufs h x = None"
    "\<exists>b. cbufs h1 a = Some \<lparr>b_cap = word_of_nat (length s) + 20, b_len = word_of_nat (length s), b_avl = 20, b_buf = Ptr b 0\<rparr> \<and>
        blocks h1 b = Some (s @ map (j b) [length s..<length s + 20])"
proof -
  have ok: "heap_ok h" "granting h" "\<forall>a \<ge> next_blk h. cbufs h a = None" "junk h = j"
    using assms(1) by (simp_all add: clean_def)
  obtain a h1 where new: "c_u_buffer_new (Ptr t 0) (word_of_nat (length s)) h = Inr (Some a, h1)"
    "holds_text a (blocks h, cbufs h) h1 s" "a < next_blk h1"
    "\<exists>b. cbufs h1 a = Some \<lparr>b_cap = word_of_nat (length s) + 20, b_len = word_of_nat (length s), b_avl = 20, b_buf = Ptr b 0\<rparr> \<and>
        blocks h1 b = Some (s @ map (j b) [length s..<length s + 20])"
    using new_holds_text [OF ok(1,2) assms(2-4) ok(3)] ok(4) by blast
  have st: "steady j (next_blk h) h1" using new_script [OF new(1) clean_steady [OF assms(1)]] .
  then have fresh: "\<forall>x \<ge> next_blk h1. cbufs h x = None" using ok(3) by (auto simp: steady_def)
  moreover have "steady j (next_blk h1) h1" using st by (simp add: steady_def)
  ultimately have "clean j h1" using holds_clean [OF new(2)] new(3) by simp
  then show thesis using new fresh by (intro that [of a h1]) simp_all
qed

lemma buffer_of_clean:
  assumes "clean j h" "NUL \<notin> set s" "length s + 20 < 2 ^ 64"
  obtains a h1 m where "buffer_of s h = Inr (Some a, h1)" "holds_text a m h1 s" "clean j h1"
    "a < next_blk h1" "\<forall>x \<ge> next_blk h1. snd m x = None"
    "\<forall>b bs. blocks h b = Some bs \<longrightarrow> fst m b = Some bs"
    "\<exists>b. cbufs h1 a = Some \<lparr>b_cap = word_of_nat (length s) + 20, b_len = word_of_nat (length s), b_avl = 20, b_buf = Ptr b 0\<rparr> \<and>
        blocks h1 b = Some (s @ map (j b) [length s..<length s + 20])"
proof -
  obtain h0 where h0: "literal s h = (Ptr (next_blk h) 0, h0)" "clean j h0"
    "blocks h0 = (blocks h)(next_blk h \<mapsto> s @ [NUL])" using literal_clean [OF assms(1)] by metis
  then have blk: "blocks h0 (next_blk h) = Some (s @ NUL # [])" by simp
  obtain a h1 where new: "c_u_buffer_new (Ptr (next_blk h) 0) (word_of_nat (length s)) h0 = Inr (Some a, h1)"
    "holds_text a (blocks h0, cbufs h0) h1 s" "clean j h1" "a < next_blk h1" "\<forall>x \<ge> next_blk h1. cbufs h0 x = None"
    "\<exists>b. cbufs h1 a = Some \<lparr>b_cap = word_of_nat (length s) + 20, b_len = word_of_nat (length s), b_avl = 20, b_buf = Ptr b 0\<rparr> \<and>
        blocks h1 b = Some (s @ map (j b) [length s..<length s + 20])"
    using new_clean [OF h0(2) blk assms(2,3)] by metis
  have "blocks h0 b = Some bs" if "blocks h b = Some bs" for b bs
    using assms(1) that h0(3) by (auto simp: clean_def heap_ok_def)
  then show thesis
    using new h0(1) by (intro that [of a h1 "(blocks h0, cbufs h0)"]) (simp_all add: buffer_of_def)
qed

text \<open>An edit keeps the heap clean, and so does the release of the buffer.\<close>

lemma edited_clean:
  assumes "holds_text a m h1 ys" "steady j (next_blk h) h1" "a < next_blk h" "\<forall>x \<ge> next_blk h. snd m x = None"
  shows "clean j h1 \<and> (\<exists>h2. c_u_buffer_free (Some a) h1 = Inr h2 \<and> clean j h2)"
proof
  show cl: "clean j h1" using holds_clean [OF assms] .
  obtain r b bs where r: "cbufs h1 a = Some r" "b_buf r = Ptr b 0" "blocks h1 b = Some bs"
    using assms(1) by (auto simp: holds_text_def elim!: buf_okE)
  then show "\<exists>h2. c_u_buffer_free (Some a) h1 = Inr h2 \<and> clean j h2"
    using free_blocks [OF r(1,2)] cl by (auto simp: clean_def heap_ok_def granting_def)
qed

text \<open>The memory of a buffer starts with its text.\<close>

lemma holds_text_mem:
  assumes "holds_text a m h xs"
  obtains r bs where "deref (Some a) h = Inr r" "mem_from (b_buf r) h = Inr (Some bs)"
    "take (length xs) bs = xs" "unat (b_len r) = length xs"
proof -
  obtain r b bs where r: "cbufs h a = Some r" "b_buf r = Ptr b 0" "blocks h b = Some bs"
    "contents h a = take (unat (b_len r)) bs" "unat (b_len r) \<le> length bs"
    using assms by (auto simp: holds_text_def elim!: buf_okE)
  then show thesis using assms by (intro that [of r bs]) (auto simp: holds_text_def length_contents)
qed

lemma memcmp_text:
  assumes "mem_from p h = Inr (Some bs)" "take (length xs) bs = xs" "k \<le> length xs" "k \<le> length s"
  shows "memcmp_eq p s k h = Inr (take k xs = take k s)"
proof -
  have "length xs \<le> length bs" using assms(2) by (metis length_take min.cobounded1)
  moreover have "take k bs = take k xs" using assms(2,3) by (metis min_absorb1 take_take)
  ultimately show ?thesis using assms by (simp add: memcmp_eq_def)
qed

section \<open>Insertion\<close>

lemma insert_check_result:
  assumes "clean j h" "NUL \<notin> set payload" "length payload < 1000" "length expected = 11 + length payload"
    "\<And>r. b_len r = 11 \<Longrightarrow> index r = word_of_nat i" "i \<le> 11"
  shows "\<exists>a h1. insert_check (payload, index, expected) h =
       Inr (take i utils_txt @ payload @ drop i utils_txt = expected, Some a, h1) \<and>
     clean j h1 \<and> (\<exists>h2. c_u_buffer_free (Some a) h1 = Inr h2 \<and> clean j h2)"
proof -
  let ?t = "take i utils_txt @ payload @ drop i utils_txt"
  obtain h1 where h1: "literal payload h = (Ptr (next_blk h) 0, h1)" "clean j h1"
    "blocks h1 = (blocks h)(next_blk h \<mapsto> payload @ [NUL])" using literal_clean [OF assms(1)] by metis
  have s: "NUL \<notin> set utils_txt" "length utils_txt = 11" by (simp_all add: NUL_def utils_txt_def)
  then have short: "length utils_txt + 20 < 2 ^ 64" by simp
  obtain a h2 m where h2: "buffer_of utils_txt h1 = Inr (Some a, h2)" "holds_text a m h2 utils_txt" "clean j h2"
    "a < next_blk h2" "\<forall>x \<ge> next_blk h2. snd m x = None"
    "\<forall>b bs. blocks h1 b = Some bs \<longrightarrow> fst m b = Some bs"
    using buffer_of_clean [OF h1(2) s(1) short] by metis
  obtain r where r: "deref (Some a) h2 = Inr r" "unat (b_len r) = 11" using holds_text_mem [OF h2(2)] s(2) by metis
  have "b_len r = word_of_nat (unat (b_len r))" by simp
  then have idx: "index r = word_of_nat i" using assms(5) r(2) by simp
  have "fst m (next_blk h) = Some (payload @ [NUL])" using h2(6) h1(3) by simp
  then obtain h3 where h3: "c_u_buffer_insert_at (Some a) (Ptr (next_blk h) 0) (word_of_nat (length payload)) (word_of_nat i) h2 = Inr (0, h3)"
    "holds_text a m h3 ?t"
    using insert_holds [OF h2(2), of "next_blk h" payload "[NUL]" i] assms(3,6) s(2) by auto
  have st: "steady j (next_blk h2) h3" using insert_at_script [OF h3(1) clean_steady [OF h2(3)]] .
  obtain r1 bs where r1: "deref (Some a) h3 = Inr r1" "mem_from (b_buf r1) h3 = Inr (Some bs)"
    "take (length ?t) bs = ?t" using holds_text_mem [OF h3(2)] by metis
  have len: "length ?t = length expected" using assms(4,6) s(2) by simp
  have "memcmp_eq (b_buf r1) expected (length expected) h3 = Inr (?t = expected)"
    using memcmp_text [OF r1(2,3) _ order_refl, of expected] take_all [of ?t "length expected"] len
    by (simp only: order_refl take_all [OF order_refl])
  then show ?thesis
    using h1(1) h2(1) r(1) idx h3(1) r1(1) edited_clean [OF h3(2) st h2(4,5)] by (simp add: insert_check_def)
qed

text \<open>A part that checks what an insertion at \<open>i\<close> is.\<close>

definition insertion :: "byte list \<times> (CmonBuffer \<Rightarrow> size_t) \<times> byte list \<Rightarrow> nat \<Rightarrow> bool" where
  "insertion c i \<longleftrightarrow> (case c of (payload, index, expected) \<Rightarrow>
     NUL \<notin> set payload \<and> length payload < 1000 \<and> i \<le> 11 \<and> (\<forall>r. b_len r = 11 \<longrightarrow> index r = word_of_nat i) \<and>
     expected = take i utils_txt @ payload @ drop i utils_txt)"

lemma insert_checks_pass:
  assumes "clean j h" "\<forall>c\<in>set cs. \<exists>i. insertion c i"
  shows "\<exists>h1. insert_checks cs h = Inr (0, h1) \<and> clean j h1"
  using assms
proof (induction cs arbitrary: h)
  case (Cons c cs)
  obtain payload index expected where c: "c = (payload, index, expected)" by (cases c)
  from Cons.prems(2) obtain i where "insertion c i" by auto
  then have i: "NUL \<notin> set payload" "length payload < 1000" "length expected = 11 + length payload"
    "\<And>r. b_len r = 11 \<Longrightarrow> index r = word_of_nat i" "i \<le> 11"
    "take i utils_txt @ payload @ drop i utils_txt = expected"
    by (auto simp: insertion_def c utils_txt_def)
  obtain a h1 h2 where "insert_check c h = Inr (True, Some a, h1)" "clean j h1"
    "c_u_buffer_free (Some a) h1 = Inr h2" "clean j h2"
    using insert_check_result [where index = index, OF Cons.prems(1) i(1-5)] i(6) c by auto
  then show ?case using Cons.IH [of h2] Cons.prems(2) by auto
qed simp

lemma utils_test_2_passes:
  assumes "clean j h"
  shows "\<exists>h1. utils_test_2 h = Inr (0, h1) \<and> clean j h1"
  unfolding utils_test_2_def
proof (rule insert_checks_pass [OF assms])
  let ?cs = "[(payload1, (\<lambda>r. 5), ''abcde12345abcde|''),
      (payload2, (\<lambda>r. 5), ''abcde123456789 123456789 123456789abcde|''),
      (payload1, (\<lambda>r. 0), ''12345abcdeabcde|''),
      (payload1, b_len, ''abcdeabcde|12345''),
      (payload2, (\<lambda>r. 0), ''123456789 123456789 123456789abcdeabcde|''),
      (payload2, b_len, ''abcdeabcde|123456789 123456789 123456789'')]"
  have "list_all2 insertion ?cs [5, 5, 0, 11, 0, 11]"
    by (simp add: insertion_def payload1_def payload2_def NUL_def utils_txt_def)
  then show "\<forall>c\<in>set ?cs. \<exists>i. insertion c i" by (auto simp: list_all2_Cons1)
qed

section \<open>Shifting\<close>

text \<open>
  The gap of a shift in a new buffer: where the buffer has room, the bytes that were there, some of
  them never written; in a new block NULs.
\<close>

definition shift_gap :: "(nat \<Rightarrow> byte) \<Rightarrow> byte list \<Rightarrow> nat \<Rightarrow> nat \<Rightarrow> byte list" where
  "shift_gap old s i n = (if n \<le> 20 then take n (drop i (s @ map old [length s..<length s + 20]))
     else replicate n NUL)"

lemma shift_block:
  assumes "clean j h" "NUL \<notin> set s" "i < length s" "length s + n < 1000"
  obtains a h1 h2 b r rest where "buffer_of s h = Inr (Some a, h1)"
    "c_u_buffer_shift_from (Some a) (word_of_nat i) (word_of_nat n) h1 = Inr (0, h2)"
    "deref (Some a) h2 = Inr r" "b_len r = word_of_nat (length s + n)"
    "mem_from (b_buf r) h2 = Inr (Some (take i s @ shift_gap (j b) s i n @ drop i s @ rest))"
    "20 < n \<longrightarrow> rest = replicate 20 NUL"
    "clean j h2" "\<exists>h3. c_u_buffer_free (Some a) h2 = Inr h3 \<and> clean j h3"
proof -
  have short: "length s + 20 < 2 ^ 64" "length s + n + 20 < 2 ^ 64" using assms(4) by simp_all
  obtain a h1 m where h1: "buffer_of s h = Inr (Some a, h1)" "holds_text a m h1 s" "clean j h1"
    "a < next_blk h1" "\<forall>x \<ge> next_blk h1. snd m x = None"
    "\<exists>b. cbufs h1 a = Some \<lparr>b_cap = word_of_nat (length s) + 20, b_len = word_of_nat (length s), b_avl = 20, b_buf = Ptr b 0\<rparr> \<and>
        blocks h1 b = Some (s @ map (j b) [length s..<length s + 20])"
    using buffer_of_clean [OF assms(1,2) short(1)] by metis
  then obtain r b where r: "cbufs h1 a = Some r" "b_buf r = Ptr b 0" "b_cap r = word_of_nat (length s) + 20"
    "b_len r = word_of_nat (length s)" "blocks h1 b = Some (s @ map (j b) [length s..<length s + 20])" by force
  have w: "unat (word_of_nat i :: size_t) = i" "unat (word_of_nat n :: size_t) = n" "unat (b_len r) = length s"
    using assms(3,4) r(4) by (simp_all add: unat_of_nat)
  have cap: "unat (b_cap r) = length s + 20"
    using r(3,4) w(3) short(1) unat_add_no_wrap [of "b_len r" 20] by simp
  have idx: "word_of_nat i < b_len r" using w assms(3) by (simp add: word_less_nat_alt)
  have ok: "heap_ok h1" "alloc_ok h1" using h1(3) granting_alloc_ok by (auto simp: clean_def)
  obtain h2 r2 rest where h2: "c_u_buffer_shift_from (Some a) (word_of_nat i) (word_of_nat n) h1 = Inr (0, h2)"
    "cbufs h2 a = Some r2" "b_len r2 = b_len r + word_of_nat n"
    "mem_from (b_buf r2) h2 = Inr (Some (take i s @ shift_gap (j b) s i n @ drop i s @ rest))"
    "20 < n \<longrightarrow> rest = replicate 20 NUL"
  proof (cases "n \<le> 20")
    case True
    have fits: "unat (b_len r) + unat (word_of_nat n :: size_t) \<le> unat (b_cap r)" using True w cap by simp
    have "length (s @ map (j b) [length s..<length s + 20]) = unat (b_cap r)" using cap by simp
    from shift_from_in_place [OF r(1,2,5) this idx fits] show thesis
      using True assms(3) r(2) w by (intro that) (auto simp: shift_gap_def)
  next
    case False
    have big: "unat (b_cap r) < unat (b_len r) + unat (word_of_nat n :: size_t)" using False w cap by simp
    have room: "unat (b_len r) + unat (word_of_nat n :: size_t) + 20 < 2 ^ 64" using assms(4) w by simp
    have len: "length (s @ map (j b) [length s..<length s + 20]) = unat (b_cap r)" "b_len r \<le> b_cap r"
      using cap w(3) by (simp_all add: word_le_nat_alt)
    obtain h2 where h2: "c_u_buffer_shift_from (Some a) (word_of_nat i) (word_of_nat n) h1 = Inr (0, h2)"
      "blocks h2 = (blocks h1)(next_blk h1 \<mapsto> take i (s @ map (j b) [length s..<length s + 20]) @
         replicate n NUL @ drop i (take (length s) (s @ map (j b) [length s..<length s + 20])) @ replicate 20 NUL, b := None)"
      "cbufs h2 = (cbufs h1)(a \<mapsto> \<lparr>b_cap = b_len r + word_of_nat n + 20, b_len = b_len r + word_of_nat n, b_avl = 20,
         b_buf = Ptr (next_blk h1) 0\<rparr>)"
      using shift_from_grows [OF ok r(1,2,5) len idx big room] unfolding w by metis
    have "b \<noteq> next_blk h1" using fresh_neq [OF ok(1) r(5)] .
    then show thesis using h2 False assms(3) by (intro that) (auto simp: shift_gap_def)
  qed
  obtain h2' gap where "c_u_buffer_shift_from (Some a) (word_of_nat i) (word_of_nat n) h1 = Inr (0, h2')"
    "holds_text a m h2' (take i s @ gap @ drop i s)" using shift_holds [OF h1(2) assms(3) short(2)] by blast
  then have held: "holds_text a m h2 (take i s @ gap @ drop i s)" using h2(1) by simp
  have st: "steady j (next_blk h1) h2" using shift_from_script [OF h2(1) clean_steady [OF h1(3)]] .
  show thesis
    using edited_clean [OF held st h1(4,5)] h1(1) h2 r(4) by (intro that) auto
qed

lemma shift_check_result:
  assumes "clean j h" "NUL \<notin> set s" "i < length s" "length s + n < 1000" "compared \<le> length s + n + (if n \<le> 20 then 0 else 20)"
    "compared \<le> length expected + 1"
  shows "\<exists>a h1 b rest. shift_check (s, word_of_nat i, word_of_nat n, expected, compared, word_of_nat (length s + n)) h =
       Inr (take compared (take i s @ shift_gap (j b) s i n @ drop i s @ rest) = take compared (expected @ [NUL]), Some a, h1) \<and>
     (20 < n \<longrightarrow> rest = replicate 20 NUL) \<and> clean j h1 \<and> (\<exists>h2. c_u_buffer_free (Some a) h1 = Inr h2 \<and> clean j h2)"
proof -
  obtain a h1 h2 b r rest where t: "buffer_of s h = Inr (Some a, h1)"
    "c_u_buffer_shift_from (Some a) (word_of_nat i) (word_of_nat n) h1 = Inr (0, h2)"
    "deref (Some a) h2 = Inr r" "b_len r = word_of_nat (length s + n)"
    "mem_from (b_buf r) h2 = Inr (Some (take i s @ shift_gap (j b) s i n @ drop i s @ rest))"
    "20 < n \<longrightarrow> rest = replicate 20 NUL"
    "clean j h2" "\<exists>h3. c_u_buffer_free (Some a) h2 = Inr h3 \<and> clean j h3"
    using shift_block [OF assms(1-4)] by metis
  have "length (shift_gap (j b) s i n) = n" using assms(3) by (auto simp: shift_gap_def min_def)
  then have "compared \<le> length (take i s @ shift_gap (j b) s i n @ drop i s @ rest)"
    using assms(3,5) t(6) by (auto split: if_splits)
  then have "memcmp_eq (b_buf r) expected compared h2 =
      Inr (take compared (take i s @ shift_gap (j b) s i n @ drop i s @ rest) = take compared (expected @ [NUL]))"
    unfolding memcmp_eq_def t(5) using assms(6) by simp
  then show ?thesis using t(1-4,6-8) by (auto simp: shift_check_def simp del: take_append)
qed

text \<open>The third part compares two bytes that nothing has written.\<close>

lemma utils_test_3_result:
  assumes "clean j h"
  shows "\<exists>b h1. utils_test_3 h = Inr (if j b 6 = NUL \<and> j b 7 = NUL then 0 else - 1, h1)"
proof -
  have nul: "NUL \<notin> set ''abcdeabcde''" "NUL \<notin> set ''1234ab''" "NUL \<notin> set ''_234ab''" by (simp_all add: NUL_def)
  obtain a1 h1 h1f where c1: "shift_check (''abcdeabcde'', 5, 4, ''abcdeabcdabcde'', 14, 14) h = Inr (True, Some a1, h1)"
    "c_u_buffer_free (Some a1) h1 = Inr h1f" "clean j h1f"
    using shift_check_result [OF assms nul(1), of 5 4 14 "''abcdeabcdabcde''"] by (auto simp: shift_gap_def)
  obtain a2 h2 h2f where c2: "shift_check (''abcdeabcde'', 0, 4, ''abcdabcdeabcde'', 14, 14) h1f = Inr (True, Some a2, h2)"
    "c_u_buffer_free (Some a2) h2 = Inr h2f" "clean j h2f"
    using shift_check_result [OF c1(3) nul(1), of 0 4 14 "''abcdabcdeabcde''"] by (auto simp: shift_gap_def)
  have gap: "shift_gap old ''1234ab'' 4 4 = [CHR ''a'', CHR ''b'', old 6, old 7]" for old
    by (simp add: shift_gap_def upt_rec eval_nat_numeral)
  obtain a3 h3 h3f b where c3: "shift_check (''1234ab'', 4, 4, ''1234ab'' @ [NUL, NUL] @ ''ab'', 10, 10) h2f =
      Inr (j b 6 = NUL \<and> j b 7 = NUL, Some a3, h3)"
    "c_u_buffer_free (Some a3) h3 = Inr h3f" "clean j h3f"
    using shift_check_result [OF c2(3) nul(2), of 4 4 10 "''1234ab'' @ [NUL, NUL] @ ''ab''"]
    by (auto simp: gap)
  obtain a4 h4 h4f where c4: "shift_check (''1234ab'', 4, 30, ''1234'' @ replicate 30 NUL @ ''ab'', 37, 36) h3f = Inr (True, Some a4, h4)"
    "c_u_buffer_free (Some a4) h4 = Inr h4f" "clean j h4f"
    using shift_check_result [OF c3(3) nul(2), of 4 30 37 "''1234'' @ replicate 30 NUL @ ''ab''"]
    by (auto simp: shift_gap_def)
  obtain a5 h5 where c5: "shift_check (''_234ab'', 0, 30, replicate 30 NUL @ ''_234ab'', 37, 36) h4f = Inr (True, Some a5, h5)"
    using shift_check_result [OF c4(3) nul(3), of 0 30 37 "replicate 30 NUL @ ''_234ab''"] by (auto simp: shift_gap_def)
  show ?thesis
    unfolding utils_test_3_def using c1(1,2) c2(1,2) c3(1,2) c4(1,2) c5 by (intro exI [of _ b]) auto
qed

section \<open>Views\<close>

lemma view_clean:
  assumes "clean j h" "\<not> sz < word_of_int len + start" "p \<noteq> Null"
  obtains h1 where "c_u_view_buffer_new p sz start len h =
      (Some \<lparr>v_len = word_of_int (if len = C_U_BUFFER_VIEW_END then sint (sz - start) else len),
             v_buf = ptr_add p (unat start)\<rparr>, h1)"
    "clean j h1" "blocks h1 = blocks h"
proof -
  obtain e h1 where e: "next_event h = (e, h1)" by (cases "next_event h")
  have ok: "e \<noteq> Fail" using assms(1) e next_event_all_ok by (auto simp: clean_def granting_def)
  have "clean j h1"
    using assms(1) e by (auto simp: clean_def heap_ok_def granting_def next_event_def split: list.splits)
  then show thesis
    using e ok assms(2,3) next_event_fields [OF e] by (intro that [of h1]) (auto simp: c_u_view_buffer_new_def Let_def)
qed

lemma utils_test_1_passes:
  assumes "clean j h"
  shows "\<exists>h1. utils_test_1 h = Inr (0, h1) \<and> clean j h1"
proof -
  define s1 :: "byte list" where "s1 = ''hello hello''"
  define s2 :: "byte list" where "s2 = ''hello hello|''"
  have s: "NUL \<notin> set s1" "NUL \<notin> set s2" "length s1 = 11" "length s2 = 12" by (simp_all add: s1_def s2_def NUL_def)
  then have short: "length s1 + 20 < 2 ^ 64" "length s2 + 20 < 2 ^ 64" by simp_all
  obtain a1 h1 m1 where b1: "buffer_of s1 h = Inr (Some a1, h1)" "holds_text a1 m1 h1 s1" "clean j h1"
    using buffer_of_clean [OF assms s(1) short(1)] by metis
  obtain r1 bs1 where r1: "deref (Some a1) h1 = Inr r1" "mem_from (b_buf r1) h1 = Inr (Some bs1)"
    "take (length s1) bs1 = s1" "unat (b_len r1) = length s1" using holds_text_mem [OF b1(2)] by metis
  have same1: "memcmp_eq (b_buf r1) s1 (unat (b_len r1)) h1 = Inr True"
    using memcmp_text [OF r1(2,3), of 11 s1] s(3) r1(4) by simp
  obtain a2 h2 m2 where b2: "buffer_of s2 h1 = Inr (Some a2, h2)" "holds_text a2 m2 h2 s2" "clean j h2"
    "\<exists>b. cbufs h2 a2 = Some \<lparr>b_cap = word_of_nat (length s2) + 20, b_len = word_of_nat (length s2), b_avl = 20, b_buf = Ptr b 0\<rparr> \<and>
        blocks h2 b = Some (s2 @ map (j b) [length s2..<length s2 + 20])"
    using buffer_of_clean [OF b1(3) s(2) short(2)] by metis
  obtain b where b: "cbufs h2 a2 = Some \<lparr>b_cap = 32, b_len = 12, b_avl = 20, b_buf = Ptr b 0\<rparr>"
    "blocks h2 b = Some (s2 @ map (j b) [12..<32])" using b2(4) by (auto simp: s(4))
  obtain h3 where v2: "c_u_view_buffer_new (Ptr b 0) 12 6 5 h2 = (Some \<lparr>v_len = 5, v_buf = Ptr b 6\<rparr>, h3)"
    "clean j h3" "blocks h3 = blocks h2"
    using view_clean [OF b2(3), of 12 5 6 "Ptr b 0"] by (auto simp: C_U_BUFFER_VIEW_END_def)
  obtain h4 where v3: "c_u_view_buffer_new (Ptr b 0) 12 6 C_U_BUFFER_VIEW_END h3 = (Some \<lparr>v_len = 6, v_buf = Ptr b 6\<rparr>, h4)"
    "clean j h4" "blocks h4 = blocks h3"
    using view_clean [OF v2(2), of 12 C_U_BUFFER_VIEW_END 6 "Ptr b 0"] by (auto simp: C_U_BUFFER_VIEW_END_def)
  have "drop 6 (s2 @ map (j b) [12..<32]) = ''hello|'' @ map (j b) [12..<32]" by (simp add: s2_def)
  then have "view_check (Some \<lparr>v_len = 5, v_buf = Ptr b 6\<rparr>) ''hello'' h3 = Inr True"
    "view_check (Some \<lparr>v_len = 6, v_buf = Ptr b 6\<rparr>) ''hello|'' h4 = Inr True"
    using b(2) v2(3) v3(3) s(4) by (simp_all add: view_check_def memcmp_eq_def del: drop_append)
  moreover have "b_len r1 = word_of_nat (unat (b_len r1))" by simp
  then have "b_len r1 = 11" unfolding r1(4) s(3) by simp
  ultimately show ?thesis
    using b1(1) r1(1) same1 b2(1) b v2(1) v3 by (simp add: utils_test_1_def s1_def [symmetric] s2_def [symmetric])
qed

section \<open>Paths and strings\<close>

lemma path_test_1_passes: "path_test_1 20 [] = Inr 0"
  by code_simp

lemma sse_test_2_finds: "sse_test_2 = Inr 11"
proof -
  have occ: "first_occ [CR, LF, CR, LF] (''hello i am '' @ [CR, LF, CR, LF]) = Some 11"
    by (simp add: CR_def LF_def)
  have "c_u_str_find_pattern (Some ([CR, LF, CR, LF] @ [NUL])) 4 (Some (''hello i am '' @ [CR, LF, CR, LF] @ [NUL, NUL])) 15 =
      Inr (case first_occ (take (unat (4 :: size_t)) ([CR, LF, CR, LF] @ [NUL]))
        (take (unat (15 :: size_t)) (''hello i am '' @ [CR, LF, CR, LF] @ [NUL, NUL])) of None \<Rightarrow> - 1 | Some k \<Rightarrow> int k)"
    by (rule fnd.find_first) simp_all
  then show ?thesis using occ by (simp add: sse_test_2_def)
qed

lemma sse_test_3_passes: "sse_test_3 h = Inr 0"
proof -
  let ?d = "next_blk h"
  define dst src :: "byte list" where "dst = ''hola 12345''" and "src = ''perro''"
  obtain h1 where h1: "literal dst h = (Ptr ?d 0, h1)" "blocks h1 = (blocks h)(?d \<mapsto> dst @ [NUL])" "next_blk h1 = Suc ?d"
    by (simp add: literal_def new_block_def)
  obtain h2 where h2: "literal src h1 = (Ptr (Suc ?d) 0, h2)" "blocks h2 = (blocks h1)(Suc ?d \<mapsto> src @ [NUL])"
    "next_blk h2 = Suc (Suc ?d)"
    using h1(3) by (simp add: literal_def new_block_def)
  let ?h3 = "upd_block ?d (blit (dst @ [NUL]) 5 (take (unat (5 :: size_t)) (drop 0 (src @ [NUL])))) h2"
  have copy: "c_u_str_copy_n (Ptr (Suc ?d) 0) 5 (Ptr ?d 5) 5 h2 = Inr (0, ?h3)"
    by (rule cpy.copy_range) (use h1(2) h2(2) in \<open>simp_all add: dst_def src_def\<close>)
  have "blit (dst @ [NUL]) 5 (take (unat (5 :: size_t)) (drop 0 (src @ [NUL]))) = ''hola perro'' @ [NUL]"
    by (simp add: blit_def dst_def src_def)
  then have "memcmp_eq (Ptr ?d 0) ''hola perro'' 11 ?h3 = Inr True" by (simp add: memcmp_eq_def)
  then show ?thesis
    using h1(1) h2(1) copy
    by (simp add: sse_test_3_def dst_def [symmetric] src_def [symmetric])
      (simp add: literal_def new_block_def c_u_str_copy_n_def)
qed

text \<open>The two casts of a path determine its fields.\<close>

lemma full_path_fields:
  assumes "cmon_path_cast_as_cmon_string p = cmon_string t"
    "cmon_path_cast_ext_as_cmon_string p = cmon_path_cast_ext_as_cmon_string (path_of s)"
  shows "path p = cstring t" "path_len p = length t" "ext_len p = ext_len (path_of s)"
  using assms by (simp_all add: cmon_path_cast_as_cmon_string_def cmon_path_cast_ext_as_cmon_string_def cmon_string_def)

lemma find_ext_from: "find_ext buf len i k = Some x \<Longrightarrow> i \<le> x"
  by (induction k arbitrary: i) (auto split: if_splits dest: Suc_leD)

lemma full_path_no_ext:
  assumes "cmon_path_new_full_path cached dir slack src [] = Inr (c, p, m)"
  shows "ext p = None \<longleftrightarrow> ext_len p = 0"
  using assms
  by (auto simp: cmon_path_new_full_path_def full_path_cwd_def bindE_eq_Inr Let_def
      split: if_splits option.splits dest!: find_ext_from)

definition author_dir :: "byte list" where
  "author_dir = ''/home/narval/programing/proyects/cmon''"

definition path_name_1 :: "byte list" where
  "path_name_1 = ''velocirraptor.py''"

definition path_name_2 :: "byte list" where
  "path_name_2 = ''velocirraptor''"

lemma path_names:
  "text_ok path_name_1" "text_ok path_name_2" "length path_name_1 = 16" "length path_name_2 = 13"
  "path_of path_name_1 = \<lparr>path_len = 16, path = cstring path_name_1, ext_len = 3, ext = Some 13\<rparr>"
  "test_path = author_dir @ ''/'' @ path_name_1" "length test_path = 54" "length author_dir = 37" "NUL \<notin> set test_path"
  by (simp_all add: path_name_1_def path_name_2_def text_ok_def NUL_def path_of_def last_point_def point_indices_def
      upt_rec test_path_def author_dir_def)

text \<open>Only in the author's directory is the path seen the one the test expects.\<close>

lemma seen_test_path:
  assumes "seen_path d s path_name_1 = test_path"
  shows "d = author_dir" "drop (length d + 1) (seen_path d s path_name_1) = path_name_1"
proof -
  have len: "length d = 37" using arg_cong [OF assms, of length] path_names by simp
  have "take 37 test_path = author_dir" unfolding path_names(6) using path_names(8) by simp
  with len show d: "d = author_dir"
    using arg_cong [OF assms, of "take (length d)"] by (simp add: seen_path_def)
  show "drop (length d + 1) (seen_path d s path_name_1) = path_name_1"
    unfolding assms unfolding path_names(6) using len path_names(8) by simp
qed

lemma path_test_2_ext:
  assumes "cmon_path_new_full_path cached dir slack src [] = Inr (c, p, m)"
    "cmon_path_cast_ext_as_cmon_string p = cmon_path_cast_ext_as_cmon_string (path_of t)"
  shows "(ext p = None \<and> ext_len p = 0) \<longleftrightarrow> last_point t = None"
proof -
  have "ext_len p = ext_len (path_of t)" using assms(2) by (simp add: cmon_path_cast_ext_as_cmon_string_def)
  moreover have "ext_len (path_of t) = 0 \<longleftrightarrow> last_point t = None"
    using last_point_Some [of t] by (auto simp: path_of_def split: option.split)
  ultimately show ?thesis using full_path_no_ext [OF assms(1)] by simp
qed

lemma path_test_2_result:
  assumes "text_ok d" "length d < 4096" "\<forall>k s. behind k = Some s \<longrightarrow> NUL \<notin> set s"
  shows "path_test_2 behind d [] = (case behind 0 of
       None \<Rightarrow> Inl (UB OutOfBounds)
     | Some s \<Rightarrow> if seen_path d s path_name_1 \<noteq> test_path then Inr 1 else (case behind 1 of
         None \<Rightarrow> Inl (UB OutOfBounds)
       | Some s2 \<Rightarrow> Inr (if last_point (drop (length d + 1) (seen_path d s2 path_name_2)) = None then 0 else 1)))"
proof -
  have cwd: "full_path_cwd None (Some d) [] = Inr (d, [])" "full_path_cwd (Some d) (Some d) [] = Inr (d, [])"
    using assms(2) by (simp_all add: full_path_cwd_def MAX_PATH_LEN_def)
  have le: "length path_name_1 \<le> 4096" "length path_name_2 \<le> 4096" using path_names by simp_all
  show ?thesis
  proof (cases "behind 0")
    case None
    then show ?thesis
      using full_path_unread [OF cwd(1)] by (simp add: path_test_2_def)
  next
    case (Some s)
    let ?t = "seen_path d s path_name_1"
    obtain p where p: "cmon_path_new_full_path None (Some d) (Some s) (cstring path_name_1) [] = Inr (Some d, p, [])"
      "cmon_path_cast_as_cmon_string p = cmon_string ?t"
      "cmon_path_cast_ext_as_cmon_string p = cmon_path_cast_ext_as_cmon_string (path_of (drop (length d + 1) ?t))"
      using full_path_seen [OF path_names(1) le(1) cwd(1)] by blast
    note f = full_path_fields [OF p(2,3)]
    have "NUL \<notin> set ?t"
      using assms(1,3) Some path_names(1) in_set_takeD [of NUL "length d + 1 + length path_name_1"]
      by (fastforce simp: seen_path_def text_ok_def NUL_def simp del: take_append)
    then have c: "c_str (path p) = ?t" using f(1) by (simp add: cstring_def)
    show ?thesis
    proof (cases "?t = test_path")
      case False
      with Some p(1) c show ?thesis by (simp add: path_test_2_def path_name_1_def [symmetric])
    next
      case True
      note seen = seen_test_path [OF True]
      have fields: "path_len p = length test_path" "ext_len p = 3"
        using f(2,3) True seen(2) path_names(5) by simp_all
      have "s_string (cmon_path_cast_ext_as_cmon_string p) = ''.py'' @ [NUL]"
        unfolding p(3) seen(2) path_names(5)
        by (simp add: cmon_path_cast_ext_as_cmon_string_def cstring_def path_name_1_def)
      then obtain i where "ext p = Some i" "drop i (path p) = ''.py'' @ [NUL]"
        by (auto simp: cmon_path_cast_ext_as_cmon_string_def split: option.splits)
      then have same: "ext_is p ''.py'' = Inr True" by (simp add: ext_is_def c_str_def NUL_def)
      have run: "path_test_2 behind d [] =
          bindE (cmon_path_new_full_path (Some d) (Some d) (behind 1) (cstring path_name_2) []) (\<lambda>(c2, p2, m2).
            if ext p2 \<noteq> None \<or> ext_len p2 \<noteq> 0 then Inr 1 else Inr 0)"
        using Some p(1) c True fields same
        by (simp add: path_test_2_def path_name_1_def [symmetric] path_name_2_def [symmetric])
      show ?thesis
      proof (cases "behind 1")
        case None
        with Some True run full_path_unread [OF cwd(2)] show ?thesis by simp
      next
        case (Some s2)
        let ?t2 = "drop (length d + 1) (seen_path d s2 path_name_2)"
        obtain p2 where p2: "cmon_path_new_full_path (Some d) (Some d) (Some s2) (cstring path_name_2) [] = Inr (Some d, p2, [])"
          "cmon_path_cast_ext_as_cmon_string p2 = cmon_path_cast_ext_as_cmon_string (path_of ?t2)"
          using full_path_seen [OF path_names(2) le(2) cwd(2)] by blast
        have "path_test_2 behind d [] = Inr (if last_point ?t2 = None then 0 else 1)"
          using path_test_2_ext [OF p2] run p2(1) Some by auto
        with Some \<open>behind 0 = Some s\<close> True show ?thesis by simp
      qed
    qed
  qed
qed

section \<open>Properties\<close>

text \<open>
  C39. The test of the buffers passes all its parts but one, whatever the allocator leaves in new
  blocks: views, insertions and shifts are as expected. The third part of \<open>test_3\<close> compares two
  bytes that neither the shift nor anything else has written, so the test passes only when the
  allocator happens to hand out zeros there.
\<close>

theorem test_cmon_utils_result:
  assumes "heap_ok h" "Fail \<notin> set (allocs h)" "\<forall>a \<ge> next_blk h. cbufs h a = None"
  shows "\<exists>b. test_cmon_utils h = Inr (if junk h b 6 = NUL \<and> junk h b 7 = NUL then 0 else - 3)"
proof -
  have "clean (junk h) h" using assms by (simp add: clean_def granting_def)
  then obtain h1 where h1: "utils_test_1 h = Inr (0, h1)" "clean (junk h) h1" using utils_test_1_passes by blast
  then obtain h2 where h2: "utils_test_2 h1 = Inr (0, h2)" "clean (junk h) h2" using utils_test_2_passes by blast
  then obtain b h3 where "utils_test_3 h2 = Inr (if junk h b 6 = NUL \<and> junk h b 7 = NUL then 0 else - 1, h3)"
    using utils_test_3_result by blast
  then show ?thesis using h1 h2 by (intro exI [of _ b]) (simp add: test_cmon_utils_def)
qed

theorem test_cmon_utils_result_witness:
  "test_cmon_utils \<lparr>blocks = (\<lambda>_. None), next_blk = 0, allocs = [], junk = (\<lambda>_ _. CHR ''?''), cbufs = (\<lambda>_. None)\<rparr> = Inr (- 3) \<and>
   test_cmon_utils \<lparr>blocks = (\<lambda>_. None), next_blk = 0, allocs = [], junk = (\<lambda>_ _. NUL), cbufs = (\<lambda>_. None)\<rparr> = Inr 0"
  using test_cmon_utils_result [of "\<lparr>blocks = (\<lambda>_. None), next_blk = 0, allocs = [], junk = (\<lambda>_ _. CHR ''?''), cbufs = (\<lambda>_. None)\<rparr>"]
    test_cmon_utils_result [of "\<lparr>blocks = (\<lambda>_. None), next_blk = 0, allocs = [], junk = (\<lambda>_ _. NUL), cbufs = (\<lambda>_. None)\<rparr>"]
  by (simp add: heap_ok_def NUL_def)

text \<open>
  C40. The first test of \<open>test_cmon_path.c\<close> succeeds. The second one compares a full path with a
  constant, and builds the path from a copy of the working directory that has no NUL: what it finds
  depends on the memory behind that copy. Where the memory may not be read the test is undefined
  behaviour; with anything there it succeeds in one directory at most, which is the one of its author,
  and with a NUL there it succeeds in that directory.
\<close>

theorem test_cmon_path_result:
  assumes "text_ok d" "length d < 4096" "\<forall>k s. behind k = Some s \<longrightarrow> NUL \<notin> set s"
  shows "test_cmon_path behind d [] = (case behind 0 of
       None \<Rightarrow> Inl (UB OutOfBounds)
     | Some s \<Rightarrow> if seen_path d s ''velocirraptor.py'' \<noteq> test_path then Inr (0, 1) else (case behind 1 of
         None \<Rightarrow> Inl (UB OutOfBounds)
       | Some s2 \<Rightarrow> Inr (0, if last_point (drop (length d + 1) (seen_path d s2 ''velocirraptor'')) = None then 0 else 1))) \<and>
     (test_cmon_path behind d [] = Inr (0, 0) \<longrightarrow> d = author_dir) \<and>
     (behind 0 = Some [] \<longrightarrow> behind 1 = Some [] \<longrightarrow>
       test_cmon_path behind d [] = Inr (0, if d = author_dir then 0 else 1))"
proof -
  have run: "test_cmon_path behind d [] = (case behind 0 of
       None \<Rightarrow> Inl (UB OutOfBounds)
     | Some s \<Rightarrow> if seen_path d s path_name_1 \<noteq> test_path then Inr (0, 1) else (case behind 1 of
         None \<Rightarrow> Inl (UB OutOfBounds)
       | Some s2 \<Rightarrow> Inr (0, if last_point (drop (length d + 1) (seen_path d s2 path_name_2)) = None then 0 else 1)))"
    using path_test_2_result [OF assms] by (simp add: test_cmon_path_def path_test_1_passes split: option.split)
  have author: "d = author_dir" if "test_cmon_path behind d [] = Inr (0, 0)"
  proof -
    have "\<exists>s. seen_path d s path_name_1 = test_path"
      using that unfolding run by (cases "behind 0") (auto split: if_splits)
    then show ?thesis using seen_test_path(1) by blast
  qed
  have same: "(d @ ''/'' @ path_name_1 = test_path) = (d = author_dir)"
    using path_names(6) by (metis append_same_eq)
  have no_ext: "last_point path_name_2 = None"
    by (simp add: path_name_2_def last_point_def point_indices_def upt_rec)
  have clean: "test_cmon_path behind d [] = Inr (0, if d = author_dir then 0 else 1)"
    if "behind 0 = Some []" "behind 1 = Some []"
    unfolding run using that same no_ext by simp
  show ?thesis
    unfolding path_name_1_def [symmetric] path_name_2_def [symmetric]
    by (intro conjI impI) (rule run, erule author, erule (1) clean)
qed

theorem test_cmon_path_result_witness:
  "test_cmon_path (\<lambda>_. Some []) ''/home'' [] = Inr (0, 1) \<and>
   test_cmon_path (\<lambda>_. Some []) author_dir [] = Inr (0, 0) \<and>
   test_cmon_path (\<lambda>_. None) author_dir [] = Inl (UB OutOfBounds)"
proof -
  have ok: "text_ok ''/home''" "text_ok author_dir" "length ''/home'' < 4096" "length author_dir < 4096"
    "(''/home'' :: byte list) \<noteq> author_dir"
    by (simp_all add: text_ok_def NUL_def author_dir_def)
  have nul: "\<forall>k s. (\<lambda>_ :: nat. Some []) k = Some s \<longrightarrow> NUL \<notin> set s" by simp
  have "test_cmon_path (\<lambda>_. None) author_dir [] = Inl (UB OutOfBounds)"
    using test_cmon_path_result [OF ok(2,4), of "\<lambda>_. None"] by simp
  with ok(5) show ?thesis
    using test_cmon_path_result [OF ok(1,3) nul, THEN conjunct2, THEN conjunct2]
      test_cmon_path_result [OF ok(2,4) nul, THEN conjunct2, THEN conjunct2] by simp
qed

end
