(* ===== verification/Http_Unit_Test.thy ===== *)
theory Http_Unit_Test
  imports Unit_Tests
begin

text \<open>
  The unit test of the lookup of a header field, \<open>test_1\<close> of \<open>src/tests/test_cmon_http.c\<close>: one request
  of a browser, looked up once into an array and once into a buffer. \<open>test_2\<close>, which waits for a
  client on port 9000, is commented out in the source.
\<close>

section \<open>The test\<close>

definition http_req :: "byte list" where
  "http_req =
     ''GET / HTTP/1.1'' @ CRLF @
     ''Host: localhost:7000'' @ CRLF @
     ''User-Agent: Mozilla/5.0 (X11; Linux x86_64; rv:148.0) Gecko/20100101 Firefox/148.0'' @ CRLF @
     ''Accept: text/html,application/xhtml+xml,application/xml;q=0.9,*/*;q=0.8'' @ CRLF @
     ''Accept-Language: en-US,en;q=0.9'' @ CRLF @
     ''Accept-Encoding: gzip, deflate, br, zstd'' @ CRLF @
     ''Sec-GPC: 1'' @ CRLF @
     ''Connection: keep-alive'' @ CRLF @
     ''Upgrade-Insecure-Requests: 1'' @ CRLF @
     ''Sec-Fetch-Dest: document'' @ CRLF @
     ''Sec-Fetch-Mode: navigate'' @ CRLF @
     ''Sec-Fetch-Site: none'' @ CRLF @
     ''Priority: u=0, i'' @ CRLF @
     CRLF"

definition expected_header_value :: "byte list" where
  "expected_header_value = '' text/html,application/xhtml+xml,application/xml;q=0.9,*/*;q=0.8''"

text \<open>
  \<open>buf\<close> is the array of 300 bytes as the test finds it. The lookups take their key with the
  terminator behind it.
\<close>

definition http_test_1 :: "byte list \<Rightarrow> 'z bheap_scheme \<Rightarrow> int res" where
  "http_test_1 buf h =
     (case literal http_req h of (req, h1) \<Rightarrow>
      let n = word_of_nat (length http_req) in
      bindE (mem_from req h1) (\<lambda>mem.
      bindE (c_http_get_header_field mem n (Some (cstring ''Accept'')) 6 (Some buf) 300) (\<lambda>(rc, out). (case out of
        None \<Rightarrow> Inl (UB NullDeref)
      | Some bs \<Rightarrow>
          if rc < 0 then Inr (- 1)
          else if length bs \<le> nat rc \<or> length expected_header_value + 1 < nat rc then Inl (UB OutOfBounds)
          else if take (nat rc) (bs[nat rc := NUL]) \<noteq> take (nat rc) (cstring expected_header_value) then Inr (- 2)
          else bindE (c_u_buffer_empty 100 h1) (\<lambda>(buffer, h2).
          bindE (c_u_buffer_new req n h2) (\<lambda>(header, h3).
          bindE (c_http_buf_get_header_field header (Some (cstring ''Accept'')) 6 buffer h3) (\<lambda>(rc1, h4).
          if rc1 \<noteq> C_HTTP_SUCESS then Inr (- 3)
          else bindE (deref buffer h4) (\<lambda>r.
          bindE (memcmp_eq (b_buf r) expected_header_value (unat (b_len r)) h4) (\<lambda>same.
          if \<not> same then Inr (- 4)
          else if b_len r \<noteq> word_of_nat (length expected_header_value) then Inr (- 5)
          else Inr 0)))))))))"

text \<open>The exit status of the program: \<open>main\<close> returns \<open>-1\<close> when the test does not return 0.\<close>

definition test_cmon_http :: "byte list \<Rightarrow> 'z bheap_scheme \<Rightarrow> int res" where
  "test_cmon_http buf h = bindE (http_test_1 buf h) (\<lambda>rc. Inr (if rc = 0 then 0 else - 1))"

section \<open>The request\<close>

lemma http_req_facts:
  "header_has http_req ''Accept'' 122 expected_header_value" "length http_req = 430"
  "length expected_header_value = 64" "NUL \<notin> set http_req" "NUL \<notin> set expected_header_value"
  by (simp_all add: header_has_def http_req_def expected_header_value_def CRLF_def CR_def LF_def NUL_def)

text \<open>The buffer the value is put in: empty, on its own block, next to what was there.\<close>

lemma empty_clean:
  assumes "clean j h"
  obtains a b bs h1 where "c_u_buffer_empty cap h = Inr (Some a, h1)" "clean j h1" "b = next_blk h"
    "cbufs h1 = (cbufs h)(a \<mapsto> \<lparr>b_cap = cap, b_len = 0, b_avl = cap, b_buf = Ptr b 0\<rparr>)"
    "blocks h1 = (blocks h)(b \<mapsto> bs)" "length bs = unat cap" "next_blk h \<le> a" "a < next_blk h1"
proof -
  have ok: "heap_ok h" using assms by (simp add: clean_def)
  show thesis
  using ok proof (cases rule: empty_cases [where cap = cap])
    case (null h1)
    then show thesis using assms by (simp add: clean_def granting_def)
  next
    case (made h1 a b bs)
    have "steady j (next_blk h) h1" using empty_script [OF made(1) clean_steady [OF assms]] .
    then have "clean j h1" using made(2,3,10) assms by (auto simp: clean_def steady_def)
    then show thesis using made that by blast
  qed
qed

section \<open>The lookups\<close>

text \<open>The request in the heap, an empty buffer, and a second buffer with the request.\<close>

lemma http_test_1_passes:
  assumes "clean j h" "length buf = 300"
  shows "http_test_1 buf h = Inr 0"
proof -
  let ?n = "word_of_nat (length http_req) :: size_t" and ?key = "cstring ''Accept''"
  have n: "unat ?n = 430" by (simp add: http_req_facts(2))
  have key: "take (unat (6 :: size_t)) ?key = ''Accept''" "6 \<le> length ?key" by (simp_all add: cstring_def)
  obtain h1 where h1: "literal http_req h = (Ptr (next_blk h) 0, h1)" "clean j h1"
    "blocks h1 = (blocks h)(next_blk h \<mapsto> http_req @ [NUL])" using literal_clean [OF assms(1)] by metis
  have mem: "mem_from (Ptr (next_blk h) 0) h1 = Inr (Some (http_req @ [NUL]))" using h1(3) by simp
  have has: "header_has (take (unat ?n) (http_req @ [NUL])) (take (unat (6 :: size_t)) ?key) 122 expected_header_value"
    unfolding key(1) n using http_req_facts(1,2) by simp
  have first: "c_http_get_header_field (Some (http_req @ [NUL])) ?n (Some ?key) 6 (Some buf) 300 =
      Inr (64, Some (expected_header_value @ drop 64 buf))"
    using header_field_copied [OF has, of 300 buf] assms(2) key(2) n http_req_facts(2,3)
    by (simp add: INT_MAX_def)
  have blk: "blocks h1 (next_blk h) = Some (http_req @ NUL # [])" using h1(3) by simp
  obtain r b bs h2 where e: "c_u_buffer_empty 100 h1 = Inr (Some r, h2)" "clean j h2" "b = next_blk h1"
    "cbufs h2 = (cbufs h1)(r \<mapsto> \<lparr>b_cap = 100, b_len = 0, b_avl = 100, b_buf = Ptr b 0\<rparr>)"
    "blocks h2 = (blocks h1)(b \<mapsto> bs)" "length bs = unat (100 :: size_t)"
    using empty_clean [OF h1(2), of 100] by metis
  have nb: "next_blk h < next_blk h1" using h1(2) blk by (metis clean_def heap_ok_def linorder_not_less option.distinct(1))
  then have blk2: "blocks h2 (next_blk h) = Some (http_req @ NUL # [])" using e(3,5) blk by simp
  have room: "length http_req + 20 < 2 ^ 64" unfolding http_req_facts(2) by simp
  obtain a h3 where new: "c_u_buffer_new (Ptr (next_blk h) 0) ?n h2 = Inr (Some a, h3)"
    "holds_text a (blocks h2, cbufs h2) h3 http_req" "clean j h3"
    using new_clean [OF e(2) blk2 http_req_facts(4) room] by metis
  have others: "(blocks h3)(the (buf_block h3 a) := None) = blocks h2" "(cbufs h3)(a := None) = cbufs h2"
    and ok: "heap_ok h3" "alloc_ok h3" "buf_ok h3 a" "contents h3 a = http_req"
    using new(2) granting_alloc_ok by (auto simp: holds_text_def others_def)
  obtain c where c: "buf_block h3 a = Some c" using ok(3) by (elim buf_okE)
  have r: "r \<noteq> a" "b \<noteq> c" "cbufs h3 r = cbufs h2 r" "blocks h3 b = blocks h2 b"
    using others e(4,5) c by (metis fun_upd_same fun_upd_other option.distinct(1) option.sel)+
  then have bufr: "cbufs h3 r = Some \<lparr>b_cap = 100, b_len = 0, b_avl = 100, b_buf = Ptr b 0\<rparr>" "blocks h3 b = Some bs"
    using e(4,5) by simp_all
  note okr = buf_okI [OF bufr(1) _ bufr(2)]
  have "\<exists>h4. c_http_buf_get_header_field (Some a) (Some ?key) 6 (Some r) h3 = Inr (C_HTTP_SUCESS, h4) \<and>
      buf_ok h4 r \<and> contents h4 r = expected_header_value \<and> contents h4 a = contents h3 a"
  proof (rule header_field_appended [OF ok(1,2,3)])
    show "header_has (contents h3 a) (take (unat (6 :: size_t)) ?key) 122 expected_header_value"
      unfolding key(1) ok(4) by (rule http_req_facts(1))
  qed (use okr e(6) c r(2) key(2) ok(4) http_req_facts(2) in simp_all)
  then obtain h4 where h4: "c_http_buf_get_header_field (Some a) (Some ?key) 6 (Some r) h3 = Inr (C_HTTP_SUCESS, h4)"
    "buf_ok h4 r" "contents h4 r = expected_header_value" by blast
  obtain q c4 bs4 where q0: "cbufs h4 r = Some q" "b_buf q = Ptr c4 0" "blocks h4 c4 = Some bs4"
    "contents h4 r = take (unat (b_len q)) bs4" using h4(2) by (elim buf_okE)
  have len: "unat (b_len q) = 64" using length_contents [OF h4(2) q0(1)] unfolding h4(3) http_req_facts(3) by simp
  then have q: "deref (Some r) h4 = Inr q" "mem_from (b_buf q) h4 = Inr (Some bs4)"
    "take 64 bs4 = expected_header_value" "unat (b_len q) = 64"
    using q0 h4(3) by simp_all
  have "memcmp_eq (b_buf q) expected_header_value 64 h4 = Inr True"
    using memcmp_text [OF q(2), of expected_header_value 64 expected_header_value] q(3) http_req_facts(3) by simp
  moreover have "b_len q = 64" using q(4) by (simp add: word_unat_eq_iff)
  ultimately show ?thesis
    using h1(1) mem first e(1) new(1) h4(1) q(1,4) assms(2) http_req_facts(3)
    by (simp add: http_test_1_def Let_def cstring_def)
qed

section \<open>Property\<close>

text \<open>
  The test of the lookup passes, whatever its array and new blocks hold, on every heap whose
  allocator refuses nothing: both lookups of \<open>Accept\<close> return the whole value, the space behind the
  colon included, and are not misled by \<open>Accept-Language\<close> or \<open>Accept-Encoding\<close>.
\<close>

theorem test_cmon_http_passes:
  assumes "heap_ok h" "Fail \<notin> set (allocs h)" "\<forall>a \<ge> next_blk h. cbufs h a = None" "length buf = 300"
  shows "test_cmon_http buf h = Inr 0"
  using http_test_1_passes [of "junk h" h buf] assms by (simp add: test_cmon_http_def clean_def granting_def)

theorem test_cmon_http_passes_witness:
  "test_cmon_http (replicate 300 CHR ''?'')
     \<lparr>blocks = (\<lambda>_. None), next_blk = 0, allocs = [], junk = (\<lambda>_ _. CHR ''?''), cbufs = (\<lambda>_. None)\<rparr> = Inr 0"
  by (rule test_cmon_http_passes) (simp_all add: heap_ok_def)

end
