(* ===== verification/Logger_Unit_Test.thy ===== *)
theory Logger_Unit_Test
  imports Logger Tokenizer
begin

text \<open>
  The unit test of the log, \<open>src/tests/test_logger.c\<close>: it appends a line of its own, reads the whole
  file back with \<open>fgets\<close> and compares what was read last. \<open>readable\<close> says whether the file can be
  opened for reading. The line it expects is proved to be read, and the program to fail all the same.
\<close>

section \<open>The test\<close>

definition test_message :: "byte list" where
  "test_message = ''test message from test logger.c'' @ [LF]"

text \<open>
  The loop of reads: the text that is left in the buffer, which has room for 99 bytes and a NUL.
\<close>

function last_read :: "byte list \<Rightarrow> byte list \<Rightarrow> byte list" where
  "last_read buff [] = buff"
| "last_read buff (c # cs) = (case fgets 99 (c # cs) of (l, r) \<Rightarrow> last_read l r)"
  by pat_completeness auto
termination
proof (relation "measure (\<lambda>(buff, s). length s)")
  fix buff l r :: "byte list" and c cs
  assume "(l, r) = fgets 99 (c # cs)"
  then have "fgets (Suc 98) (c # cs) = (l, r)" by simp
  from fgets_progress [OF this] show "((l, r), buff, c # cs) \<in> measure (\<lambda>(buff, s). length s)" by simp
qed simp

text \<open>
  The logger is a static object of \<open>log_init\<close>, so its address is compared by comparing the objects.
\<close>

definition test_log_init :: "bool \<Rightarrow> Logger option \<Rightarrow> log_env \<Rightarrow> tm \<Rightarrow> (int \<times> Logger) res" where
  "test_log_init readable logger env t =
     bindE (log_init logger env) (\<lambda>l.
     let l1 = l\<lparr>file_p := file_p l @ test_message\<rparr> in
     if \<not> readable then Inl (UB NullDeref)
     else if take 40 (c_str (last_read [] (file_p l1))) \<noteq> take 40 test_message then Inr (1, l1)
     else bindE (log_init (Some l1) env) (\<lambda>l2.
     bindE (log_init (Some l2) env) (\<lambda>l3.
     if l1 \<noteq> l2 \<and> l3 \<noteq> l2 then Inr (1, l3)
     else bindE (log_write (Some l3) env t LOG_INFO (''hola string agregada 90'' @ [LF])) (\<lambda>l4.
     Inr (1, l4)))))"

definition test_logger :: "bool \<Rightarrow> log_env \<Rightarrow> tm \<Rightarrow> int res" where
  "test_logger readable env t =
     bindE (test_log_init readable None env t) (\<lambda>(rc, l).
     if rc \<noteq> 0 then Inr 1
     else bindE (test_log_init readable (Some l) env t) (\<lambda>(rc2, l2). Inr 0))"

section \<open>Reading back\<close>

text \<open>A short line at the end of a file of lines is what the loop leaves in the buffer.\<close>

lemma fgets_line: "LF \<notin> set m \<Longrightarrow> length m < n \<Longrightarrow> fgets n (m @ [LF]) = (m @ [LF], [])"
proof (induction m arbitrary: n)
  case Nil
  then show ?case by (cases n) simp_all
next
  case (Cons c m)
  then show ?case by (cases n) auto
qed

lemma fgets_first_line: "LF \<in> set s \<Longrightarrow> fgets n (s @ x) = (case fgets n s of (l, r) \<Rightarrow> (l, r @ x))"
  by (induction n s rule: fgets.induct) (auto split: prod.splits)

lemma last_read_line:
  assumes "LF \<notin> set m" "length m < 99" "s = [] \<or> last s = LF"
  shows "last_read buff (s @ m @ [LF]) = m @ [LF]"
  using assms(3)
proof (induction buff s rule: last_read.induct)
  case (1 buff)
  obtain c cs where c: "m @ [LF] = c # cs" by (cases "m @ [LF]") auto
  show ?case using fgets_line [OF assms(1,2)] by (simp add: c)
next
  case (2 buff c cs)
  obtain l r where lr: "fgets 99 (c # cs) = (l, r)" by (cases "fgets 99 (c # cs)")
  have "LF \<in> set (c # cs)" using 2(2) by (metis last_in_set list.discI)
  then have step: "fgets 99 ((c # cs) @ m @ [LF]) = (l, r @ m @ [LF])"
    using fgets_first_line [of "c # cs" 99 "m @ [LF]"] lr by simp
  have "r = [] \<or> last r = LF" using 2(2) fgets_split [OF lr] by (metis last_appendR list.discI)
  then have "last_read l (r @ m @ [LF]) = m @ [LF]" using 2(1) [OF lr [symmetric]] by simp
  then show ?case using step by simp
qed

section \<open>The results\<close>

text \<open>
  On a log file that is empty or ends with a line feed every check of the test passes and both lines
  are in the file; the function then returns 1, which its caller takes for a failure.
\<close>

lemma test_log_init_checks_pass:
  assumes "log_init None env = Inr l" "file_p l = [] \<or> last (file_p l) = LF"
  shows "test_log_init True None env t = Inr (1, l\<lparr>file_p := file_p l @ test_message @
      log_line (l_pid l) t LOG_INFO (''hola string agregada 90'' @ [LF])\<rparr>)"
proof -
  have "last_read [] (file_p l @ test_message) = test_message"
    unfolding test_message_def by (rule last_read_line [OF _ _ assms(2)]) (simp_all add: LF_def)
  moreover have "c_str test_message = test_message" by (rule c_str_id) (simp add: test_message_def NUL_def LF_def)
  ultimately show ?thesis
    using assms(1) by (simp add: test_log_init_def log_write_def log_init_def Let_def)
qed

text \<open>No run of the program ends with 0.\<close>

lemma test_logger_never_passes: "test_logger readable env t = Inr rc \<Longrightarrow> rc = 1"
  by (auto simp: test_logger_def test_log_init_def Let_def bindE_eq_Inr split: if_splits)

end
