(* ===== verification/Spec2Isabelle.thy ===== *)
theory Spec2Isabelle
  imports Proxy Buffer_History Cmon_Main Logger Cmon_Errors Unit_Tests Http_Unit_Test Logger_Unit_Test
begin

text \<open>
  A model of cmon, and what is proved of it.

  cmon (\<open>src/src\<close>) runs a program and restarts it when a file below the working directory is
  modified. \<open>main\<close> reads a configuration file, asks inotify to watch a tree of directories, starts
  the program, and then handles events forever: each modified file that is not ignored makes it
  list the tree of processes below the program, signal them, wait, and start the program again.
  Beside it there is the beginning of a proxy for HTTP (\<open>cmon_proxy\<close>) that forwards messages and
  injects a piece of HTML into them; \<open>main\<close> does not start it yet.

  \<^bold>\<open>How the C code is represented.\<close> \<open>Cmon_Prelude\<close> has the conventions that every theory shares. A
  function of the code is a function of HOL with the same name (leading underscores dropped), with
  one branch for each of its conditions and early returns. It returns \<open>Inr\<close> its value and the state
  after the call, or \<open>Inl\<close> the way it stops: undefined behaviour with its cause, \<open>exit\<close> with its
  status, or a loop that is never left. A \<open>size_t\<close> is a 64-bit word where its wrap-around matters
  and a natural number where it cannot; a \<open>char\<close> is a byte; an array is a list with every access
  checked against its length; a static variable is an argument and a result. A local variable
  that holds no value yet is a list of unspecified bytes or an option. What the kernel and the
  other side of a connection decide is an argument: scripts of arrivals and errors, exit states,
  the answers of \<open>fork\<close>, \<open>access\<close>, \<open>getcwd\<close>, \<open>pstree\<close>. A theorem for all of them is a theorem about every
  environment. A loop is recursion on the data it consumes or on a measure; none needs fuel. A
  loop that does not end is the value \<open>Diverge\<close> or, where it has a state, a step relation.

  \<^bold>\<open>The theories and the code they model.\<close>

  \<^item> \<open>C_Heap\<close>: the allocator, with blocks, double frees, uses after free, and refusals. \<open>C_Utils_Str\<close>
    (\<open>utils/c_utils_str.c\<close>): copies and pattern search, with the contracts \<open>block_copier\<close> and
    \<open>pattern_finder\<close>. \<open>C_Utils_Buffer\<close> (\<open>utils/c_utils_buffer.c\<close>): growing buffers; \<open>buf_ok\<close> is
    their invariant, and insertion and shifting refine operations on that text (\<open>growable_text\<close>).
    \<open>Buffer_History\<close>: their whole life, as edits of a text.
  \<^item> \<open>Text_Utils\<close> (\<open>lib/utils/text_utils.c\<close>): character classes and decimal notation.
  \<^item> \<open>Posix_Io\<close>: descriptors as scripts. \<open>Http_Header\<close> and \<open>Http_Message\<close> (\<open>cmon_proxy/cmon_http.c\<close>): headers
    in an array and in a buffer, and messages received in pieces. \<open>Sockets\<close>
    (\<open>cmon_proxy/cmon_sockets.c\<close>). \<open>Proxy\<close> (\<open>cmon_proxy/cmon_proxy.c\<close>): sending with injection, the loop for
    a client, the state machine of a connection (\<open>comm_turn\<close>, \<open>comm_reach\<close>), and the accept loop with
    its threads (\<open>accept_step\<close>).
  \<^item> \<open>C_Utils_String\<close> (\<open>utils/c_utils_string.c\<close>, \<open>lib/utils/cmon_str_utils.c\<close>): strings with a length, as
    values. \<open>Stepper\<close>: the contract of a loop that takes its
    inputs one by one, which the tokenizer, the reader of process numbers and the main loop keep.
    \<open>Bounded_Seq\<close>: the contract of a container with a limit, which \<open>Cmon_String_Array\<close>
    (\<open>lib/utils/cmon_string_array.c\<close>, 50 strings) and \<open>C_Int_Array\<close> (\<open>utils/c_int_array.c\<close>, 5000 integers, in
    a store of blocks because growing moves them) provide.
  \<^item> \<open>Tokenizer\<close> (\<open>lib/parser/tokenizer.c\<close>) and \<open>Config\<close> (\<open>lib/config/config.c\<close>): from the bytes of the file to
    tokens to the configuration, in the current and in the old format, and the start from the
    arguments and the working directory.
  \<^item> \<open>Cmon_Path\<close> (\<open>lib/utils/cmon_path.c\<close>), \<open>Ps_Tree\<close> (\<open>lib/ps_tree/ps_tree.c\<close>), \<open>Process\<close>
    (\<open>lib/process/process.c\<close>), \<open>Watch_Dirs\<close> and \<open>Inotify\<close> (\<open>lib/inotify/inotify.c\<close>), \<open>Cmon_Main\<close> (\<open>main.c\<close>):
    the watcher. \<open>Logger\<close> (\<open>logger/logger.c\<close>) and \<open>Cmon_Errors\<close> (\<open>lib/utils/cmon_errors.c\<close>, \<open>cmon_print.c\<close>).
  \<^item> \<open>Unit_Tests\<close> (\<open>tests/test_cmon_utils.c\<close>, \<open>test_cmon_path.c\<close>, two tests of \<open>test_cmon_sse.c\<close>),
    \<open>Http_Unit_Test\<close> (\<open>tests/test_cmon_http.c\<close>) and \<open>Logger_Unit_Test\<close> (\<open>tests/test_logger.c\<close>): the unit tests
    of the repository, run on the model.

  \<^bold>\<open>What is shown.\<close> Every component has lemmas on what its operations do to a well-formed state, and
  theorems on top of them. Buffers: insertion and shifting are list operations and keep the
  invariant; every way to lose a buffer is stated; over any history of edits a
  buffer is a text, and freeing it gives back all it had (\<open>c_u_buffer_history\<close>). HTTP: a header and a message are recognised
  however the stream is cut; reading a number undoes writing it; the two lookups agree; and the
  places where the code reads or writes past its arrays are proved to do so. A body passes through
  the chunks unchanged (\<open>c_http_body_chunks_relay\<close>). Proxy: a
  connection of messages without a body is relayed whole (\<open>c_proxy_handle_client_relays\<close>; the call
  gives back its two connections as they were when it closed them, with all that was written), a
  message with a body never is; the state machine writes nothing; a thread
  never serves a connection accepted before its own (\<open>c_proxy_start_threads\<close>).
  Configuration: the text of a list of sections is read back (\<open>config_init_reads_file\<close>), whatever the
  file is the tokens are well typed and the arrays bounded. Watcher: the directories inotify is
  asked to watch are the ones that the configuration does not ignore (\<open>main_start_watches\<close>); the
  handling of events refines an abstract watcher (\<open>watch_run\<close> in \<open>Inotify\<close>), in one buffer and over
  all buffers (\<open>main_loop_watches\<close>); the numbers of the process tree are read back from the output of \<open>pstree\<close>,
  and without them the restart waits for the program (\<open>ino_restart_without_pstree\<close>).
  \<open>cmon_main_watches\<close> puts these together: from the bytes of the configuration file and of the events to
  the processes that are started, signalled and waited for. Tests: the buffer test passes but for two
  bytes that nothing writes (\<open>test_cmon_utils_result\<close>), the path test passes in one directory at most
  (\<open>test_cmon_path_result\<close>), the header test always (\<open>test_cmon_http_passes\<close>), and the log test passes its
  checks and fails all the same (\<open>test_logger_never_passes\<close>).

  \<^bold>\<open>Bounds.\<close> The limits are those of the code: 100 tokens and lexemes of 100 bytes, 50 strings, 5000
  integers, strings of 257 bytes, paths of 4096, headers and body chunks of 8192, a
  buffer of 4096 for events. A theorem that needs one has it as a hypothesis, and what happens
  beyond it is stated where the code does not check it.

  \<^bold>\<open>Memory.\<close> The buffers and the HTTP messages live in the heap of \<open>C_Heap\<close>, whose allocator follows a
  list of events. From \<open>C_Utils_String\<close> on strings, tokens, configurations and paths are values, and
  every allocation takes one answer from a script (\<open>memory\<close> and \<open>try_alloc\<close> in \<open>Cmon_Prelude\<close>); a script
  that has run out grants everything, so a theorem about \<open>[]\<close> is one about a memory that does not
  run out, and \<open>config_init_out_of_memory\<close> and \<open>cmon_path_new_spec\<close> are about the others. A member of a
  structure that nothing has assigned is \<open>Unwritten\<close>, and reading it is undefined. The copy of the
  working directory in \<open>cmon_path_new_full_path\<close> has no NUL and is read as a string: what stands in
  memory behind it is a function of the number of the call (\<open>e_slack\<close>), \<open>Some\<close> the bytes before the first
  NUL there or \<open>None\<close> where the memory may not be read, and the theorems on the watcher and on the test
  of the paths are about every such function. \<open>seen_path\<close> is the path that comes out of it, the
  directory, a slash and the name for \<open>Some []\<close>.

  \<^bold>\<open>Events.\<close> A buffer of events is the encoding of a list of them as inotify documents it: the length
  of an event covers its name and the NULs behind it, both are missing for an event about a watched
  directory itself, and a modification has the name of a file. The log line of an event without a
  name reads the bytes that follow it in the buffer, so the last one needs a NUL in what is left
  there (\<open>last_name_ends\<close>, \<open>reads_ok\<close>).

  \<^bold>\<open>Not modelled.\<close> The lines written to the terminal and to the log are modelled by the functions
  that write them and left out of their callers, except where their format is wrong, and so are
  the allocations inside the C library; releasing a value leaves no trace. The text of \<open>errno\<close> and the
  time are arguments. The child of \<open>pstree\<close> is followed until it stops (\<open>ps_tree_get_pid_arr_child\<close>).
  \<open>cmon_proxy/cmon_sse.c\<close> holds no code. Of the tests, those that wait for a client
  are left out: \<open>test_2\<close> of \<open>test_cmon_http.c\<close>, \<open>test_1\<close> and \<open>test_4\<close> of \<open>test_cmon_sse.c\<close>.
\<close>

section \<open>Properties of the whole program\<close>

text \<open>
  C3. Started in a directory with a configuration file of sections, over a tree whose watches fit
  into the array of 100, the program asks inotify to watch exactly the directories that the file
  does not ignore, starts the program of its arguments once, and knows the child by its number.
\<close>

theorem main_start_watches:
  assumes "2 \<le> length (m_args m)" "text_ok (m_args m ! 1)" "length (m_args m ! 1) \<le> 257"
    "m_dir m = Some d" "cwd_fits (m_path_max m) d" "text_ok d" "length d \<le> 256" "length (m_lexem m) = MAX_LEXEM_LEN"
    "m_access m = Readable" "m_opened m" "m_content m = concat (map render_section ss)"
    "\<forall>s\<in>set ss. section_ok s \<and> (\<exists>e. sec_key s = entry_key e)"
    "length (concat (map section_tokens ss)) \<le> MAX_TOKENS"
    "\<forall>s\<in>set ss. \<forall>w\<in>set (section_words s). length ((d @ ''/'') @ w) \<le> 257"
    "length (words_of IGNORE_DIRS ss) \<le> 50" "0 \<le> m_inotify m" "m_tree m = Some es"
    "ign = set (map (\<lambda>w. d @ ''/'' @ w) (words_of IGNORE_DIRS ss))"
    "tree_ok ign (d @ ''/'') es" "length (watch_paths ign (d @ ''/'') es) \<le> 100"
    "\<forall>b \<ge> inext h. iarrs h b = None" "imem h = []"
  shows "\<exists>conf st. main_start m h = Inr (conf, watch_paths ign (d @ ''/'') es, st) \<and>
     exe conf = Written (Some (cmon_string (m_args m ! 1))) \<and> child_pid st = m_fork m \<and> actions st = [Start (m_fork m)]"
proof -
  have "start_ok m d ss es" using assms(1-20) by (simp add: start_ok_def in_dir_def)
  from main_started [OF this assms(21,22)] assms(18) show ?thesis by (auto simp: in_dir_def)
qed

definition sample_main :: main_env where
  "sample_main = \<lparr>m_args = [''cmon'', ''go'', ''run''], m_path_max = 4096, m_dir = Some ''/w'',
     m_access = Readable, m_opened = True, m_content = concat (map render_section default_sections),
     m_lexem = replicate 100 NUL, m_inotify = 3, m_tree = Some sample_tree,
     m_add_watch = (\<lambda>p. int (length p)), m_fork = 123\<rparr>"

lemma sample_main_ok: "start_ok sample_main ''/w'' default_sections sample_tree"
proof -
  have words: "words_of IGNORE_DIRS default_sections = [''.git'', ''build'', ''node_modules'', ''si/super/com'']"
    by code_simp
  have dirs: "set (in_dir ''/w'' (words_of IGNORE_DIRS default_sections)) =
      {''/w/.git'', ''/w/build'', ''/w/node_modules'', ''/w/si/super/com''}" by (simp add: words in_dir_def)
  show ?thesis
    unfolding start_ok_def dirs using default_sections_ok default_short
    by (simp add: words sample_main_def default_tokens MAX_TOKENS_def MAX_LEXEM_LEN_def NUL_def cwd_fits_def sample_tree_def)
qed

theorem main_start_watches_witness:
  "\<exists>conf st. main_start sample_main \<lparr>iarrs = (\<lambda>_. None), inext = 0, imem = []\<rparr> =
       Inr (conf, [''/w/.'', ''/w/src'', ''/w/src/.''], st) \<and> actions st = [Start 123]"
proof -
  let ?ign = "set (map (\<lambda>w. ''/w'' @ ''/'' @ w) (words_of IGNORE_DIRS default_sections))"
  have words: "words_of IGNORE_DIRS default_sections = [''.git'', ''build'', ''node_modules'', ''si/super/com'']"
    by code_simp
  have ign: "?ign = {''/w/.git'', ''/w/build'', ''/w/node_modules'', ''/w/si/super/com''}" by (simp add: words)
  have paths: "watch_paths ?ign (''/w'' @ ''/'') sample_tree = [''/w/.'', ''/w/src'', ''/w/src/.'']"
    unfolding ign by (simp add: sample_tree_def)
  have tree: "tree_ok ?ign (''/w'' @ ''/'') sample_tree" unfolding ign by (simp add: sample_tree_def NUL_def)
  have few: "length (watch_paths ?ign (''/w'' @ ''/'') sample_tree) \<le> 100" unfolding paths by simp
  have "\<exists>conf st. main_start sample_main \<lparr>iarrs = (\<lambda>_. None), inext = 0, imem = []\<rparr> =
       Inr (conf, watch_paths ?ign (''/w'' @ ''/'') sample_tree, st) \<and>
     exe conf = Written (Some (cmon_string (m_args sample_main ! 1))) \<and> child_pid st = m_fork sample_main \<and>
     actions st = [Start (m_fork sample_main)]"
    by (rule main_start_watches [OF _ _ _ _ _ _ _ _ _ _ _ default_sections_ok _ default_short _ _ _ refl tree few])
      (simp_all add: sample_main_def default_tokens MAX_TOKENS_def MAX_LEXEM_LEN_def NUL_def cwd_fits_def words)
  then show ?thesis unfolding paths by (auto simp: sample_main_def)
qed

text \<open>
  C7. The loop handles the events as one stream, however the reads cut it into buffers: after each
  of them it has done what the abstract watcher does on all the events so far, for every memory
  behind the block with the working directory. The file of an event is looked up with what that
  memory holds in its path, as the directory, a slash and the name when that is a NUL, and the first
  modified file for which it may not be read is undefined behaviour. A read that fails is not
  noticed, since its -1 is kept unsigned: the end of the events is then computed far outside of
  the buffer.
\<close>

theorem main_loop_watches:
  assumes "ignoreFiles conf = map cmon_string fs" "watchExtNames conf = map cmon_string ws"
    "e_dir env = Some d" "length d < 4096" "cwd_cache st = None" "\<forall>n. round_ok (e_round env n) (procs n)"
    "\<forall>b \<ge> inext (ino_heap st). iarrs (ino_heap st) b = None" "imem (ino_heap st) = []"
    "length buff = 4096" "reads_ok buff evss"
  shows "case watch_run (set fs) (set ws) procs (\<lambda>n. r_fork (e_round env n)) (e_slack env) d (concat evss)
         (child_pid st, paths st, restarts st, actions st) of
       Inl e \<Rightarrow> main_loop conf env (reads evss) (buff, st) = Inl e
     | Inr (child, k, n, acts) \<Rightarrow>
         (\<exists>buff1 st1. main_loop conf env (reads evss) (buff, st) = Inr (buff1, st1) \<and>
           child_pid st1 = child \<and> paths st1 = k \<and> restarts st1 = n \<and> actions st1 = acts) \<and>
         main_loop conf env (reads evss @ Poll_In None # later) (buff, st) = Inl (UB OutOfBounds)"
proof -
  let ?w = "watch_run (set fs) (set ws) procs (\<lambda>n. r_fork (e_round env n)) (e_slack env) d (concat evss) (watch_of st)"
  have ok: "watch_ok d env st"
    using assms(3-5,7,8) by (simp add: watch_ok_def full_path_cwd_def MAX_PATH_LEN_def)
  note loop = main_loop_reads [OF assms(1,2,6,10) ok assms(9)]
  show ?thesis
  proof (cases ?w)
    case (Inl e)
    with loop show ?thesis by (simp add: watch_of_def)
  next
    case (Inr w)
    with loop obtain buff1 st1 where l: "main_loop conf env (reads evss) (buff, st) = Inr (buff1, st1)"
      "length buff1 = 4096" "watch_of st1 = w" by auto
    with Inr failed_read_stops [OF l(2), of conf env st1] show ?thesis
      by (auto simp: turns.run_append watch_of_def)
  qed
qed

text \<open>Three reads, the second of which has no events.\<close>

lemma sample_reads_ok: "reads_ok (replicate 4096 NUL) [sample_events, [], sample_events]"
  using sample_events_ok by (intro reads_ok_room) (simp_all del: length_concat)

theorem main_loop_watches_witness:
  "\<exists>buff1 st1. main_loop (new_config\<lparr>ignoreFiles := map cmon_string [''/w/log'']\<rparr>) (sample_ino (\<lambda>_. Some []))
       (reads [sample_events, [], sample_events]) (replicate 4096 NUL, sample_state) = Inr (buff1, st1) \<and>
     actions st1 = [Kill 456, Kill 123, Kill 18, Wait 123, Start 900, Kill 456, Kill 123, Kill 18, Wait 900, Start 900]"
proof -
  let ?conf = "new_config\<lparr>ignoreFiles := map cmon_string [''/w/log'']\<rparr>"
  let ?env = "sample_ino (\<lambda>_. Some [])"
  let ?evss = "[sample_events, [], sample_events]"
  let ?acts = "[Kill 456, Kill 123, Kill 18, Wait 123, Start 900, Kill 456, Kill 123, Kill 18, Wait 900, Start 900]"
  have nums: "concat (map proc_numbers sample_procs) = [18, 123, 456]" by code_simp
  have run: "watch_run (set [''/w/log'']) (set []) (\<lambda>_. sample_procs) (\<lambda>n. r_fork (e_round ?env n)) (e_slack ?env) ''/w''
      (concat ?evss) (child_pid sample_state, paths sample_state, restarts sample_state, actions sample_state) =
    Inr (900, 4, 2, ?acts)"
    by (simp add: sample_events_def IN_MODIFY_def watch_modified_def watch_restart_def nums sample_round_def
        sample_ino_def sample_state_def)
  have "case watch_run (set [''/w/log'']) (set []) (\<lambda>_. sample_procs) (\<lambda>n. r_fork (e_round ?env n)) (e_slack ?env) ''/w''
        (concat ?evss) (child_pid sample_state, paths sample_state, restarts sample_state, actions sample_state) of
       Inl e \<Rightarrow> main_loop ?conf ?env (reads ?evss) (replicate 4096 NUL, sample_state) = Inl e
     | Inr (child, k, n, acts) \<Rightarrow>
         (\<exists>buff1 st1. main_loop ?conf ?env (reads ?evss) (replicate 4096 NUL, sample_state) = Inr (buff1, st1) \<and>
           child_pid st1 = child \<and> paths st1 = k \<and> restarts st1 = n \<and> actions st1 = acts) \<and>
         main_loop ?conf ?env (reads ?evss @ Poll_In None # []) (replicate 4096 NUL, sample_state) = Inl (UB OutOfBounds)"
    by (rule main_loop_watches [OF _ _ _ _ _ _ _ _ _ sample_reads_ok])
      (simp_all add: sample_round_ok new_config_def sample_ino_def sample_state_def)
  then show ?thesis unfolding run by auto
qed

text \<open>
  C1. The whole program, from its start over any number of reads: when the start has nothing to
  complain about, \<open>main\<close> does what the abstract watcher does, from the child it has started, with the
  ignored files and the listed extensions that are written in the configuration file, the first 50
  of each. Each modified file is looked up with what the memory has behind the block of the working
  directory, which has no NUL of its own: as the directory, a slash and the name when a NUL stands
  there, under another path when other bytes do. Where that memory may not be read, and at a
  modified file with a listed extension, the program loses its meaning.
\<close>

theorem cmon_main_watches:
  assumes "start_ok m d ss es" "\<forall>b \<ge> inext h. iarrs h b = None" "imem h = []"
    "e_dir env = Some d" "\<forall>n. round_ok (e_round env n) (procs n)" "length buff = 4096" "reads_ok buff evss"
  shows "case watch_run (set (in_dir d (take INITIAL_ARRAY_SIZE (words_of IGNORE_FILES ss))))
         (set (take INITIAL_ARRAY_SIZE (words_of WATCH_FILE_EXT_NAMES ss))) procs
         (\<lambda>n. r_fork (e_round env n)) (e_slack env) d (concat evss) (m_fork m, 0, 0, [Start (m_fork m)]) of
       Inl e \<Rightarrow> cmon_main m env buff h (reads evss) = Inl e
     | Inr (child, k, n, acts) \<Rightarrow> \<exists>buff1 st1. cmon_main m env buff h (reads evss) = Inr (buff1, st1) \<and>
         child_pid st1 = child \<and> paths st1 = k \<and> restarts st1 = n \<and> actions st1 = acts"
proof -
  obtain conf st where start: "main_start m h =
       Inr (conf, watch_paths (set (in_dir d (words_of IGNORE_DIRS ss))) (d @ ''/'') es, st)"
    "ignoreFiles conf = map cmon_string (in_dir d (take INITIAL_ARRAY_SIZE (words_of IGNORE_FILES ss)))"
    "watchExtNames conf = map cmon_string (take INITIAL_ARRAY_SIZE (words_of WATCH_FILE_EXT_NAMES ss))"
    "child_pid st = m_fork m" "cwd_cache st = None" "paths st = 0" "restarts st = 0" "actions st = [Start (m_fork m)]"
    "\<forall>b \<ge> inext (ino_heap st). iarrs (ino_heap st) b = None" "imem (ino_heap st) = []"
    using main_started [OF assms(1-3)] by blast
  have ok: "watch_ok d env st"
    using assms(1,4) start(5,9,10) by (simp add: watch_ok_def full_path_cwd_def MAX_PATH_LEN_def start_ok_def)
  show ?thesis
    using main_loop_reads [OF start(2,3) assms(5,7) ok assms(6)] start(1,4,6-8)
    by (auto simp: cmon_main_def watch_of_def split: sum.splits)
qed

definition ignored_event :: event where
  "ignored_event = \<lparr>ev_wd = 1, ev_mask = 2, ev_cookie = 0, ev_name = ''.gitignore'', ev_pad = 6\<rparr>"

text \<open>
  The same reads with a NUL behind the working directory, with another byte there, and with
  memory that may not be read.
\<close>

theorem cmon_main_watches_witness:
  "(\<exists>buff1 st1. cmon_main sample_main (sample_ino (\<lambda>_. Some [])) (replicate 4096 NUL)
       \<lparr>iarrs = (\<lambda>_. None), inext = 0, imem = []\<rparr> (reads [sample_events, [ignored_event]]) = Inr (buff1, st1) \<and>
     child_pid st1 = 900 \<and> restarts st1 = 2) \<and>
   (\<exists>buff1 st1. cmon_main sample_main (sample_ino (\<lambda>_. Some ''~'')) (replicate 4096 NUL)
       \<lparr>iarrs = (\<lambda>_. None), inext = 0, imem = []\<rparr> (reads [sample_events, [ignored_event]]) = Inr (buff1, st1) \<and>
     child_pid st1 = 900 \<and> restarts st1 = 3) \<and>
   cmon_main sample_main (sample_ino (\<lambda>_. None)) (replicate 4096 NUL)
     \<lparr>iarrs = (\<lambda>_. None), inext = 0, imem = []\<rparr> (reads [sample_events, [ignored_event]]) = Inl (UB OutOfBounds)"
proof -
  have nums: "concat (map proc_numbers sample_procs) = [18, 123, 456]" by code_simp
  have words: "words_of IGNORE_FILES default_sections = [''.gitignore'', ''c000mand1.go'']"
    "words_of WATCH_FILE_EXT_NAMES default_sections = [''html'', ''css'']" by code_simp+
  have exts: "ext_bytes ''a.c'' = ''.c''" "ext_bytes ''log'' = []" "ext_bytes ''/a.'' = ''.''"
    "ext_bytes ''/lo'' = []" "ext_bytes ''/.gitignor'' = ''.gitignor''" by code_simp+
  have paths: "seen_path ''/w'' ''~'' ''a.c'' = ''/w~/a.''" "seen_path ''/w'' ''~'' ''log'' = ''/w~/lo''"
    "seen_path ''/w'' ''~'' ''.gitignore'' = ''/w~/.gitignor''" by code_simp+
  have ign: "event_ok ignored_event" "length (ev_name ignored_event) \<le> 255"
    "length (concat (map encode_event [ignored_event])) = 32"
    by (simp_all add: ignored_event_def event_ok_def ev_len_def NUL_def encode_event_def)
  have reads: "reads_ok (replicate 4096 NUL) [sample_events, [ignored_event]]"
    using sample_events_ok ign by (intro reads_ok_room) (simp_all del: length_concat)
  define outcome where "outcome behind = watch_run (set (in_dir ''/w'' (take INITIAL_ARRAY_SIZE (words_of IGNORE_FILES default_sections))))
      (set (take INITIAL_ARRAY_SIZE (words_of WATCH_FILE_EXT_NAMES default_sections))) (\<lambda>_. sample_procs)
      (\<lambda>n. r_fork (e_round (sample_ino behind) n)) (e_slack (sample_ino behind)) ''/w''
      (concat [sample_events, [ignored_event]]) (m_fork sample_main, 0, 0, [Start (m_fork sample_main)])" for behind
  note evaluate = words sample_events_def IN_MODIFY_def watch_modified_def watch_restart_def nums sample_round_def
    sample_main_def in_dir_def exts ignored_event_def INITIAL_ARRAY_SIZE_def sample_ino_def outcome_def
  obtain acts where nul: "outcome (\<lambda>_. Some []) = Inr (900, 3, 2, acts)" by (simp add: evaluate)
  obtain acts1 where byte: "outcome (\<lambda>_. Some ''~'') = Inr (900, 3, 3, acts1)" by (simp add: evaluate paths)
  have unread: "outcome (\<lambda>_. None) = Inl (UB OutOfBounds)" by (simp add: evaluate)
  have run: "case outcome behind of
       Inl e \<Rightarrow> cmon_main sample_main (sample_ino behind) (replicate 4096 NUL)
         \<lparr>iarrs = (\<lambda>_. None), inext = 0, imem = []\<rparr> (reads [sample_events, [ignored_event]]) = Inl e
     | Inr (child, k, n, acts) \<Rightarrow> \<exists>buff1 st1. cmon_main sample_main (sample_ino behind) (replicate 4096 NUL)
         \<lparr>iarrs = (\<lambda>_. None), inext = 0, imem = []\<rparr> (reads [sample_events, [ignored_event]]) = Inr (buff1, st1) \<and>
         child_pid st1 = child \<and> paths st1 = k \<and> restarts st1 = n \<and> actions st1 = acts" for behind
    unfolding outcome_def
    by (rule cmon_main_watches [OF sample_main_ok _ _ _ _ _ reads]) (simp_all add: sample_round_ok sample_ino_def)
  show ?thesis using run [of "\<lambda>_. Some []"] run [of "\<lambda>_. Some ''~''"] run [of "\<lambda>_. None"] unfolding nul byte unread by auto
qed

end
